(* ===== verification/Drift_Prelude.thy ===== *)
theory Drift_Prelude
  imports Main "HOL-Library.AList" "HOL-Library.Multiset" "HOL-Library.Word" "HOL-Library.Char_ord"
    "HOL-Library.List_Lexorder" "HOL-Library.Product_Lexorder"
begin

text \<open>
  Shared vocabulary of the development.

  Protobuf maps and \<open>std::unordered_map\<close> values whose entries the code iterates over are
  association lists: the list order is the (unspecified) iteration order, and having no key twice is
  the type invariant of the container.  \<open>m[k] = v\<close> is \<open>AList.update\<close> and
  \<open>m.erase(k)\<close> is \<open>AList.delete\<close>.  A \<open>uint64_t\<close> is a 64 bit word; an
  \<open>int64_t\<close> time stamp is only stored and compared, and is an \<open>int\<close>.  The order on
  \<open>string\<close> is the byte-wise lexicographic order of \<open>std::string\<close>.
\<close>

type_synonym u64 = "64 word"
type_synonym node_id = string
type_synonym key = string
type_synonym millis = int

named_theorems wf_intros \<open>well-formedness of values the operations build\<close>
named_theorems alist_simps \<open>lookups and key sets of updated association lists\<close>

abbreviation distinct_keys :: "('k \<times> 'v) list \<Rightarrow> bool" where
  "distinct_keys al \<equiv> distinct (map fst al)"

subsection \<open>Association lists as containers\<close>

lemma map_of_update [alist_simps]: "map_of (AList.update k v al) = (map_of al)(k \<mapsto> v)"
  by (rule update_conv')

lemma map_of_delete_key [alist_simps]: "map_of (AList.delete k al) = (map_of al)(k := None)"
  by (rule delete_conv')

lemma keys_update [alist_simps]: "fst ` set (AList.update k v al) = insert k (fst ` set al)"
  by (simp add: dom_update)

lemma keys_delete [alist_simps]: "fst ` set (AList.delete k al) = fst ` set al - {k}"
proof -
  have "fst ` set (AList.delete k al) = set (map fst (AList.delete k al))" by simp
  also have "\<dots> = fst ` set al - {k}" by (simp only: delete_keys) auto
  finally show ?thesis .
qed

lemma distinct_keys_update [wf_intros]:
  "distinct_keys al \<Longrightarrow> distinct_keys (AList.update k v al)"
  by (rule distinct_update)

lemma distinct_keys_delete [wf_intros]:
  "distinct_keys al \<Longrightarrow> distinct_keys (AList.delete k al)"
  by (rule distinct_delete)

lemma distinct_keys_tl: "distinct_keys (p # al) \<Longrightarrow> distinct_keys al"
  by simp

lemma map_of_eq_None_keys: "map_of al k = None \<longleftrightarrow> k \<notin> fst ` set al"
  by (rule map_of_eq_None_iff)

lemma map_of_is_Some_keys: "(\<exists>v. map_of al k = Some v) \<longleftrightarrow> k \<in> fst ` set al"
  by (metis map_of_eq_None_iff not_None_eq)

subsection \<open>First occurrences\<close>

text \<open>
  Keeping the first occurrence of every element, the effect of a walk guarded by
  \<open>seen.insert(x).second\<close>.
\<close>

fun nub_from :: "'a list \<Rightarrow> 'a list \<Rightarrow> 'a list" where
  "nub_from seen [] = []"
| "nub_from seen (x # xs) =
     (if x \<in> set seen then nub_from seen xs else x # nub_from (x # seen) xs)"

definition nub :: "'a list \<Rightarrow> 'a list" where
  "nub xs = nub_from [] xs"

lemma set_nub_from: "set (nub_from seen xs) = set xs - set seen"
  by (induction seen xs rule: nub_from.induct) auto

lemma distinct_nub_from: "distinct (nub_from seen xs)"
  by (induction seen xs rule: nub_from.induct) (auto simp: set_nub_from)

lemma nub_from_cong: "set seen = set seen' \<Longrightarrow> nub_from seen xs = nub_from seen' xs"
proof (induction xs arbitrary: seen seen')
  case (Cons x xs)
  then show ?case
    by (metis (full_types) list.simps(15) nub_from.simps(2))
qed simp

lemma set_nub [simp]: "set (nub xs) = set xs"
  by (simp add: nub_def set_nub_from)

lemma distinct_nub [simp]: "distinct (nub xs)"
  by (simp add: nub_def distinct_nub_from)

lemma length_nub_le: "length (nub_from seen xs) \<le> length xs"
  by (induction seen xs rule: nub_from.induct) auto

lemma nub_from_skip: "x \<notin> set xs \<Longrightarrow> nub_from (x # ys) xs = nub_from ys xs"
proof (induction xs arbitrary: ys)
  case (Cons z zs)
  have "nub_from (z # x # ys) zs = nub_from (x # z # ys) zs"
    by (rule nub_from_cong) auto
  with Cons show ?case by auto
qed simp

lemma nub_from_filter: "nub_from ys (filter P xs) = filter P (nub_from ys xs)"
proof (induction xs arbitrary: ys)
  case (Cons x xs)
  have "nub_from (x # ys) (filter P xs) = nub_from ys (filter P xs)" if "\<not> P x"
    by (rule nub_from_skip) (use that in simp)
  with Cons.IH [of ys] Cons.IH [of "x # ys"] show ?case by auto
qed simp

lemma nub_filter: "nub (filter P xs) = filter P (nub xs)"
  by (simp add: nub_def nub_from_filter)

subsection \<open>Choosing an element by an arbitrary number\<close>

text \<open>
  Where the code leaves an order open (threads finishing, a random index), the model takes a list
  of numbers as the choices: each choice selects the element at that position, modulo the number of
  elements left.  Every order is the result of some list of choices.
\<close>

fun drop_nth :: "nat \<Rightarrow> 'a list \<Rightarrow> 'a list" where
  "drop_nth n [] = []"
| "drop_nth 0 (x # xs) = xs"
| "drop_nth (Suc n) (x # xs) = x # drop_nth n xs"

lemma length_drop_nth: "n < length xs \<Longrightarrow> length (drop_nth n xs) = length xs - 1"
  by (induction n xs rule: drop_nth.induct) auto

lemma set_drop_nth_subset: "set (drop_nth n xs) \<subseteq> set xs"
  by (induction n xs rule: drop_nth.induct) auto

lemma mset_drop_nth: "n < length xs \<Longrightarrow> mset (drop_nth n xs) = mset xs - {#xs ! n#}"
  by (induction n xs rule: drop_nth.induct) (auto simp: nth_mem)

fun reorder :: "nat list \<Rightarrow> 'a list \<Rightarrow> 'a list" where
  "reorder [] xs = xs"
| "reorder (c # cs) [] = []"
| "reorder (c # cs) xs = xs ! (c mod length xs) # reorder cs (drop_nth (c mod length xs) xs)"

lemma mset_reorder: "mset (reorder cs xs) = mset xs"
proof (induction cs xs rule: reorder.induct)
  case (3 c cs x xs)
  let ?l = "x # xs" and ?i = "c mod length (x # xs)"
  have i: "?i < length ?l" by (rule mod_less_divisor) simp
  have "mset (reorder (c # cs) ?l) = add_mset (?l ! ?i) (mset (drop_nth ?i ?l))"
    using 3 by simp
  also have "\<dots> = mset ?l"
    by (simp only: mset_drop_nth [OF i]) (metis i insert_DiffM nth_mem_mset)
  finally show ?case .
qed simp_all

lemma set_reorder [simp]: "set (reorder cs xs) = set xs"
  by (metis mset_reorder set_mset_mset)

lemma length_reorder [simp]: "length (reorder cs xs) = length xs"
  by (metis mset_reorder size_mset)

subsection \<open>Counters\<close>

lemma word_less_Suc:
  assumes "(w :: u64) \<noteq> - 1"
  shows "w < w + 1"
proof -
  from assms have "1 + w \<noteq> 0" by (metis max_word_wrap add.commute)
  then have "unat (1 + w) = Suc (unat w)" by (rule unatSuc)
  then show ?thesis by (simp add: word_less_nat_alt add.commute)
qed

lemma unat_Suc_upper: "unat (x + 1 :: u64) \<le> Suc (unat x)"
  by (simp add: unat_word_ariths)

lemma unat_max_counter: "unat (- 1 :: u64) = 2 ^ 64 - 1"
  by (simp add: unsigned_minus_1_eq_mask mask_eq_exp_minus_1)

text \<open>Two subsets whose sizes together exceed the whole meet: the arithmetic of quorums.\<close>

lemma quorum_overlap:
  assumes "finite U" and "A \<subseteq> U" and "B \<subseteq> U" and "card U < card A + card B"
  shows "\<exists>x. x \<in> A \<and> x \<in> B"
proof (rule ccontr)
  assume "\<not> ?thesis"
  then have "A \<inter> B = {}" by blast
  then have "card (A \<union> B) = card A + card B"
    using assms(1-3) by (intro card_Un_disjoint) (auto intro: finite_subset)
  moreover have "card (A \<union> B) \<le> card U"
    using assms(1-3) by (intro card_mono) auto
  ultimately show False using assms(4) by simp
qed

lemma zip_memD: "(a, b) \<in> set (zip xs ys) \<Longrightarrow> a \<in> set xs \<and> b \<in> set ys"
  by (auto dest: set_zip_leftD set_zip_rightD)

end
