(* ===== verification/LWW.thy ===== *)
theory LWW
  imports Drift_Prelude
begin

text \<open>
  The last-writer-wins contract.  Two places of the code decide between two versions by a time
  stamp with the writer's id as tie-break: \<open>resolveLWW\<close> of \<^verbatim>\<open>vector_clock.hpp\<close>
  (between concurrent values) and \<open>mergeInto\<close> of \<^verbatim>\<open>ring.hpp\<close> (between two
  entries of a membership table).  Both promise the law of the locale \<open>lww\<close>: the challenger
  replaces the holder exactly when its stamp is lexicographically greater, so a tie keeps the holder.
  The facts that follow from this law alone are proved here once.
\<close>

fun lww_fold :: "('e \<Rightarrow> 'e \<Rightarrow> bool) \<Rightarrow> 'e \<Rightarrow> 'e list \<Rightarrow> 'e" where
  "lww_fold beats w [] = w"
| "lww_fold beats w (c # cs) = lww_fold beats (if beats c w then c else w) cs"

fun lww_join :: "('e \<Rightarrow> 'e \<Rightarrow> bool) \<Rightarrow> 'e option \<Rightarrow> 'e option \<Rightarrow> 'e option" where
  "lww_join beats l None = l"
| "lww_join beats None (Some i) = Some i"
| "lww_join beats (Some l) (Some i) = Some (if beats i l then i else l)"

locale lww =
  fixes beats :: "'e \<Rightarrow> 'e \<Rightarrow> bool"
    and stamp :: "'e \<Rightarrow> int \<times> string"
  assumes beats_iff: "beats x y \<longleftrightarrow> stamp y < stamp x"
begin

lemma not_beats_self: "\<not> beats x x"
  by (simp add: beats_iff)

lemma beats_trans: "beats x y \<Longrightarrow> beats y z \<Longrightarrow> beats x z"
  by (auto simp: beats_iff)

lemma fold_in: "lww_fold beats w cs \<in> set (w # cs)"
  by (induction cs arbitrary: w) auto

lemma fold_stamp_ge: "c \<in> set (w # cs) \<Longrightarrow> stamp c \<le> stamp (lww_fold beats w cs)"
proof (induction cs arbitrary: w c)
  case (Cons d cs)
  let ?w = "if beats d w then d else w"
  have ge: "stamp w \<le> stamp ?w" "stamp d \<le> stamp ?w"
    by (auto simp: beats_iff)
  have "stamp ?w \<le> stamp (lww_fold beats ?w cs)"
    using Cons.IH [of ?w ?w] by simp
  moreover have "c \<in> set cs \<Longrightarrow> stamp c \<le> stamp (lww_fold beats ?w cs)"
    using Cons.IH [of c ?w] by simp
  ultimately show ?case
    using ge Cons.prems by (auto intro: order_trans)
qed simp

lemma fold_unbeaten: "c \<in> set (w # cs) \<Longrightarrow> \<not> beats c (lww_fold beats w cs)"
  using fold_stamp_ge [of c w cs] by (simp add: beats_iff not_less)

text \<open>The winner does not depend on the order of the candidates when no two stamps agree.\<close>

lemma fold_order_independent:
  assumes "mset (w # cs) = mset (v # ds)"
    and inj: "inj_on stamp (set (w # cs))"
  shows "lww_fold beats w cs = lww_fold beats v ds"
proof -
  let ?a = "lww_fold beats w cs" and ?b = "lww_fold beats v ds"
  have sets: "set (w # cs) = set (v # ds)"
    using assms(1) by (rule mset_eq_setD)
  have "?a \<in> set (w # cs)" by (rule fold_in)
  moreover have "?b \<in> set (w # cs)" unfolding sets by (rule fold_in)
  moreover have "stamp ?a = stamp ?b"
  proof (rule antisym)
    show "stamp ?a \<le> stamp ?b"
      by (rule fold_stamp_ge) (simp only: sets [symmetric], rule fold_in)
    show "stamp ?b \<le> stamp ?a"
      by (rule fold_stamp_ge) (simp only: sets, rule fold_in)
  qed
  ultimately show ?thesis using inj by (meson inj_onD)
qed

lemma join_idem [simp]: "lww_join beats x x = x"
  by (cases x) auto

lemma join_None_left [simp]: "lww_join beats None i = i"
  by (cases i) auto

lemma join_assoc:
  "lww_join beats (lww_join beats x y) z = lww_join beats x (lww_join beats y z)"
  by (cases x; cases y; cases z) (auto simp: beats_iff)

lemma join_comm:
  "(\<And>a b. x = Some a \<Longrightarrow> y = Some b \<Longrightarrow> stamp a = stamp b \<Longrightarrow> a = b) \<Longrightarrow>
   lww_join beats x y = lww_join beats y x"
  by (cases x; cases y) (auto simp: beats_iff)

lemma join_absorb_right: "lww_join beats (lww_join beats x y) y = lww_join beats x y"
  by (simp add: join_assoc)

lemma join_Some_stamp:
  "lww_join beats (Some l) y = Some r \<Longrightarrow> stamp l \<le> stamp r"
  by (cases y) (auto simp: beats_iff split: if_splits)

end

end
