(* ===== verification/Vector_Clock.thy ===== *)
theory Vector_Clock
  imports LWW
begin

text \<open>
  \<^verbatim>\<open>src/src/vector_clock.hpp\<close>: comparison, merge and construction of vector clocks,
  the last-writer-wins tie-break, and the reduction of the replicas' answers to one winner.

  A \<open>vector_clock\<close> is the protobuf message of \<^verbatim>\<open>driftstore.proto\<close>; its counters map
  is an association list in iteration order.  \<open>counter_of\<close> is the abstract value of a clock, a
  total function from node ids to counters with 0 for the absent ones: the specifications below are
  stated on it.
\<close>

subsection \<open>Data\<close>

record vector_clock =
  counters :: "(node_id \<times> u64) list"
  vc_last_updated :: millis
  vc_writer_id :: node_id

record VersionedValue =
  vv_value :: string
  vv_clock :: vector_clock

record GetResolution =
  winner :: VersionedValue
  concurrent_count :: nat

datatype ClockComparison = EQUAL | DOMINATES | DOMINATED | CONCURRENT

text \<open>A default-constructed message: no counters, time stamp 0, empty writer id.\<close>

definition empty_clock :: vector_clock where
  "empty_clock = \<lparr>counters = [], vc_last_updated = 0, vc_writer_id = []\<rparr>"

definition wf_clock :: "vector_clock \<Rightarrow> bool" where
  "wf_clock c \<longleftrightarrow> distinct_keys (counters c)"

definition count_in :: "(node_id \<times> u64) list \<Rightarrow> node_id \<Rightarrow> u64" where
  "count_in m n = (case map_of m n of None \<Rightarrow> 0 | Some v \<Rightarrow> v)"

definition counter_of :: "vector_clock \<Rightarrow> node_id \<Rightarrow> u64" where
  "counter_of c = count_in (counters c)"

subsection \<open>compareVectorClocks\<close>

text \<open>
  The first pass over the entries of \<open>a\<close> counts the keys shared with \<open>b\<close> and leaves the
  loop as soon as both flags are set; the second pass looks for a positive entry of \<open>b\<close> that
  \<open>a\<close> lacks.
\<close>

fun compare_pass1 :: "(node_id \<times> u64) list \<Rightarrow> (node_id \<times> u64) list \<Rightarrow> nat \<Rightarrow> bool \<Rightarrow> bool
    \<Rightarrow> nat \<times> bool \<times> bool" where
  "compare_pass1 [] b_map shared a_greater b_greater = (shared, a_greater, b_greater)"
| "compare_pass1 ((n, a_cnt) # rest) b_map shared a_greater b_greater =
     (let (b_cnt, shared') =
            (case map_of b_map n of Some c \<Rightarrow> (c, shared + 1) | None \<Rightarrow> (0, shared));
          a_greater' = (a_greater \<or> a_cnt > b_cnt);
          b_greater' = (b_greater \<or> b_cnt > a_cnt)
      in if a_greater' \<and> b_greater' then (shared', a_greater', b_greater')
         else compare_pass1 rest b_map shared' a_greater' b_greater')"

fun compare_pass2 :: "(node_id \<times> u64) list \<Rightarrow> (node_id \<times> u64) list \<Rightarrow> bool \<Rightarrow> bool" where
  "compare_pass2 [] a_map b_greater = b_greater"
| "compare_pass2 ((n, b_cnt) # rest) a_map b_greater =
     (if map_of a_map n = None \<and> b_cnt > 0 then True else compare_pass2 rest a_map b_greater)"

definition compareVectorClocks :: "vector_clock \<Rightarrow> vector_clock \<Rightarrow> ClockComparison" where
  "compareVectorClocks a b =
     (let (shared, a_greater, b_greater1) = compare_pass1 (counters a) (counters b) 0 False False;
          b_greater =
            (if shared < length (counters b) \<and> \<not> (a_greater \<and> b_greater1)
             then compare_pass2 (counters b) (counters a) b_greater1 else b_greater1)
      in if \<not> a_greater \<and> \<not> b_greater then EQUAL
         else if a_greater \<and> \<not> b_greater then DOMINATES
         else if \<not> a_greater \<and> b_greater then DOMINATED
         else CONCURRENT)"

subsection \<open>mergeClocks and buildNewClock\<close>

fun merge_pass1 :: "(node_id \<times> u64) list \<Rightarrow> (node_id \<times> u64) list \<Rightarrow> nat
    \<Rightarrow> (node_id \<times> u64) list \<Rightarrow> nat \<times> (node_id \<times> u64) list" where
  "merge_pass1 [] b_map shared vc = (shared, vc)"
| "merge_pass1 ((n, a_cnt) # rest) b_map shared vc =
     (case map_of b_map n of
        Some b_cnt \<Rightarrow> merge_pass1 rest b_map (shared + 1) (AList.update n (max a_cnt b_cnt) vc)
      | None \<Rightarrow> merge_pass1 rest b_map shared (AList.update n a_cnt vc))"

fun merge_pass2 :: "(node_id \<times> u64) list \<Rightarrow> (node_id \<times> u64) list
    \<Rightarrow> (node_id \<times> u64) list \<Rightarrow> (node_id \<times> u64) list" where
  "merge_pass2 [] a_map vc = vc"
| "merge_pass2 ((n, b_cnt) # rest) a_map vc =
     merge_pass2 rest a_map (if map_of a_map n = None then AList.update n b_cnt vc else vc)"

definition mergeClocks :: "vector_clock \<Rightarrow> vector_clock \<Rightarrow> vector_clock" where
  "mergeClocks a b =
     (let (shared, vc) = merge_pass1 (counters a) (counters b) 0 [];
          vc' = (if shared < length (counters b)
                 then merge_pass2 (counters b) (counters a) vc else vc)
      in empty_clock\<lparr>counters := vc'\<rparr>)"

definition value_or_empty :: "vector_clock option \<Rightarrow> vector_clock" where
  "value_or_empty c = (case c of None \<Rightarrow> empty_clock | Some c \<Rightarrow> c)"

text \<open>\<open>now\<close> is the reading of \<open>nowMillis()\<close>; \<open>+= 1\<close> on a \<open>uint64_t\<close> wraps.\<close>

definition buildNewClock :: "vector_clock option \<Rightarrow> vector_clock option \<Rightarrow> node_id \<Rightarrow> millis
    \<Rightarrow> vector_clock" where
  "buildNewClock client_context local_copy coordinator now =
     (let merged = mergeClocks (value_or_empty client_context) (value_or_empty local_copy)
      in merged\<lparr>counters := AList.update coordinator (counter_of merged coordinator + 1)
                             (counters merged),
                vc_last_updated := now, vc_writer_id := coordinator\<rparr>)"

subsection \<open>resolveLWW, computeFrontier and resolveGetResult\<close>

text \<open>A failed \<open>assert\<close> (an empty vector of versions) is \<open>None\<close>.\<close>

fun lww_loop :: "VersionedValue \<Rightarrow> VersionedValue list \<Rightarrow> VersionedValue" where
  "lww_loop w [] = w"
| "lww_loop w (c # cs) =
     (if vc_last_updated (vv_clock c) > vc_last_updated (vv_clock w) then lww_loop c cs
      else if vc_last_updated (vv_clock c) = vc_last_updated (vv_clock w)
              \<and> vc_writer_id (vv_clock c) > vc_writer_id (vv_clock w) then lww_loop c cs
      else lww_loop w cs)"

fun resolveLWW :: "VersionedValue list \<Rightarrow> VersionedValue option" where
  "resolveLWW [] = None"
| "resolveLWW (v # vs) = Some (lww_loop v vs)"

text \<open>The inner loop of \<open>computeFrontier\<close> for entry \<open>i\<close>, from index \<open>j\<close> on.\<close>

fun frontier_keep :: "VersionedValue \<Rightarrow> nat \<Rightarrow> nat \<Rightarrow> VersionedValue list \<Rightarrow> bool" where
  "frontier_keep x i j [] = True"
| "frontier_keep x i j (y # ys) =
     (if i = j then frontier_keep x i (Suc j) ys
      else (let res = compareVectorClocks (vv_clock x) (vv_clock y)
            in if res = EQUAL \<and> j < i then False
               else if res = DOMINATED then False
               else frontier_keep x i (Suc j) ys))"

fun frontier_loop :: "VersionedValue list \<Rightarrow> nat \<Rightarrow> VersionedValue list \<Rightarrow> VersionedValue list" where
  "frontier_loop all i [] = []"
| "frontier_loop all i (x # xs) =
     (if frontier_keep x i 0 all then x # frontier_loop all (Suc i) xs
      else frontier_loop all (Suc i) xs)"

definition computeFrontier :: "VersionedValue list \<Rightarrow> VersionedValue list" where
  "computeFrontier replica_responses = frontier_loop replica_responses 0 replica_responses"

definition resolveGetResult :: "VersionedValue list \<Rightarrow> GetResolution option" where
  "resolveGetResult replica_responses =
     (if replica_responses = [] then None
      else (let frontier = computeFrontier replica_responses
            in map_option (\<lambda>w. \<lparr>winner = w, concurrent_count = length frontier\<rparr>)
                 (if length frontier > 1 then resolveLWW frontier
                  else (case frontier of [] \<Rightarrow> None | v # _ \<Rightarrow> Some v))))"

subsection \<open>The comparison decides the pointwise order\<close>

lemma count_in_simps [simp]:
  "count_in [] n = 0"
  "count_in (AList.update k v m) n = (if n = k then v else count_in m n)"
  by (auto simp: count_in_def alist_simps)

lemma count_in_mem: "distinct_keys m \<Longrightarrow> (n, v) \<in> set m \<Longrightarrow> count_in m n = v"
  by (simp add: count_in_def)

lemma count_in_absent: "map_of m n = None \<Longrightarrow> count_in m n = 0"
  by (simp add: count_in_def)

lemma count_in_present: "map_of m n = Some v \<Longrightarrow> count_in m n = v"
  by (simp add: count_in_def)

lemma compare_pass1_flags:
  assumes "compare_pass1 m b sh ag bg = (sh', ag', bg')" and "\<not> (ag \<and> bg)"
  shows "(ag' \<longrightarrow> ag \<or> (\<exists>(n, v) \<in> set m. v > count_in b n)) \<and>
         (bg' \<longrightarrow> bg \<or> (\<exists>(n, v) \<in> set m. count_in b n > v)) \<and>
         (ag' \<and> bg' \<or>
          (ag \<or> (\<exists>(n, v) \<in> set m. v > count_in b n) \<longrightarrow> ag') \<and>
          (bg \<or> (\<exists>(n, v) \<in> set m. count_in b n > v) \<longrightarrow> bg') \<and>
          sh' = sh + length (filter (\<lambda>(n, v). map_of b n \<noteq> None) m))"
  using assms
proof (induction m arbitrary: sh ag bg)
  case (Cons p m)
  obtain n v where p: "p = (n, v)" by (cases p)
  let ?ag = "ag \<or> v > count_in b n" and ?bg = "bg \<or> count_in b n > v"
  let ?sh = "if map_of b n = None then sh else sh + 1"
  have step: "compare_pass1 (p # m) b sh ag bg =
      (if ?ag \<and> ?bg then (?sh, True, True) else compare_pass1 m b ?sh ?ag ?bg)"
    by (auto simp: p count_in_def Let_def split: option.splits)
  show ?case
  proof (cases "?ag \<and> ?bg")
    case True
    with Cons.prems(1) step show ?thesis by (auto simp: p)
  next
    case False
    with Cons.prems(1) step have "compare_pass1 m b ?sh ?ag ?bg = (sh', ag', bg')" by simp
    from Cons.IH [OF this False] show ?thesis by (auto simp: p)
  qed
qed simp

lemma compare_pass2_flag:
  "compare_pass2 m a bg \<longleftrightarrow> bg \<or> (\<exists>(n, v) \<in> set m. map_of a n = None \<and> v > 0)"
  by (induction m a bg rule: compare_pass2.induct) auto

lemma shared_all_keys:
  assumes "distinct_keys a" and "distinct_keys b"
    and "\<not> length (filter (\<lambda>(n, v). map_of b n \<noteq> None) a) < length b"
    and "n \<in> fst ` set b"
  shows "n \<in> fst ` set a"
proof -
  let ?f = "filter (\<lambda>(n, v). map_of b n \<noteq> None) a"
  have "distinct_keys ?f" using assms(1) by (rule distinct_map_filter)
  then have "card (fst ` set ?f) = length ?f"
    using distinct_card by fastforce
  moreover have "card (fst ` set b) = length b"
    using assms(2) distinct_card by fastforce
  moreover have sub: "fst ` set ?f \<subseteq> fst ` set b"
    by (force simp: map_of_eq_None_iff)
  ultimately have "fst ` set ?f = fst ` set b"
    using assms(3) card_mono [OF _ sub] by (intro card_subset_eq) auto
  with assms(4) show ?thesis by force
qed

lemma compare_value:
  assumes "wf_clock a" and "wf_clock b"
  shows "compareVectorClocks a b =
    (if counter_of a \<le> counter_of b
     then if counter_of b \<le> counter_of a then EQUAL else DOMINATED
     else if counter_of b \<le> counter_of a then DOMINATES else CONCURRENT)"
proof -
  let ?a = "counters a" and ?b = "counters b"
  obtain sh ag bg where p1: "compare_pass1 ?a ?b 0 False False = (sh, ag, bg)"
    by (cases "compare_pass1 ?a ?b 0 False False") auto
  define A B1 B2 where "A \<longleftrightarrow> (\<exists>(n, v) \<in> set ?a. v > count_in ?b n)"
    and "B1 \<longleftrightarrow> (\<exists>(n, v) \<in> set ?a. count_in ?b n > v)"
    and "B2 \<longleftrightarrow> (\<exists>(n, v) \<in> set ?b. map_of ?a n = None \<and> v > 0)"
  have da: "distinct_keys ?a" and db: "distinct_keys ?b"
    using assms by (auto simp: wf_clock_def)
  have A: "A \<longleftrightarrow> \<not> counter_of a \<le> counter_of b"
  proof
    assume A
    then obtain n v where "(n, v) \<in> set ?a" "v > count_in ?b n" by (auto simp: A_def)
    then have "counter_of a n > counter_of b n"
      using da by (simp add: counter_of_def count_in_mem)
    then show "\<not> counter_of a \<le> counter_of b" by (auto simp: le_fun_def not_le)
  next
    assume "\<not> counter_of a \<le> counter_of b"
    then obtain n where "count_in ?a n > count_in ?b n"
      by (auto simp: le_fun_def counter_of_def not_le)
    then have "(n, count_in ?a n) \<in> set ?a" "count_in ?a n > count_in ?b n"
      by (auto simp: count_in_def map_of_SomeD split: option.splits)
    then show A by (auto simp: A_def)
  qed
  have B: "B1 \<or> B2 \<longleftrightarrow> \<not> counter_of b \<le> counter_of a"
  proof
    have B1: "B1 \<Longrightarrow> \<exists>n. counter_of b n > counter_of a n"
      unfolding B1_def by (auto simp: counter_of_def dest: count_in_mem [OF da])
    have B2: "B2 \<Longrightarrow> \<exists>n. counter_of b n > counter_of a n"
      unfolding B2_def
      by (auto simp: counter_of_def) (metis count_in_absent count_in_mem db)
    assume "B1 \<or> B2"
    with B1 B2 have "\<exists>n. counter_of b n > counter_of a n" by blast
    then show "\<not> counter_of b \<le> counter_of a" by (auto simp: le_fun_def not_le)
  next
    assume "\<not> counter_of b \<le> counter_of a"
    then obtain n where n: "count_in ?b n > count_in ?a n"
      by (auto simp: le_fun_def counter_of_def not_le)
    then have nb: "(n, count_in ?b n) \<in> set ?b" "count_in ?b n > 0"
      by (auto simp: count_in_def map_of_SomeD word_gt_0 split: option.splits)
    show "B1 \<or> B2"
    proof (cases "map_of ?a n")
      case None
      with nb show ?thesis by (auto simp: B2_def)
    next
      case (Some v)
      with n have "(n, v) \<in> set ?a" "count_in ?b n > v"
        by (auto simp: count_in_def map_of_SomeD)
      then show ?thesis by (auto simp: B1_def)
    qed
  qed
  have flags: "(ag \<longrightarrow> A) \<and> (bg \<longrightarrow> B1) \<and> (ag \<and> bg \<or> (A \<longrightarrow> ag) \<and> (B1 \<longrightarrow> bg) \<and>
      sh = length (filter (\<lambda>(n, v). map_of ?b n \<noteq> None) ?a))"
    using compare_pass1_flags [OF p1] by (simp add: A_def B1_def)
  have skip: "\<not> sh < length ?b \<Longrightarrow> \<not> (ag \<and> bg) \<Longrightarrow> \<not> B2"
    using flags shared_all_keys [OF da db]
    by (force simp: B2_def map_of_eq_None_iff)
  have "counter_of a \<le> counter_of b \<longleftrightarrow> \<not> A" "counter_of b \<le> counter_of a \<longleftrightarrow> \<not> (B1 \<or> B2)"
    using A B by blast+
  then show ?thesis
    using flags skip
    by (auto simp: compareVectorClocks_def p1 compare_pass2_flag B2_def [symmetric])
qed

subsection \<open>The contract of a comparison of versions\<close>

text \<open>
  What every user of \<open>compareVectorClocks\<close> relies on: the four answers are the four cases of
  comparing the abstract values of two well-formed clocks in their partial order.
\<close>

fun flip_comparison :: "ClockComparison \<Rightarrow> ClockComparison" where
  "flip_comparison EQUAL = EQUAL"
| "flip_comparison DOMINATES = DOMINATED"
| "flip_comparison DOMINATED = DOMINATES"
| "flip_comparison CONCURRENT = CONCURRENT"

locale causal_comparison =
  fixes cmp :: "'c \<Rightarrow> 'c \<Rightarrow> ClockComparison"
    and wf :: "'c \<Rightarrow> bool"
    and val :: "'c \<Rightarrow> 'v::order"
  assumes cmp_val: "wf a \<Longrightarrow> wf b \<Longrightarrow> cmp a b =
    (if val a \<le> val b then if val b \<le> val a then EQUAL else DOMINATED
     else if val b \<le> val a then DOMINATES else CONCURRENT)"
begin

lemma cmp_EQUAL: "wf a \<Longrightarrow> wf b \<Longrightarrow> cmp a b = EQUAL \<longleftrightarrow> val a = val b"
  by (auto simp: cmp_val)

lemma cmp_DOMINATED: "wf a \<Longrightarrow> wf b \<Longrightarrow> cmp a b = DOMINATED \<longleftrightarrow> val a < val b"
  by (auto simp: cmp_val less_le_not_le)

lemma cmp_DOMINATES: "wf a \<Longrightarrow> wf b \<Longrightarrow> cmp a b = DOMINATES \<longleftrightarrow> val b < val a"
  by (auto simp: cmp_val less_le_not_le)

lemma cmp_CONCURRENT:
  "wf a \<Longrightarrow> wf b \<Longrightarrow> cmp a b = CONCURRENT \<longleftrightarrow> \<not> val a \<le> val b \<and> \<not> val b \<le> val a"
  by (auto simp: cmp_val)

lemmas cmp_simps = cmp_EQUAL cmp_DOMINATED cmp_DOMINATES cmp_CONCURRENT

lemma cmp_refl: "wf a \<Longrightarrow> cmp a a = EQUAL"
  by (simp add: cmp_val)

lemma cmp_flip: "wf a \<Longrightarrow> wf b \<Longrightarrow> cmp b a = flip_comparison (cmp a b)"
  by (auto simp: cmp_val)

lemma cmp_keeps_stored:
  "wf a \<Longrightarrow> wf b \<Longrightarrow> cmp a b = EQUAL \<or> cmp a b = DOMINATES \<longleftrightarrow> val b \<le> val a"
  by (auto simp: cmp_val)

lemma dominated_trans:
  "wf a \<Longrightarrow> wf b \<Longrightarrow> wf c \<Longrightarrow> cmp a b = DOMINATED \<Longrightarrow> cmp b c = DOMINATED \<Longrightarrow>
   cmp a c = DOMINATED"
  by (auto simp: cmp_DOMINATED)

text \<open>Every element of a finite set of values lies below one that nothing dominates.\<close>

lemma undominated_above:
  assumes "finite A" and "x \<in> A" and "\<forall>a \<in> A. wf a"
  shows "\<exists>m \<in> A. val x \<le> val m \<and> (\<forall>a \<in> A. cmp m a \<noteq> DOMINATED)"
proof -
  obtain v where v: "v \<in> val ` A" "val x \<le> v" "\<forall>w \<in> val ` A. v \<le> w \<longrightarrow> v = w"
    using finite_has_maximal2 [of "val ` A" "val x"] assms(1,2) by auto
  then obtain m where "m \<in> A" "v = val m" by blast
  with v assms(3) show ?thesis by (intro bexI [of _ m]) (auto simp: cmp_DOMINATED)
qed

end

interpretation vc: causal_comparison compareVectorClocks wf_clock counter_of
  by unfold_locales (rule compare_value)

subsection \<open>Merging\<close>

lemma wf_empty_clock [wf_intros]: "wf_clock empty_clock"
  by (simp add: wf_clock_def empty_clock_def)

lemma counter_of_empty [simp]: "counter_of empty_clock = (\<lambda>_. 0)"
  by (rule ext) (simp add: counter_of_def empty_clock_def)

lemma merge_pass1_result:
  assumes "merge_pass1 m b sh vc = (sh', vc')" and "distinct_keys m"
  shows "count_in vc' n = (if n \<in> fst ` set m then max (count_in m n) (count_in b n)
           else count_in vc n)
    \<and> fst ` set vc' = fst ` set vc \<union> fst ` set m
    \<and> (distinct_keys vc \<longrightarrow> distinct_keys vc')
    \<and> sh' = sh + length (filter (\<lambda>(n, v). map_of b n \<noteq> None) m)"
  using assms
proof (induction m b sh vc rule: merge_pass1.induct)
  case (2 k v rest b sh vc)
  have zero: "max v 0 = v" "max 0 v = v" for v :: u64
    by (auto simp: max_def word_gt_0 not_le)
  show ?case
  proof (cases "map_of b k")
    case None
    with 2 show ?thesis
      by (auto simp: alist_simps wf_intros count_in_def zero split: if_splits)
  next
    case (Some w)
    with 2 show ?thesis
      by (auto simp: alist_simps wf_intros count_in_def split: if_splits)
  qed
qed auto

lemma merge_pass2_result:
  assumes "distinct_keys m"
  shows "count_in (merge_pass2 m a vc) n =
           (if n \<in> fst ` set m \<and> n \<notin> fst ` set a then count_in m n else count_in vc n)
    \<and> fst ` set (merge_pass2 m a vc) = fst ` set vc \<union> (fst ` set m - fst ` set a)
    \<and> (distinct_keys vc \<longrightarrow> distinct_keys (merge_pass2 m a vc))"
  using assms
proof (induction m a vc rule: merge_pass2.induct)
  case (2 k v rest a vc)
  then show ?case
    by (cases "k \<in> fst ` set a")
      (auto simp: alist_simps wf_intros count_in_def map_of_eq_None_iff)
qed simp

lemma mergeClocks_result:
  assumes "wf_clock a" and "wf_clock b"
  shows "counter_of (mergeClocks a b) n = max (counter_of a n) (counter_of b n)
    \<and> fst ` set (counters (mergeClocks a b)) = fst ` set (counters a) \<union> fst ` set (counters b)
    \<and> wf_clock (mergeClocks a b)"
proof -
  let ?a = "counters a" and ?b = "counters b"
  have da: "distinct_keys ?a" and db: "distinct_keys ?b"
    using assms by (auto simp: wf_clock_def)
  obtain sh vc where p1: "merge_pass1 ?a ?b 0 [] = (sh, vc)"
    by (cases "merge_pass1 ?a ?b 0 []")
  note r1 = merge_pass1_result [OF p1 da]
  let ?vc = "if sh < length ?b then merge_pass2 ?b ?a vc else vc"
  have c: "counters (mergeClocks a b) = ?vc"
    by (simp add: mergeClocks_def p1)
  have skip: "\<not> sh < length ?b \<Longrightarrow> fst ` set ?b \<subseteq> fst ` set ?a"
    using shared_all_keys [OF da db] r1 by auto
  have zero: "max v 0 = v" "max 0 v = v" for v :: u64
    by (auto simp: max_def word_gt_0 not_le)
  have absent: "n \<notin> fst ` set m \<Longrightarrow> count_in m n = 0" for m
    by (rule count_in_absent) (simp only: map_of_eq_None_iff not_False_eq_True)
  have "count_in ?vc n = max (count_in ?a n) (count_in ?b n)"
    using r1 merge_pass2_result [OF db, of ?a vc n] skip absent [of ?a] absent [of ?b]
    by (cases "n \<in> fst ` set ?a"; cases "n \<in> fst ` set ?b") (auto simp: zero)
  moreover have "fst ` set ?vc = fst ` set ?a \<union> fst ` set ?b"
    using r1 merge_pass2_result [OF db, of ?a vc n] skip by auto
  moreover have "distinct_keys ?vc"
    using r1 merge_pass2_result [OF db, of ?a vc n] by auto
  ultimately show ?thesis by (simp add: wf_clock_def counter_of_def c)
qed

lemma wf_mergeClocks [wf_intros]: "wf_clock a \<Longrightarrow> wf_clock b \<Longrightarrow> wf_clock (mergeClocks a b)"
  by (simp add: mergeClocks_result)

lemma counter_mergeClocks:
  "wf_clock a \<Longrightarrow> wf_clock b \<Longrightarrow>
   counter_of (mergeClocks a b) = (\<lambda>n. max (counter_of a n) (counter_of b n))"
  by (rule ext) (simp add: mergeClocks_result)

lemma mergeClocks_stamp:
  "vc_last_updated (mergeClocks a b) = 0" "vc_writer_id (mergeClocks a b) = []"
  by (simp_all add: mergeClocks_def empty_clock_def split: prod.splits)

subsection \<open>The clock of a new write\<close>

definition wf_clock_opt :: "vector_clock option \<Rightarrow> bool" where
  "wf_clock_opt c \<longleftrightarrow> (\<forall>d. c = Some d \<longrightarrow> wf_clock d)"

lemma wf_value_or_empty [wf_intros]: "wf_clock_opt c \<Longrightarrow> wf_clock (value_or_empty c)"
  by (auto simp: wf_clock_opt_def value_or_empty_def wf_intros split: option.splits)

lemma wf_clock_opt_simps [simp]: "wf_clock_opt None" "wf_clock_opt (Some c) \<longleftrightarrow> wf_clock c"
  by (auto simp: wf_clock_opt_def)

lemma value_or_empty_simps [simp]:
  "value_or_empty None = empty_clock" "value_or_empty (Some c) = c"
  by (simp_all add: value_or_empty_def)

lemma wf_buildNewClock [wf_intros]:
  "wf_clock_opt ctx \<Longrightarrow> wf_clock_opt loc \<Longrightarrow> wf_clock (buildNewClock ctx loc self now)"
  using wf_mergeClocks [OF wf_value_or_empty wf_value_or_empty, of ctx loc]
  by (simp add: buildNewClock_def Let_def wf_clock_def wf_intros)

lemma buildNewClock_stamp [simp]:
  "vc_last_updated (buildNewClock ctx loc self now) = now"
  "vc_writer_id (buildNewClock ctx loc self now) = self"
  by (simp_all add: buildNewClock_def Let_def)

definition base_counter :: "vector_clock option \<Rightarrow> vector_clock option \<Rightarrow> node_id \<Rightarrow> u64" where
  "base_counter ctx loc n =
     max (counter_of (value_or_empty ctx) n) (counter_of (value_or_empty loc) n)"

lemma counter_buildNewClock:
  assumes "wf_clock_opt ctx" and "wf_clock_opt loc"
  shows "counter_of (buildNewClock ctx loc self now) =
    (base_counter ctx loc)(self := base_counter ctx loc self + 1)"
proof -
  let ?m = "mergeClocks (value_or_empty ctx) (value_or_empty loc)"
  have m: "counter_of ?m n = base_counter ctx loc n" for n
    using assms by (simp add: counter_mergeClocks wf_intros base_counter_def)
  have "counter_of (buildNewClock ctx loc self now) n =
      (if n = self then counter_of ?m self + 1 else counter_of ?m n)" for n
    by (simp add: buildNewClock_def Let_def counter_of_def)
  then show ?thesis by (auto simp: m)
qed

lemma base_counter_upper:
  assumes "wf_clock_opt ctx" and "wf_clock_opt loc"
    and "base_counter ctx loc self \<noteq> - 1"
  shows "base_counter ctx loc < counter_of (buildNewClock ctx loc self now)"
  unfolding counter_buildNewClock [OF assms(1,2)] less_le_not_le
  using word_less_Suc [OF assms(3)] by (auto simp: le_fun_def less_imp_le not_le)

lemma base_counter_ge:
  "counter_of (value_or_empty ctx) \<le> base_counter ctx loc"
  "counter_of (value_or_empty loc) \<le> base_counter ctx loc"
  by (auto simp: le_fun_def base_counter_def)

lemma buildNewClock_above:
  assumes "wf_clock_opt ctx" and "wf_clock_opt loc"
    and "base_counter ctx loc self \<noteq> - 1"
  shows "counter_of (value_or_empty ctx) < counter_of (buildNewClock ctx loc self now)"
    and "counter_of (value_or_empty loc) < counter_of (buildNewClock ctx loc self now)"
  using base_counter_upper [OF assms, of now] base_counter_ge [of ctx loc]
    base_counter_ge [of loc ctx]
  by (blast intro: le_less_trans base_counter_ge)+

subsection \<open>The tie-break is a last-writer-wins choice\<close>

definition clock_stamp :: "VersionedValue \<Rightarrow> millis \<times> node_id" where
  "clock_stamp v = (vc_last_updated (vv_clock v), vc_writer_id (vv_clock v))"

definition clock_beats :: "VersionedValue \<Rightarrow> VersionedValue \<Rightarrow> bool" where
  "clock_beats c w \<longleftrightarrow> vc_last_updated (vv_clock c) > vc_last_updated (vv_clock w)
     \<or> (vc_last_updated (vv_clock c) = vc_last_updated (vv_clock w)
         \<and> vc_writer_id (vv_clock c) > vc_writer_id (vv_clock w))"

interpretation vlww: lww clock_beats clock_stamp
  by unfold_locales (auto simp: clock_beats_def clock_stamp_def less_prod_def)

lemma lww_loop_fold: "lww_loop w cs = lww_fold clock_beats w cs"
  by (induction w cs rule: lww_loop.induct) (auto simp: clock_beats_def)

lemma resolveLWW_in: "resolveLWW vs = Some w \<Longrightarrow> w \<in> set vs"
  using vlww.fold_in by (cases vs) (auto simp: lww_loop_fold)

lemma resolveLWW_total: "vs \<noteq> [] \<Longrightarrow> \<exists>w. resolveLWW vs = Some w"
  by (cases vs) auto

lemma resolveLWW_greatest: "resolveLWW vs = Some w \<Longrightarrow> v \<in> set vs \<Longrightarrow> clock_stamp v \<le> clock_stamp w"
  using vlww.fold_stamp_ge by (cases vs) (auto simp: lww_loop_fold)

lemma resolveLWW_reorder:
  assumes "mset vs = mset vs'" and "inj_on clock_stamp (set vs)"
  shows "resolveLWW vs = resolveLWW vs'"
proof (cases vs)
  case Nil
  with assms show ?thesis by simp
next
  case (Cons v ws)
  with assms(1) obtain v' ws' where "vs' = v' # ws'" by (cases vs') auto
  with Cons assms show ?thesis
    by (auto simp: lww_loop_fold intro!: vlww.fold_order_independent)
qed

subsection \<open>The frontier\<close>

abbreviation vv_counters :: "VersionedValue \<Rightarrow> node_id \<Rightarrow> u64" where
  "vv_counters v \<equiv> counter_of (vv_clock v)"

definition wf_versions :: "VersionedValue list \<Rightarrow> bool" where
  "wf_versions vs \<longleftrightarrow> (\<forall>v \<in> set vs. wf_clock (vv_clock v))"

lemma frontier_keep_iff:
  "frontier_keep x i j ys \<longleftrightarrow>
   (\<forall>k < length ys. j + k \<noteq> i \<longrightarrow>
      \<not> (compareVectorClocks (vv_clock x) (vv_clock (ys ! k)) = EQUAL \<and> j + k < i) \<and>
      compareVectorClocks (vv_clock x) (vv_clock (ys ! k)) \<noteq> DOMINATED)"
proof (induction ys arbitrary: j)
  case (Cons y ys)
  have split: "(\<forall>k < length (y # ys). P k) \<longleftrightarrow> P 0 \<and> (\<forall>k < length ys. P (Suc k))" for P
    by (auto simp: less_Suc_eq_0_disj)
  show ?case
    unfolding split frontier_keep.simps Cons.IH Let_def by auto
qed simp

lemma frontier_loop_filter:
  "frontier_loop all i xs =
   map ((!) xs) (filter (\<lambda>k. frontier_keep (xs ! k) (i + k) 0 all) [0..<length xs])"
proof (induction xs arbitrary: i)
  case (Cons x xs)
  have "[0..<length (x # xs)] = 0 # map Suc [0..<length xs]"
    by (simp add: upt_conv_Cons map_Suc_upt del: upt_Suc)
  then show ?case
    by (simp add: Cons.IH filter_map comp_def)
qed simp

text \<open>The positions that survive: the first ones of their value, with no value above.\<close>

definition survives :: "VersionedValue list \<Rightarrow> nat \<Rightarrow> bool" where
  "survives rs i \<longleftrightarrow> i < length rs \<and> (\<forall>j < length rs.
     (vv_counters (rs ! j) = vv_counters (rs ! i) \<longrightarrow> i \<le> j) \<and>
     \<not> vv_counters (rs ! i) < vv_counters (rs ! j))"

lemma computeFrontier_survivors:
  assumes "wf_versions rs"
  shows "computeFrontier rs = map ((!) rs) (filter (survives rs) [0..<length rs])"
proof -
  have "frontier_keep (rs ! i) i 0 rs \<longleftrightarrow> survives rs i" if "i < length rs" for i
  proof -
    have wf: "wf_clock (vv_clock (rs ! j))" if "j < length rs" for j
      using that assms by (auto simp: wf_versions_def)
    show ?thesis
      using that unfolding frontier_keep_iff survives_def
      by (auto simp: vc.cmp_simps wf)
  qed
  then have "filter (\<lambda>k. frontier_keep (rs ! k) (0 + k) 0 rs) [0..<length rs] =
      filter (survives rs) [0..<length rs]"
    by (intro filter_cong) auto
  then show ?thesis
    by (simp add: computeFrontier_def frontier_loop_filter)
qed

lemma frontier_mem:
  "wf_versions rs \<Longrightarrow> v \<in> set (computeFrontier rs) \<longleftrightarrow> (\<exists>i. survives rs i \<and> v = rs ! i)"
  by (auto simp: computeFrontier_survivors survives_def)

lemma frontier_subset: "wf_versions rs \<Longrightarrow> set (computeFrontier rs) \<subseteq> set rs"
  by (auto simp: frontier_mem survives_def)

lemma wf_versions_frontier [wf_intros]: "wf_versions rs \<Longrightarrow> wf_versions (computeFrontier rs)"
  using frontier_subset by (auto simp: wf_versions_def)

lemma wf_versions_mem: "wf_versions rs \<Longrightarrow> v \<in> set rs \<Longrightarrow> wf_clock (vv_clock v)"
  by (simp add: wf_versions_def)

lemma frontier_undominated:
  "wf_versions rs \<Longrightarrow> v \<in> set (computeFrontier rs) \<Longrightarrow> r \<in> set rs \<Longrightarrow>
   \<not> vv_counters v < vv_counters r"
  by (auto simp: frontier_mem survives_def in_set_conv_nth [of r])

text \<open>Any answer is covered by a survivor: take a maximal value above it, at its first position.\<close>

lemma frontier_covers:
  assumes "wf_versions rs" and "r \<in> set rs"
  shows "\<exists>v \<in> set (computeFrontier rs). vv_counters r \<le> vv_counters v"
proof -
  let ?V = "vv_counters ` set rs"
  obtain m where m: "m \<in> ?V" "vv_counters r \<le> m" "\<forall>w \<in> ?V. m \<le> w \<longrightarrow> m = w"
    using finite_has_maximal2 [of ?V "vv_counters r"] assms(2) by auto
  let ?P = "\<lambda>i. i < length rs \<and> vv_counters (rs ! i) = m"
  obtain i where "?P i" using m(1) by (auto simp: in_set_conv_nth)
  then have least: "?P (LEAST i. ?P i)" by (rule LeastI)
  have "survives rs (LEAST i. ?P i)"
    unfolding survives_def
  proof (intro conjI allI impI)
    show "(LEAST i. ?P i) < length rs" using least by blast
  next
    fix j assume "j < length rs" "vv_counters (rs ! j) = vv_counters (rs ! (LEAST i. ?P i))"
    then show "(LEAST i. ?P i) \<le> j" using least by (intro Least_le) simp
  next
    fix j assume "j < length rs"
    then show "\<not> vv_counters (rs ! (LEAST i. ?P i)) < vv_counters (rs ! j)"
      using least m(3) by (auto simp: less_le_not_le)
  qed
  then have "rs ! (LEAST i. ?P i) \<in> set (computeFrontier rs)"
    using assms(1) by (auto simp: frontier_mem)
  moreover have "vv_counters r \<le> vv_counters (rs ! (LEAST i. ?P i))"
    using least m(2) by simp
  ultimately show ?thesis by blast
qed

lemma frontier_nonempty: "wf_versions rs \<Longrightarrow> rs \<noteq> [] \<Longrightarrow> computeFrontier rs \<noteq> []"
  using frontier_covers [of rs "hd rs"] by (cases rs) auto

lemma frontier_distinct_values:
  assumes "wf_versions rs"
  shows "distinct (map vv_counters (computeFrontier rs))"
proof -
  let ?is = "filter (survives rs) [0..<length rs]"
  have "inj_on (\<lambda>i. vv_counters (rs ! i)) (set ?is)"
    by (auto simp: inj_on_def survives_def) (metis le_antisym)
  then show ?thesis
    by (simp add: computeFrontier_survivors [OF assms] comp_def distinct_map)
qed

lemma frontier_pairwise:
  assumes "wf_versions rs" and "x \<in> set (computeFrontier rs)" and "y \<in> set (computeFrontier rs)"
    and "vv_counters x \<noteq> vv_counters y"
  shows "compareVectorClocks (vv_clock x) (vv_clock y) = CONCURRENT"
proof -
  have xy: "x \<in> set rs" "y \<in> set rs"
    using assms frontier_subset by blast+
  then have "\<not> vv_counters x < vv_counters y" "\<not> vv_counters y < vv_counters x"
    using assms frontier_undominated by blast+
  with xy assms(1,4) show ?thesis
    by (simp add: vc.cmp_CONCURRENT wf_versions_mem less_le)
qed

lemma frontier_reorder:
  assumes "wf_versions rs" and "mset rs = mset rs'"
    and same: "\<And>x y. x \<in> set rs \<Longrightarrow> y \<in> set rs \<Longrightarrow> vv_counters x = vv_counters y \<Longrightarrow> x = y"
  shows "mset (computeFrontier rs) = mset (computeFrontier rs')"
proof -
  have sets: "set rs = set rs'" using assms(2) by (rule mset_eq_setD)
  have wf': "wf_versions rs'" using assms(1) sets by (simp add: wf_versions_def)
  have mem: "x \<in> set (computeFrontier as) \<longleftrightarrow>
      x \<in> set as \<and> (\<forall>r \<in> set as. \<not> vv_counters x < vv_counters r)"
    if wf: "wf_versions as" and eq: "set as = set rs" for as x
  proof
    assume "x \<in> set (computeFrontier as)"
    then show "x \<in> set as \<and> (\<forall>r \<in> set as. \<not> vv_counters x < vv_counters r)"
      using wf frontier_subset frontier_undominated by blast
  next
    assume x: "x \<in> set as \<and> (\<forall>r \<in> set as. \<not> vv_counters x < vv_counters r)"
    then obtain v where v: "v \<in> set (computeFrontier as)" "vv_counters x \<le> vv_counters v"
      using frontier_covers [OF wf, of x] by blast
    then have "v \<in> set as" using frontier_subset wf by blast
    with x v(2) have "vv_counters x = vv_counters v" by (auto simp: less_le)
    with x \<open>v \<in> set as\<close> same eq v(1) show "x \<in> set (computeFrontier as)" by metis
  qed
  have "set (computeFrontier rs) = set (computeFrontier rs')"
    using mem [OF assms(1) refl] mem [OF wf' sets [symmetric]] sets by blast
  moreover have "distinct (computeFrontier rs)" "distinct (computeFrontier rs')"
    using frontier_distinct_values [OF assms(1)] frontier_distinct_values [OF wf']
    by (simp_all add: distinct_map)
  ultimately show ?thesis by (simp add: set_eq_iff_mset_eq_distinct)
qed

subsection \<open>The winner of a read\<close>

lemma resolveGetResult_total:
  assumes "wf_versions rs" and "rs \<noteq> []"
  shows "\<exists>r. resolveGetResult rs = Some r"
  using frontier_nonempty [OF assms] assms(2)
  by (cases "computeFrontier rs") (auto simp: resolveGetResult_def Let_def)

lemma resolveGetResult_SomeD:
  assumes "resolveGetResult rs = Some r"
  shows "resolveLWW (computeFrontier rs) = Some (winner r)
    \<and> concurrent_count r = length (computeFrontier rs)"
  using assms
  by (cases "computeFrontier rs") (auto simp: resolveGetResult_def Let_def split: if_splits)

lemma resolveGetResult_winner:
  assumes "wf_versions rs" and "resolveGetResult rs = Some r"
  shows "winner r \<in> set (computeFrontier rs)"
  using resolveGetResult_SomeD [OF assms(2)] resolveLWW_in by blast

subsection \<open>Properties\<close>

abbreviation clk :: "(node_id \<times> u64) list \<Rightarrow> millis \<Rightarrow> node_id \<Rightarrow> vector_clock" where
  "clk cs t w \<equiv> \<lparr>counters = cs, vc_last_updated = t, vc_writer_id = w\<rparr>"

abbreviation vv :: "string \<Rightarrow> vector_clock \<Rightarrow> VersionedValue" where
  "vv v c \<equiv> \<lparr>vv_value = v, vv_clock = c\<rparr>"

text \<open>
C9. The two-pass comparison with its early exits and its shared-key shortcut decides the causal order:
each of the four answers is given exactly when the counter functions (absent counters being 0) stand
in the corresponding relation of the pointwise order, whatever order the maps are iterated in.
\<close>
theorem compare_decides_causality:
  assumes "wf_clock a" and "wf_clock b"
  shows "(compareVectorClocks a b = EQUAL \<longleftrightarrow> counter_of a = counter_of b) \<and>
    (compareVectorClocks a b = DOMINATES \<longleftrightarrow> counter_of b < counter_of a) \<and>
    (compareVectorClocks a b = DOMINATED \<longleftrightarrow> counter_of a < counter_of b) \<and>
    (compareVectorClocks a b = CONCURRENT \<longleftrightarrow>
      \<not> counter_of a \<le> counter_of b \<and> \<not> counter_of b \<le> counter_of a)"
  using assms by (simp add: vc.cmp_simps)

theorem compare_decides_causality_witness:
  "wf_clock (clk [(''A'', 1)] 0 []) \<and> wf_clock (clk [(''C'', 4), (''A'', 1)] 0 []) \<and>
   counter_of (clk [(''A'', 1)] 0 []) < counter_of (clk [(''C'', 4), (''A'', 1)] 0 [])"
proof -
  have wf: "wf_clock (clk [(''A'', 1)] 0 [])" "wf_clock (clk [(''C'', 4), (''A'', 1)] 0 [])"
    by (simp_all add: wf_clock_def)
  have "compareVectorClocks (clk [(''A'', 1)] 0 []) (clk [(''C'', 4), (''A'', 1)] 0 []) = DOMINATED"
    by (simp add: compareVectorClocks_def)
  with wf compare_decides_causality [OF wf] show ?thesis by blast
qed

text \<open>
\<open>mergeClocks\<close> is the component-wise maximum: the counters of the result are the maxima, its
keys are the union of both key sets (explicit zero entries survive), the result is a well-formed map,
and neither the time stamp nor the writer is set.
\<close>
theorem mergeClocks_is_join:
  assumes "wf_clock a" and "wf_clock b"
  shows "counter_of (mergeClocks a b) = (\<lambda>n. max (counter_of a n) (counter_of b n)) \<and>
    fst ` set (counters (mergeClocks a b)) = fst ` set (counters a) \<union> fst ` set (counters b) \<and>
    wf_clock (mergeClocks a b) \<and>
    vc_last_updated (mergeClocks a b) = 0 \<and> vc_writer_id (mergeClocks a b) = []"
  using assms by (simp add: counter_mergeClocks mergeClocks_result mergeClocks_stamp)

theorem mergeClocks_is_join_witness:
  "fst ` set (counters (mergeClocks (clk [(''A'', 0)] 7 ''x'') (clk [(''B'', 4)] 9 ''y'')))
     = {''A'', ''B''}"
  using mergeClocks_is_join [of "clk [(''A'', 0)] 7 ''x''" "clk [(''B'', 4)] 9 ''y''"]
  by (simp add: wf_clock_def insert_commute)

text \<open>
The clock of a new write is a strict causal descendant of both of its sources, the client's
context and the coordinator's local copy, as long as the coordinator's own counter has not reached
the largest 64-bit value; it differs from their maximum on the coordinator's axis only, where it is
one more, and it carries the coordinator's stamp.
\<close>
theorem buildNewClock_dominates_sources:
  assumes "wf_clock_opt ctx" and "wf_clock_opt loc"
    and "base_counter ctx loc self \<noteq> - 1"
  shows "compareVectorClocks (buildNewClock ctx loc self now) (value_or_empty ctx) = DOMINATES \<and>
    compareVectorClocks (buildNewClock ctx loc self now) (value_or_empty loc) = DOMINATES \<and>
    counter_of (buildNewClock ctx loc self now) =
      (base_counter ctx loc)(self := base_counter ctx loc self + 1) \<and>
    vc_last_updated (buildNewClock ctx loc self now) = now \<and>
    vc_writer_id (buildNewClock ctx loc self now) = self"
  using assms buildNewClock_above [OF assms]
  by (simp add: vc.cmp_DOMINATES wf_intros counter_buildNewClock)

theorem buildNewClock_dominates_sources_witness:
  "compareVectorClocks
     (buildNewClock (Some (clk [(''A'', 3), (''B'', 1)] 5 ''B'')) (Some (clk [(''A'', 1)] 2 ''A'')) ''A'' 9)
     (clk [(''A'', 3), (''B'', 1)] 5 ''B'') = DOMINATES"
  using buildNewClock_dominates_sources
    [of "Some (clk [(''A'', 3), (''B'', 1)] 5 ''B'')" "Some (clk [(''A'', 1)] 2 ''A'')" "''A''" 9]
  by (simp add: wf_clock_def base_counter_def counter_of_def count_in_def)

text \<open>
At the largest counter value the 64-bit increment wraps to 0: a write built on a local copy whose
coordinator counter is \<open>2^64 - 1\<close> gets a clock that the copy it supersedes dominates.
\<close>
theorem buildNewClock_wraps:
  assumes "wf_clock loc" and "counter_of loc self = - 1"
  shows "counter_of (buildNewClock None (Some loc) self now) self = 0 \<and>
    compareVectorClocks (buildNewClock None (Some loc) self now) loc = DOMINATED"
proof -
  let ?c = "buildNewClock None (Some loc) self now"
  have zero: "max 0 v = v" for v :: u64 by (auto simp: max_def word_gt_0 not_le)
  have c: "counter_of ?c = (counter_of loc)(self := 0)"
    using assms by (simp add: counter_buildNewClock base_counter_def zero fun_eq_iff)
  have "counter_of ?c < counter_of loc"
    unfolding c less_le_not_le by (auto simp: le_fun_def assms(2) not_le word_gt_0)
  with assms(1) show ?thesis by (simp add: vc.cmp_DOMINATED wf_intros c)
qed

theorem buildNewClock_wraps_witness:
  "compareVectorClocks (buildNewClock None (Some (clk [(''A'', - 1)] 1 ''A'')) ''A'' 2)
     (clk [(''A'', - 1)] 1 ''A'') = DOMINATED"
  using buildNewClock_wraps [of "clk [(''A'', - 1)] 1 ''A''" "''A''" 2]
  by (simp add: wf_clock_def counter_of_def count_in_def)

text \<open>
C19. \<open>computeFrontier\<close> keeps exactly the maximal answers: survivors are answers, pairwise
concurrent (so no value is kept twice), undominated by any answer, and every answer lies causally at
or below some survivor.
\<close>
theorem computeFrontier_maximal:
  assumes "wf_versions rs"
  shows "set (computeFrontier rs) \<subseteq> set rs \<and>
    distinct (map vv_counters (computeFrontier rs)) \<and>
    (\<forall>x \<in> set (computeFrontier rs). \<forall>y \<in> set (computeFrontier rs). vv_counters x \<noteq> vv_counters y \<longrightarrow>
       compareVectorClocks (vv_clock x) (vv_clock y) = CONCURRENT) \<and>
    (\<forall>x \<in> set (computeFrontier rs). \<forall>r \<in> set rs.
       compareVectorClocks (vv_clock x) (vv_clock r) \<noteq> DOMINATED) \<and>
    (\<forall>r \<in> set rs. \<exists>x \<in> set (computeFrontier rs).
       compareVectorClocks (vv_clock r) (vv_clock x) \<in> {EQUAL, DOMINATED})"
proof (intro conjI ballI impI)
  show "set (computeFrontier rs) \<subseteq> set rs" by (rule frontier_subset [OF assms])
next
  show "distinct (map vv_counters (computeFrontier rs))" by (rule frontier_distinct_values [OF assms])
next
  fix x y assume "x \<in> set (computeFrontier rs)" "y \<in> set (computeFrontier rs)"
    "vv_counters x \<noteq> vv_counters y"
  then show "compareVectorClocks (vv_clock x) (vv_clock y) = CONCURRENT"
    by (rule frontier_pairwise [OF assms])
next
  fix x r assume x: "x \<in> set (computeFrontier rs)" and r: "r \<in> set rs"
  with assms have "wf_clock (vv_clock x)" "wf_clock (vv_clock r)"
    using frontier_subset wf_versions_mem by blast+
  with frontier_undominated [OF assms x r]
  show "compareVectorClocks (vv_clock x) (vv_clock r) \<noteq> DOMINATED"
    by (simp add: vc.cmp_DOMINATED)
next
  fix r assume r: "r \<in> set rs"
  then obtain x where x: "x \<in> set (computeFrontier rs)" "vv_counters r \<le> vv_counters x"
    using frontier_covers [OF assms] by blast
  moreover have "wf_clock (vv_clock x)" "wf_clock (vv_clock r)"
    using x(1) r assms frontier_subset wf_versions_mem by blast+
  ultimately show "\<exists>x \<in> set (computeFrontier rs).
      compareVectorClocks (vv_clock r) (vv_clock x) \<in> {EQUAL, DOMINATED}"
    by (intro bexI [of _ x]) (auto simp: vc.cmp_simps le_less)
qed

theorem computeFrontier_maximal_witness:
  "set (computeFrontier [vv ''old'' (clk [(''A'', 1)] 1 ''A''), vv ''x'' (clk [(''A'', 2)] 2 ''A''),
      vv ''y'' (clk [(''B'', 1)] 3 ''B'')])
     \<subseteq> {vv ''old'' (clk [(''A'', 1)] 1 ''A''), vv ''x'' (clk [(''A'', 2)] 2 ''A''),
        vv ''y'' (clk [(''B'', 1)] 3 ''B'')}"
  using computeFrontier_maximal [of "[vv ''old'' (clk [(''A'', 1)] 1 ''A''),
      vv ''x'' (clk [(''A'', 2)] 2 ''A''), vv ''y'' (clk [(''B'', 1)] 3 ''B'')]"]
  by (simp add: wf_versions_def wf_clock_def)

text \<open>
A non-empty set of answers always resolves (no assertion fails, the frontier is never empty).
The winner is one of the answers, no answer is causally newer, it wins the time stamp/writer
tie-break against every other survivor, and \<open>concurrent_count\<close> exceeds 1 exactly when two
answers that nothing dominates differ.
\<close>
theorem resolveGetResult_correct:
  assumes "wf_versions rs" and "rs \<noteq> []"
  shows "\<exists>r. resolveGetResult rs = Some r \<and> winner r \<in> set rs \<and>
    (\<forall>v \<in> set rs. compareVectorClocks (vv_clock (winner r)) (vv_clock v) \<noteq> DOMINATED) \<and>
    (\<forall>v \<in> set (computeFrontier rs). clock_stamp v \<le> clock_stamp (winner r)) \<and>
    (concurrent_count r > 1 \<longleftrightarrow> (\<exists>x \<in> set (computeFrontier rs). \<exists>y \<in> set (computeFrontier rs).
       compareVectorClocks (vv_clock x) (vv_clock y) = CONCURRENT))"
proof -
  let ?F = "computeFrontier rs"
  obtain r where r: "resolveGetResult rs = Some r"
    using resolveGetResult_total [OF assms] by blast
  then have w: "winner r \<in> set ?F" by (rule resolveGetResult_winner [OF assms(1)])
  have wf: "v \<in> set rs \<Longrightarrow> wf_clock (vv_clock v)" for v
    using assms(1) by (rule wf_versions_mem)
  have sub: "v \<in> set ?F \<Longrightarrow> v \<in> set rs" for v using frontier_subset [OF assms(1)] by blast
  have "\<forall>v \<in> set rs. compareVectorClocks (vv_clock (winner r)) (vv_clock v) \<noteq> DOMINATED"
    using frontier_undominated [OF assms(1) w] w by (simp add: vc.cmp_DOMINATED wf sub)
  moreover have "\<forall>v \<in> set ?F. clock_stamp v \<le> clock_stamp (winner r)"
    using resolveGetResult_SomeD [OF r] resolveLWW_greatest by blast
  moreover have "length ?F > 1 \<longleftrightarrow> (\<exists>x \<in> set ?F. \<exists>y \<in> set ?F.
      compareVectorClocks (vv_clock x) (vv_clock y) = CONCURRENT)"
  proof
    assume "length ?F > 1"
    then obtain x y zs where F: "?F = x # y # zs" by (cases ?F; cases "tl ?F") auto
    then have "vv_counters x \<noteq> vv_counters y"
      using frontier_distinct_values [OF assms(1)] by simp
    then have "compareVectorClocks (vv_clock x) (vv_clock y) = CONCURRENT"
      using frontier_pairwise [OF assms(1), of x y] F by simp
    with F show "\<exists>x \<in> set ?F. \<exists>y \<in> set ?F.
        compareVectorClocks (vv_clock x) (vv_clock y) = CONCURRENT" by auto
  next
    assume "\<exists>x \<in> set ?F. \<exists>y \<in> set ?F. compareVectorClocks (vv_clock x) (vv_clock y) = CONCURRENT"
    then obtain x y where xy: "x \<in> set ?F" "y \<in> set ?F"
      "compareVectorClocks (vv_clock x) (vv_clock y) = CONCURRENT" by blast
    then have "x \<noteq> y" using vc.cmp_refl [of "vv_clock x"] wf sub by fastforce
    with xy show "length ?F > 1" by (cases ?F; cases "tl ?F") auto
  qed
  ultimately show ?thesis
    using r w sub resolveGetResult_SomeD [OF r] by auto
qed

theorem resolveGetResult_correct_witness:
  "\<exists>r. resolveGetResult [vv ''x'' (clk [(''X'', 1)] 100 ''X''), vv ''y'' (clk [(''Y'', 1)] 200 ''Y'')]
     = Some r \<and> winner r = vv ''y'' (clk [(''Y'', 1)] 200 ''Y'') \<and> concurrent_count r = 2 \<and>
     winner r \<in> {vv ''x'' (clk [(''X'', 1)] 100 ''X''), vv ''y'' (clk [(''Y'', 1)] 200 ''Y'')}"
proof -
  let ?rs = "[vv ''x'' (clk [(''X'', 1)] 100 ''X''), vv ''y'' (clk [(''Y'', 1)] 200 ''Y'')]"
  have "wf_versions ?rs" by (simp add: wf_versions_def wf_clock_def)
  then obtain r where "resolveGetResult ?rs = Some r" "winner r \<in> set ?rs"
    using resolveGetResult_correct [of ?rs] by blast
  then show ?thesis
    by (auto simp: resolveGetResult_def computeFrontier_def compareVectorClocks_def)
qed

text \<open>
The answer of a read does not depend on the order in which replicas reply: if answers with the
same counters are the same version and the time stamp/writer stamps of the surviving versions are
pairwise different, every reordering of the answers resolves to the same winner and count.
\<close>
theorem resolveGetResult_order_independent:
  assumes "wf_versions rs" and "mset rs = mset rs'"
    and "\<forall>x \<in> set rs. \<forall>y \<in> set rs. vv_counters x = vv_counters y \<longrightarrow> x = y"
    and "inj_on clock_stamp (set (computeFrontier rs))"
  shows "resolveGetResult rs = resolveGetResult rs'"
proof -
  have F: "mset (computeFrontier rs) = mset (computeFrontier rs')"
    using assms(1,2) by (rule frontier_reorder) (use assms(3) in blast)
  have len: "length (computeFrontier rs) = length (computeFrontier rs')"
    using F by (rule mset_eq_length)
  have R: "resolveLWW (computeFrontier rs) = resolveLWW (computeFrontier rs')"
    using F assms(4) by (rule resolveLWW_reorder)
  have form: "resolveGetResult vs = (if vs = [] then None else
      map_option (\<lambda>w. \<lparr>winner = w, concurrent_count = length (computeFrontier vs)\<rparr>)
        (resolveLWW (computeFrontier vs)))" for vs
    by (cases "computeFrontier vs") (auto simp: resolveGetResult_def Let_def)
  have "rs = [] \<longleftrightarrow> rs' = []" using assms(2) by auto
  then show ?thesis by (simp add: form R len)
qed

theorem resolveGetResult_order_independent_witness:
  "resolveGetResult [vv ''x'' (clk [(''X'', 1)] 5 ''X''), vv ''y'' (clk [(''Y'', 1)] 5 ''Y'')] =
   resolveGetResult [vv ''y'' (clk [(''Y'', 1)] 5 ''Y''), vv ''x'' (clk [(''X'', 1)] 5 ''X'')]"
proof (rule resolveGetResult_order_independent)
  let ?rs = "[vv ''x'' (clk [(''X'', 1)] 5 ''X''), vv ''y'' (clk [(''Y'', 1)] 5 ''Y'')]"
  show "wf_versions ?rs" by (simp add: wf_versions_def wf_clock_def)
  have "counter_of (clk [(''X'', 1)] 5 ''X'') ''X'' \<noteq> counter_of (clk [(''Y'', 1)] 5 ''Y'') ''X''"
    by (simp add: counter_of_def count_in_def)
  then show "\<forall>x \<in> set ?rs. \<forall>y \<in> set ?rs. vv_counters x = vv_counters y \<longrightarrow> x = y"
    by auto
  show "inj_on clock_stamp (set (computeFrontier ?rs))"
    by (simp add: computeFrontier_def compareVectorClocks_def clock_stamp_def)
qed simp

end
