(* ===== verification/Ordered_Map.thy ===== *)
theory Ordered_Map
  imports Drift_Prelude
begin

text \<open>
  \<open>std::map\<close> as a list of key/value pairs with strictly ascending keys, the order in which the code
  iterates.  \<open>map_put\<close> is \<open>m[k] = v\<close>, \<open>map_erase\<close> is \<open>m.erase(k)\<close> and
  \<open>upper_bound\<close> is the position of the first key greater than the argument (the length stands for
  \<open>end()\<close>).  The locale \<open>ordered_map\<close> states what the clients of the ring rely on.
\<close>

fun map_put :: "'k::linorder \<Rightarrow> 'v \<Rightarrow> ('k \<times> 'v) list \<Rightarrow> ('k \<times> 'v) list" where
  "map_put k v [] = [(k, v)]"
| "map_put k v ((l, w) # m) =
     (if k < l then (k, v) # (l, w) # m else if k = l then (k, v) # m
      else (l, w) # map_put k v m)"

definition map_erase :: "'k \<Rightarrow> ('k \<times> 'v) list \<Rightarrow> ('k \<times> 'v) list" where
  "map_erase k m = filter (\<lambda>(l, w). l \<noteq> k) m"

definition upper_bound :: "('k::linorder \<times> 'v) list \<Rightarrow> 'k \<Rightarrow> nat" where
  "upper_bound m k = length (takeWhile (\<lambda>(l, w). l \<le> k) m)"

definition ascending :: "('k::linorder \<times> 'v) list \<Rightarrow> bool" where
  "ascending m \<longleftrightarrow> sorted_wrt (<) (map fst m)"

locale ordered_map =
  fixes put :: "'k \<Rightarrow> 'v \<Rightarrow> 'm \<Rightarrow> 'm"
    and erase :: "'k \<Rightarrow> 'm \<Rightarrow> 'm"
    and lookup :: "'m \<Rightarrow> 'k \<Rightarrow> 'v option"
    and inv :: "'m \<Rightarrow> bool"
  assumes inv_put: "inv m \<Longrightarrow> inv (put k v m)"
    and inv_erase: "inv m \<Longrightarrow> inv (erase k m)"
    and lookup_put: "inv m \<Longrightarrow> lookup (put k v m) = (lookup m)(k \<mapsto> v)"
    and lookup_erase: "inv m \<Longrightarrow> lookup (erase k m) = (lookup m)(k := None)"
begin

lemma inv_put_all: "inv m \<Longrightarrow> inv (fold (\<lambda>k. put k v) ks m)"
  by (induction ks arbitrary: m) (auto simp: inv_put)

lemma inv_erase_all: "inv m \<Longrightarrow> inv (fold erase ks m)"
  by (induction ks arbitrary: m) (auto simp: inv_erase)

lemma lookup_put_all:
  "inv m \<Longrightarrow> lookup (fold (\<lambda>k. put k v) ks m) k = (if k \<in> set ks then Some v else lookup m k)"
  by (induction ks arbitrary: m) (auto simp: inv_put lookup_put)

lemma lookup_erase_all:
  "inv m \<Longrightarrow> lookup (fold erase ks m) k = (if k \<in> set ks then None else lookup m k)"
  by (induction ks arbitrary: m) (auto simp: inv_erase lookup_erase)

end

lemma set_map_put: "fst ` set (map_put k v m) = insert k (fst ` set m)"
  by (induction k v m rule: map_put.induct) auto

lemma ascending_Cons: "ascending ((k, v) # m) \<longleftrightarrow> (\<forall>l \<in> fst ` set m. k < l) \<and> ascending m"
  by (simp add: ascending_def)

lemma ascending_Nil [simp]: "ascending []"
  by (simp add: ascending_def)

lemma ascending_map_put: "ascending m \<Longrightarrow> ascending (map_put k v m)"
proof (induction k v m rule: map_put.induct)
  case (2 k v l w m)
  then show ?case
    by (auto simp: ascending_Cons set_map_put)
qed (simp add: ascending_def)

lemma ascending_map_erase: "ascending m \<Longrightarrow> ascending (map_erase k m)"
  by (induction m) (auto simp: ascending_Cons map_erase_def)

lemma map_of_map_put: "ascending m \<Longrightarrow> map_of (map_put k v m) = (map_of m)(k \<mapsto> v)"
proof (induction k v m rule: map_put.induct)
  case (2 k v l w m)
  then show ?case by (auto simp: ascending_Cons fun_eq_iff)
qed auto

lemma map_of_map_erase: "map_of (map_erase k m) = (map_of m)(k := None)"
  by (induction m) (auto simp: map_erase_def fun_eq_iff)

interpretation om: ordered_map map_put map_erase map_of ascending
  by unfold_locales
    (simp_all add: ascending_map_put ascending_map_erase map_of_map_put map_of_map_erase)

lemma ascending_distinct_keys: "ascending m \<Longrightarrow> distinct_keys m"
  by (simp add: ascending_def strict_sorted_iff)

text \<open>An ordered map is determined by its lookups.\<close>

lemma ascending_eqI:
  assumes "ascending m" and "ascending m'" and "map_of m = map_of m'"
  shows "m = m'"
proof (rule map_sorted_distinct_set_unique [where f = fst])
  note d = assms(1,2) [THEN ascending_distinct_keys]
  from d assms(3) show "set m = set m'" by (simp add: map_of_inject_set)
  from d show "inj_on fst (set m \<union> set m')"
    by (simp add: \<open>set m = set m'\<close> distinct_map)
qed (use assms in \<open>auto simp: ascending_def strict_sorted_iff distinct_map\<close>)

lemma upper_bound_le: "upper_bound m k \<le> length m"
  by (simp add: upper_bound_def length_takeWhile_le)

lemma upper_bound_split:
  assumes "ascending m"
  shows "(\<forall>p \<in> set (take (upper_bound m k) m). fst p \<le> k) \<and>
         (\<forall>p \<in> set (drop (upper_bound m k) m). k < fst p)"
  using assms
proof (induction m)
  case (Cons p m)
  obtain l w where p: "p = (l, w)" by (cases p)
  with Cons show ?case
    by (auto simp: upper_bound_def ascending_Cons)
qed (simp add: upper_bound_def)

lemma ascending_filter: "ascending m \<Longrightarrow> ascending (filter P m)"
  by (induction m) (auto simp: ascending_Cons)

lemma upper_bound_filter:
  assumes "ascending m"
  shows "take (upper_bound m k) m = filter (\<lambda>p. fst p \<le> k) m"
    and "drop (upper_bound m k) m = filter (\<lambda>p. \<not> fst p \<le> k) m"
proof -
  let ?a = "take (upper_bound m k) m" and ?b = "drop (upper_bound m k) m"
  note s = upper_bound_split [OF assms, of k]
  have "filter (\<lambda>p. fst p \<le> k) (?a @ ?b) = ?a" and "filter (\<lambda>p. \<not> fst p \<le> k) (?a @ ?b) = ?b"
    unfolding filter_append using s by (auto simp: filter_id_conv filter_empty_conv not_le)
  then show "?a = filter (\<lambda>p. fst p \<le> k) m" and "?b = filter (\<lambda>p. \<not> fst p \<le> k) m"
    by simp_all
qed

end
