(* ===== verification/Hashing.thy ===== *)
theory Hashing
  imports Drift_Prelude
begin

unbundle bit_operations_syntax

text \<open>
  The placement hashes of \<^verbatim>\<open>src/src/ring.hpp\<close> (\<open>fnv1a64\<close>, \<open>mix64\<close>) and the
  virtual-node tokens of \<^verbatim>\<open>src/src/node_membership.cpp\<close> (\<open>computeTokens\<close>), on 64-bit
  words.  \<open>to_string\<close> is \<open>std::to_string\<close> on non-negative numbers.
\<close>

definition mix64 :: "u64 \<Rightarrow> u64" where
  "mix64 x0 =
     (let x1 = x0 XOR drop_bit 30 x0;
          x2 = x1 * 0xbf58476d1ce4e5b9;
          x3 = x2 XOR drop_bit 27 x2;
          x4 = x3 * 0x94d049bb133111eb
      in x4 XOR drop_bit 31 x4)"

fun fnv_loop :: "u64 \<Rightarrow> string \<Rightarrow> u64" where
  "fnv_loop h [] = h"
| "fnv_loop h (c # cs) = fnv_loop ((h XOR of_char c) * 0x100000001b3) cs"

definition fnv1a64 :: "string \<Rightarrow> u64" where
  "fnv1a64 data = fnv_loop 0xcbf29ce484222325 data"

fun to_string :: "nat \<Rightarrow> string" where
  "to_string n = (if n < 10 then [char_of (48 + n)] else to_string (n div 10) @ [char_of (48 + n mod 10)])"

declare to_string.simps [simp del]

definition vnode_name :: "node_id \<Rightarrow> nat \<Rightarrow> string" where
  "vnode_name n i = n @ '':'' @ to_string i"

definition key_hash :: "key \<Rightarrow> u64" where
  "key_hash k = mix64 (fnv1a64 k)"

text \<open>A non-positive \<open>V\<close> leaves the loop at once.\<close>

definition computeTokens :: "node_id \<Rightarrow> int \<Rightarrow> u64 list" where
  "computeTokens n V = map (\<lambda>i. mix64 (fnv1a64 (vnode_name n i))) [0..<nat V]"

subsection \<open>The finalizer is a bijection\<close>

text \<open>Each step of \<open>mix64\<close> can be undone: the shifts by repeating them, the odd factors by their
  inverses modulo \<open>2^64\<close>.\<close>

definition unmix64 :: "u64 \<Rightarrow> u64" where
  "unmix64 y0 =
     (let y1 = y0 XOR drop_bit 31 y0 XOR drop_bit 62 y0;
          y2 = y1 * 0x319642b2d24d8ec3;
          y3 = y2 XOR drop_bit 27 y2 XOR drop_bit 54 y2;
          y4 = y3 * 0x96de1b173f119089
      in y4 XOR drop_bit 30 y4 XOR drop_bit 60 y4)"

lemma xorshift_undo:
  assumes "64 \<le> 3 * s"
  shows "(x XOR drop_bit s x) XOR drop_bit s (x XOR drop_bit s x)
           XOR drop_bit (2 * s) (x XOR drop_bit s x) = (x :: u64)"
proof (rule bit_word_eqI)
  fix n assume "n < LENGTH(64)"
  have "\<not> bit x (s + (2 * s + n))" "\<not> bit x (2 * s + (s + n))"
    using assms by (auto dest: bit_imp_le_length)
  then show "bit ((x XOR drop_bit s x) XOR drop_bit s (x XOR drop_bit s x)
           XOR drop_bit (2 * s) (x XOR drop_bit s x)) n = bit x n"
    by (auto simp: bit_xor_iff bit_drop_bit_eq add.assoc add.left_commute mult_2)
qed

lemma odd_factors_undo:
  "(x :: u64) * 0xbf58476d1ce4e5b9 * 0x96de1b173f119089 = x"
  "(x :: u64) * 0x94d049bb133111eb * 0x319642b2d24d8ec3 = x"
proof -
  have "(0xbf58476d1ce4e5b9 :: u64) * 0x96de1b173f119089 = 1"
    "(0x94d049bb133111eb :: u64) * 0x319642b2d24d8ec3 = 1"
    by simp_all
  then show "x * 0xbf58476d1ce4e5b9 * 0x96de1b173f119089 = x"
    "x * 0x94d049bb133111eb * 0x319642b2d24d8ec3 = x"
    by (simp_all only: mult.assoc mult_1_right)
qed

lemma unmix64_mix64: "unmix64 (mix64 x) = x"
proof -
  let ?x1 = "x XOR drop_bit 30 x"
  let ?x2 = "?x1 * 0xbf58476d1ce4e5b9"
  let ?x3 = "?x2 XOR drop_bit 27 ?x2"
  let ?x4 = "?x3 * 0x94d049bb133111eb"
  have "unmix64 (?x4 XOR drop_bit 31 ?x4) = x"
    using xorshift_undo [of 31 ?x4] xorshift_undo [of 27 ?x2] xorshift_undo [of 30 x]
    by (simp add: unmix64_def odd_factors_undo)
  then show ?thesis by (simp only: mix64_def Let_def)
qed

lemma inj_mix64: "inj mix64"
  by (rule inj_on_inverseI [of _ unmix64]) (rule unmix64_mix64)

subsection \<open>Properties\<close>

text \<open>
\<open>mix64\<close> loses nothing: undoing its five steps recovers the argument, so two keys or virtual
nodes share a ring position only if their FNV hashes already collide.
\<close>
theorem mix64_bijective: "unmix64 (mix64 x) = x \<and> (mix64 x = mix64 y \<longleftrightarrow> x = y)"
  using unmix64_mix64 [of x] inj_mix64 by (auto dest: injD)

end
