(* ===== verification/Ring.thy ===== *)
theory Ring
  imports LWW Ordered_Map Hashing
begin

text \<open>
  The consistent-hashing ring of \<^verbatim>\<open>src/src/ring.hpp\<close>: the membership table and its
  gossip merge, and the clockwise walk that builds a key's preference list.

  The ring maps tokens to the nodes that own them (an ordered map); the table is the protobuf map of
  membership entries.  The walk is the code's loop over an iterator (a position in the ring), a visit
  counter, the nodes seen, the FIFO of skipped natural owners and the list built so far.
\<close>

datatype NodeStatus = UP | REMOVED

record MembershipEntry =
  me_writer_id :: node_id
  address :: string
  status :: NodeStatus
  tokens :: "u64 list"
  me_last_updated :: millis

type_synonym MembershipTable = "(node_id \<times> MembershipEntry) list"
type_synonym ring = "(u64 \<times> node_id) list"

record PreferenceListEntry =
  ple_node_id :: node_id
  hint_for_node_id :: "node_id option"

subsection \<open>Merging a gossiped table\<close>

definition put_tokens :: "u64 list \<Rightarrow> node_id \<Rightarrow> ring \<Rightarrow> ring" where
  "put_tokens ts n r = fold (\<lambda>t. map_put t n) ts r"

definition erase_tokens :: "u64 list \<Rightarrow> ring \<Rightarrow> ring" where
  "erase_tokens ts r = fold map_erase ts r"

definition incoming_wins :: "MembershipEntry \<Rightarrow> MembershipEntry \<Rightarrow> bool" where
  "incoming_wins incoming l \<longleftrightarrow> me_last_updated incoming > me_last_updated l
     \<or> (me_last_updated incoming = me_last_updated l \<and> me_writer_id incoming > me_writer_id l)"

fun mergeInto :: "MembershipTable \<Rightarrow> MembershipTable \<Rightarrow> ring \<Rightarrow> MembershipTable \<times> ring" where
  "mergeInto local [] ring = (local, ring)"
| "mergeInto local ((n, incoming) # rest) ring =
     (case map_of local n of
        None \<Rightarrow> mergeInto (AList.update n incoming local) rest (put_tokens (tokens incoming) n ring)
      | Some local_entry \<Rightarrow>
          if incoming_wins incoming local_entry then
            mergeInto (AList.update n incoming local) rest
              (if status local_entry = REMOVED \<and> status incoming = UP
               then put_tokens (tokens incoming) n ring
               else if status local_entry = UP \<and> status incoming = REMOVED
               then erase_tokens (tokens local_entry) ring
               else ring)
          else mergeInto local rest ring)"

subsection \<open>The preference list\<close>

text \<open>
  One turn of the loop on a candidate: the nodes seen, the queue of skipped natural owners, the count
  of natural owners and the list so far.
\<close>

record walk =
  seen :: "node_id list"
  pending_hints :: "node_id list"
  natural_count :: int
  preference_list :: "PreferenceListEntry list"

definition empty_walk :: walk where
  "empty_walk = \<lparr>seen = [], pending_hints = [], natural_count = 0, preference_list = []\<rparr>"

definition visit :: "int \<Rightarrow> (node_id \<Rightarrow> bool) \<Rightarrow> node_id \<Rightarrow> walk \<Rightarrow> walk" where
  "visit N is_reachable c w =
     (if c \<in> set (seen w) then w
      else let w = w\<lparr>seen := c # seen w\<rparr> in
        if natural_count w < N then
          (let w = w\<lparr>natural_count := natural_count w + 1\<rparr> in
           if is_reachable c
           then w\<lparr>preference_list := preference_list w @ [\<lparr>ple_node_id = c, hint_for_node_id = None\<rparr>]\<rparr>
           else w\<lparr>pending_hints := pending_hints w @ [c]\<rparr>)
        else if is_reachable c \<and> pending_hints w \<noteq> [] then
          w\<lparr>preference_list := preference_list w
               @ [\<lparr>ple_node_id = c, hint_for_node_id = Some (hd (pending_hints w))\<rparr>],
            pending_hints := tl (pending_hints w)\<rparr>
        else w)"

function walk_ring :: "ring \<Rightarrow> int \<Rightarrow> (node_id \<Rightarrow> bool) \<Rightarrow> nat \<Rightarrow> nat \<Rightarrow> walk
    \<Rightarrow> PreferenceListEntry list" where
  "walk_ring ring N is_reachable it visited w =
     (let w' = visit N is_reachable (snd (ring ! it)) w;
          visited' = visited + 1
      in if int (length (preference_list w')) = N \<or> visited' \<ge> length ring
         then preference_list w'
         else walk_ring ring N is_reachable (if it + 1 = length ring then 0 else it + 1) visited' w')"
  by pat_completeness auto
termination
  by (relation "measure (\<lambda>(ring, N, p, it, visited, w). length ring - visited)") auto

declare walk_ring.simps [simp del]

definition preferenceList :: "ring \<Rightarrow> u64 \<Rightarrow> int \<Rightarrow> (node_id \<Rightarrow> bool) \<Rightarrow> PreferenceListEntry list" where
  "preferenceList ring h N is_reachable =
     (if ring = [] then []
      else (let it = upper_bound ring h
            in walk_ring ring N is_reachable (if it = length ring then 0 else it) 0 empty_walk))"

subsection \<open>What the walk computes\<close>

text \<open>
  The reference: the distinct nodes in clockwise order from the key, the first \<open>N\<close> of which are
  its natural owners.  The reachable natural owners come first; the reachable nodes after them stand
  in for the unreachable natural owners, first come first served.
\<close>

definition clockwise :: "ring \<Rightarrow> u64 \<Rightarrow> node_id list" where
  "clockwise ring h =
     nub (map snd (drop (upper_bound ring h) ring @ take (upper_bound ring h) ring))"

definition natural_owners :: "ring \<Rightarrow> u64 \<Rightarrow> int \<Rightarrow> node_id list" where
  "natural_owners ring h N = take (nat N) (clockwise ring h)"

abbreviation natural_entry :: "node_id \<Rightarrow> PreferenceListEntry" where
  "natural_entry c \<equiv> \<lparr>ple_node_id = c, hint_for_node_id = None\<rparr>"

abbreviation hint_entry :: "node_id \<times> node_id \<Rightarrow> PreferenceListEntry" where
  "hint_entry p \<equiv> \<lparr>ple_node_id = fst p, hint_for_node_id = Some (snd p)\<rparr>"

definition preference_spec :: "ring \<Rightarrow> u64 \<Rightarrow> int \<Rightarrow> (node_id \<Rightarrow> bool) \<Rightarrow> PreferenceListEntry list" where
  "preference_spec ring h N is_reachable =
     map natural_entry (filter is_reachable (natural_owners ring h N)) @
     map hint_entry (zip (filter is_reachable (drop (nat N) (clockwise ring h)))
                         (filter (\<lambda>c. \<not> is_reachable c) (natural_owners ring h N)))"

fun walk_list :: "int \<Rightarrow> (node_id \<Rightarrow> bool) \<Rightarrow> walk \<Rightarrow> node_id list \<Rightarrow> PreferenceListEntry list" where
  "walk_list N r w [] = preference_list w"
| "walk_list N r w (c # cs) =
     (let w' = visit N r c w
      in if int (length (preference_list w')) = N \<or> cs = [] then preference_list w'
         else walk_list N r w' cs)"

lemma walk_ring_list:
  assumes "visited < length ring" and "start < length ring"
    and "it = (start + visited) mod length ring"
  shows "walk_ring ring N r it visited w =
         walk_list N r w (drop visited (rotate start (map snd ring)))"
  using assms
proof (induction ring N r it visited w rule: walk_ring.induct)
  case (1 ring N r it visited w)
  let ?c = "rotate start (map snd ring)" and ?w = "visit N r (snd (ring ! it)) w"
  have "0 < length ring" using 1(2) by linarith
  then have "it < length ring" by (simp add: 1(4))
  then have c: "drop visited ?c = snd (ring ! it) # drop (visited + 1) ?c"
    using 1(2-4) by (subst Cons_nth_drop_Suc [symmetric])
      (simp_all add: nth_rotate add.commute)
  have wrap: "(if it + 1 = length ring then 0 else it + 1) = (start + (visited + 1)) mod length ring"
    using 1(2-4) by (auto simp: mod_Suc)
  show ?case
  proof (cases "int (length (preference_list ?w)) = N \<or> visited + 1 \<ge> length ring")
    case True
    then show ?thesis
      by (subst walk_ring.simps) (auto simp: c Let_def)
  next
    case False
    then have "walk_ring ring N r it visited w =
        walk_ring ring N r (if it + 1 = length ring then 0 else it + 1) (visited + 1) ?w"
      by (subst walk_ring.simps) (simp add: Let_def)
    also have "\<dots> = walk_list N r ?w (drop (visited + 1) ?c)"
      using False 1(2-4) wrap by (intro 1(1) [OF refl refl]) auto
    also have "\<dots> = walk_list N r w (drop visited ?c)"
      using False by (simp add: c Let_def)
    finally show ?thesis .
  qed
qed

definition walk_rest :: "int \<Rightarrow> (node_id \<Rightarrow> bool) \<Rightarrow> walk \<Rightarrow> node_id list \<Rightarrow> PreferenceListEntry list" where
  "walk_rest N r w cs =
     (let ds = nub_from (seen w) cs; k = nat (N - natural_count w); ns = take k ds
      in map natural_entry (filter r ns) @
         map hint_entry (zip (filter r (drop k ds)) (pending_hints w @ filter (\<lambda>c. \<not> r c) ns)))"

definition walk_inv :: "int \<Rightarrow> walk \<Rightarrow> bool" where
  "walk_inv N w \<longleftrightarrow> 0 \<le> natural_count w \<and> natural_count w \<le> max N 0 \<and>
     int (length (preference_list w) + length (pending_hints w)) = natural_count w"

lemma walk_inv_visit: "walk_inv N w \<Longrightarrow> walk_inv N (visit N r c w)"
  by (cases "pending_hints w") (auto simp: walk_inv_def visit_def Let_def)

lemma walk_rest_visit:
  "preference_list w @ walk_rest N r w (c # cs) =
   preference_list (visit N r c w) @ walk_rest N r (visit N r c w) cs"
proof -
  consider (seen) "c \<in> set (seen w)"
    | (natural) "c \<notin> set (seen w)" "natural_count w < N"
    | (later) "c \<notin> set (seen w)" "\<not> natural_count w < N" by blast
  then show ?thesis
  proof cases
    case seen
    then show ?thesis by (simp add: visit_def walk_rest_def)
  next
    case natural
    define k where "k = nat (N - (natural_count w + 1))"
    have "nat (N - natural_count w) = Suc k" using natural by (simp add: k_def)
    with natural show ?thesis
      by (cases "r c") (simp_all add: visit_def walk_rest_def Let_def k_def [symmetric])
  next
    case later
    then have "nat (N - natural_count w) = 0" by simp
    with later show ?thesis
      by (cases "pending_hints w"; cases "r c") (simp_all add: visit_def walk_rest_def Let_def)
  qed
qed

lemma walk_rest_full:
  assumes "walk_inv N w" and "int (length (preference_list w)) = N"
  shows "walk_rest N r w cs = []"
proof -
  have "natural_count w = N" "length (pending_hints w) = 0"
    using assms unfolding walk_inv_def by linarith+
  then show ?thesis by (simp add: walk_rest_def)
qed

lemma walk_list_rest:
  "walk_inv N w \<Longrightarrow> walk_list N r w cs = preference_list w @ walk_rest N r w cs"
proof (induction cs arbitrary: w)
  case Nil
  then show ?case by (simp add: walk_rest_def)
next
  case (Cons c cs)
  have inv: "walk_inv N (visit N r c w)" by (rule walk_inv_visit [OF Cons.prems])
  have nil: "walk_rest N r v [] = []" for v by (simp add: walk_rest_def)
  show ?case
    unfolding walk_rest_visit [of w]
    using Cons.IH [OF inv] walk_rest_full [OF inv] nil by (auto simp: Let_def)
qed

lemma clockwise_rotate:
  fixes h :: u64
  assumes "ring \<noteq> []"
  defines "start \<equiv> if upper_bound ring h = length ring then 0 else upper_bound ring h"
  shows "clockwise ring h = nub (rotate start (map snd ring))" and "start < length ring"
proof -
  have start: "start < length ring"
    using assms upper_bound_le [of ring h] by (auto simp: start_def)
  then show "start < length ring" .
  have "rotate start (map snd ring) = map snd (drop start ring @ take start ring)"
    using start by (simp add: rotate_drop_take drop_map take_map)
  also have "drop start ring @ take start ring =
      drop (upper_bound ring h) ring @ take (upper_bound ring h) ring"
    by (simp add: start_def)
  finally show "clockwise ring h = nub (rotate start (map snd ring))"
    by (simp add: clockwise_def)
qed

lemma preferenceList_eq_spec: "preferenceList ring h N r = preference_spec ring h N r"
proof (cases "ring = []")
  case True
  then show ?thesis
    by (simp add: preferenceList_def preference_spec_def natural_owners_def clockwise_def nub_def)
next
  case False
  let ?start = "if upper_bound ring h = length ring then 0 else upper_bound ring h"
  note c = clockwise_rotate [OF False, of h]
  have "preferenceList ring h N r = walk_ring ring N r ?start 0 empty_walk"
    using False by (simp add: preferenceList_def Let_def)
  also have "\<dots> = walk_list N r empty_walk (rotate ?start (map snd ring))"
    using walk_ring_list [of 0 ring ?start ?start N r empty_walk] False c(2) by simp
  also have "\<dots> = walk_rest N r empty_walk (rotate ?start (map snd ring))"
    using walk_list_rest [of N empty_walk] by (simp add: walk_inv_def empty_walk_def)
  also have "\<dots> = preference_spec ring h N r"
    unfolding preference_spec_def natural_owners_def c(1)
    by (simp add: walk_rest_def empty_walk_def nub_def Let_def)
  finally show ?thesis .
qed

subsection \<open>The merge, entry by entry\<close>

definition entry_stamp :: "MembershipEntry \<Rightarrow> millis \<times> node_id" where
  "entry_stamp e = (me_last_updated e, me_writer_id e)"

interpretation mlww: lww incoming_wins entry_stamp
  by unfold_locales (auto simp: incoming_wins_def entry_stamp_def less_prod_def)

lemma mergeInto_slot:
  "distinct_keys incoming \<Longrightarrow>
   map_of (fst (mergeInto tbl incoming r)) n = lww_join incoming_wins (map_of tbl n) (map_of incoming n)"
proof (induction tbl incoming r rule: mergeInto.induct)
  case (2 tbl m e rest r)
  then have m: "map_of rest m = None" and d: "distinct_keys rest"
    by (auto simp: map_of_eq_None_iff)
  show ?case
  proof (cases "map_of tbl m")
    case None
    with 2 d m show ?thesis by (auto simp: alist_simps)
  next
    case (Some l)
    with 2 d m show ?thesis by (auto simp: alist_simps)
  qed
qed simp

lemma mergeInto_keys:
  "fst ` set (fst (mergeInto tbl incoming r)) = fst ` set tbl \<union> fst ` set incoming"
proof (induction tbl incoming r rule: mergeInto.induct)
  case (2 tbl m e rest r)
  show ?case
  proof (cases "map_of tbl m")
    case None
    with 2 show ?thesis by (simp add: alist_simps)
  next
    case (Some l)
    then have "m \<in> fst ` set tbl" by (force dest: map_of_SomeD)
    with Some 2 show ?thesis by (auto simp: alist_simps)
  qed
qed simp

lemma mergeInto_distinct [wf_intros]:
  "distinct_keys tbl \<Longrightarrow> distinct_keys (fst (mergeInto tbl incoming r))"
proof (induction tbl incoming r rule: mergeInto.induct)
  case (2 tbl m e rest r)
  then show ?case by (auto simp: wf_intros split: option.splits)
qed simp

subsection \<open>Ring and table agree\<close>

text \<open>
  \<open>T n\<close> is the token set of node \<open>n\<close>, the same in every table because it is computed from the
  node's id; different nodes have disjoint sets (no 64-bit hash collision).
\<close>

definition entry_ok :: "(node_id \<Rightarrow> u64 set) \<Rightarrow> node_id \<Rightarrow> MembershipEntry \<Rightarrow> bool" where
  "entry_ok T n e \<longleftrightarrow> (if status e = UP then set (tokens e) = T n else tokens e = [])"

definition table_ok :: "(node_id \<Rightarrow> u64 set) \<Rightarrow> MembershipTable \<Rightarrow> bool" where
  "table_ok T tbl \<longleftrightarrow> distinct_keys tbl \<and> (\<forall>n e. map_of tbl n = Some e \<longrightarrow> entry_ok T n e)"

definition tokens_disjoint :: "(node_id \<Rightarrow> u64 set) \<Rightarrow> bool" where
  "tokens_disjoint T \<longleftrightarrow> (\<forall>m n. m \<noteq> n \<longrightarrow> T m \<inter> T n = {})"

definition owns :: "MembershipTable \<Rightarrow> u64 \<Rightarrow> node_id \<Rightarrow> bool" where
  "owns tbl t n \<longleftrightarrow> (\<exists>e. map_of tbl n = Some e \<and> status e = UP \<and> t \<in> set (tokens e))"

definition ring_ok :: "MembershipTable \<Rightarrow> ring \<Rightarrow> bool" where
  "ring_ok tbl r \<longleftrightarrow> ascending r \<and> (\<forall>t n. map_of r t = Some n \<longleftrightarrow> owns tbl t n)"

lemma ring_okI:
  assumes "ascending r" and "\<And>t n. map_of r t = Some n \<longleftrightarrow> owns tbl t n"
  shows "ring_ok tbl r"
  using assms by (simp add: ring_ok_def)

lemma put_tokens_facts:
  "ascending r \<Longrightarrow> ascending (put_tokens ts n r)"
  "ascending r \<Longrightarrow> map_of (put_tokens ts n r) t = (if t \<in> set ts then Some n else map_of r t)"
  by (simp_all add: put_tokens_def om.inv_put_all om.lookup_put_all)

lemma erase_tokens_facts:
  "ascending r \<Longrightarrow> ascending (erase_tokens ts r)"
  "ascending r \<Longrightarrow> map_of (erase_tokens ts r) t = (if t \<in> set ts then None else map_of r t)"
  by (simp_all add: erase_tokens_def om.inv_erase_all om.lookup_erase_all)

lemmas token_facts = put_tokens_facts erase_tokens_facts

lemma owns_update:
  "owns (AList.update n e tbl) t m \<longleftrightarrow>
   (if m = n then status e = UP \<and> t \<in> set (tokens e) else owns tbl t m)"
  by (auto simp: owns_def alist_simps)

lemma owns_tokens: "table_ok T tbl \<Longrightarrow> owns tbl t n \<Longrightarrow> t \<in> T n"
  by (auto simp: owns_def table_ok_def entry_ok_def split: if_splits)

lemma table_ok_update [wf_intros]:
  "table_ok T tbl \<Longrightarrow> entry_ok T n e \<Longrightarrow> table_ok T (AList.update n e tbl)"
  by (auto simp: table_ok_def alist_simps wf_intros)

text \<open>Bringing a node's entry up puts its tokens in; taking it down erases them.\<close>

lemma ring_ok_up:
  assumes "ring_ok tbl r" and "table_ok T tbl" and "tokens_disjoint T" and "entry_ok T n e"
    and "status e = UP" and "map_of tbl n = None \<or> (\<exists>l. map_of tbl n = Some l \<and> status l = REMOVED)"
  shows "ring_ok (AList.update n e tbl) (put_tokens (tokens e) n r)"
proof (rule ring_okI)
  show "ascending (put_tokens (tokens e) n r)"
    using assms(1) by (simp add: ring_ok_def token_facts)
next
  fix t m
  have r: "ascending r" "map_of r t = Some m \<longleftrightarrow> owns tbl t m" for m
    using assms(1) by (simp_all add: ring_ok_def)
  have T: "set (tokens e) = T n" using assms(4,5) by (simp add: entry_ok_def)
  have "\<not> owns tbl t n" using assms(6) by (auto simp: owns_def)
  moreover have "t \<in> T n \<Longrightarrow> owns tbl t m \<Longrightarrow> m = n"
    using owns_tokens [OF assms(2)] assms(3) by (fastforce simp: tokens_disjoint_def)
  ultimately show "map_of (put_tokens (tokens e) n r) t = Some m \<longleftrightarrow>
      owns (AList.update n e tbl) t m"
    using r by (auto simp: token_facts owns_update T assms(5))
qed

lemma ring_ok_down:
  assumes "ring_ok tbl r" and "table_ok T tbl" and "tokens_disjoint T"
    and "map_of tbl n = Some l" and "status l = UP" and "status e = REMOVED"
  shows "ring_ok (AList.update n e tbl) (erase_tokens (tokens l) r)"
proof (rule ring_okI)
  show "ascending (erase_tokens (tokens l) r)"
    using assms(1) by (simp add: ring_ok_def token_facts)
next
  fix t m
  have r: "ascending r" "map_of r t = Some m \<longleftrightarrow> owns tbl t m" for m
    using assms(1) by (simp_all add: ring_ok_def)
  have own: "owns tbl t n \<longleftrightarrow> t \<in> set (tokens l)"
    using assms(4,5) by (simp add: owns_def)
  have T: "set (tokens l) = T n" using assms(2,4,5) by (auto simp: table_ok_def entry_ok_def)
  have "t \<in> T n \<Longrightarrow> owns tbl t m \<Longrightarrow> m = n"
    using owns_tokens [OF assms(2)] assms(3) by (fastforce simp: tokens_disjoint_def)
  then show "map_of (erase_tokens (tokens l) r) t = Some m \<longleftrightarrow> owns (AList.update n e tbl) t m"
    using r own by (auto simp: token_facts owns_update assms(6) T)
qed

text \<open>An entry of the same status leaves the ring as it is.\<close>

lemma ring_ok_same:
  assumes "ring_ok tbl r" and "table_ok T tbl" and "entry_ok T n e"
    and "map_of tbl n = Some l" and "status l = status e"
  shows "ring_ok (AList.update n e tbl) r"
proof -
  have "entry_ok T n l" using assms(2,4) by (auto simp: table_ok_def)
  with assms(3,5) have "set (tokens l) = set (tokens e)"
    by (simp add: entry_ok_def split: if_splits)
  with assms(1,4,5) show ?thesis
    by (auto simp: ring_ok_def owns_update) (auto simp: owns_def)
qed

lemma mergeInto_ring_ok:
  assumes "ring_ok tbl r" and "table_ok T tbl" and "tokens_disjoint T" and "table_ok T incoming"
  shows "table_ok T (fst (mergeInto tbl incoming r)) \<and>
         ring_ok (fst (mergeInto tbl incoming r)) (snd (mergeInto tbl incoming r))"
  using assms
proof (induction tbl incoming r rule: mergeInto.induct)
  case (2 tbl n e rest r)
  have e: "entry_ok T n e" and rest: "table_ok T rest"
    using "2.prems"(4) by (auto simp: table_ok_def split: if_splits)
  note upd = table_ok_update [OF "2.prems"(2) e]
  show ?case
  proof (cases "map_of tbl n")
    case None
    have "ring_ok (AList.update n e tbl) (put_tokens (tokens e) n r)"
    proof (cases "status e")
      case UP
      with None show ?thesis by (intro ring_ok_up [OF "2.prems"(1-3) e]) auto
    next
      case REMOVED
      with e "2.prems"(1) None show ?thesis
        by (auto simp: entry_ok_def put_tokens_def ring_ok_def owns_update) (auto simp: owns_def)
    qed
    with None "2.IH"(1) [OF None _ upd "2.prems"(3) rest] show ?thesis by simp
  next
    case (Some l)
    show ?thesis
    proof (cases "incoming_wins e l")
      case True
      let ?r = "if status l = REMOVED \<and> status e = UP then put_tokens (tokens e) n r
        else if status l = UP \<and> status e = REMOVED then erase_tokens (tokens l) r else r"
      have "ring_ok (AList.update n e tbl) ?r"
        using ring_ok_up [OF "2.prems"(1-3) e] ring_ok_down [OF "2.prems"(1-3) Some]
          ring_ok_same [OF "2.prems"(1,2) e Some] Some
        by (cases "status l"; cases "status e") auto
      with Some True "2.IH"(2) [OF Some True _ upd "2.prems"(3) rest] show ?thesis by simp
    next
      case False
      with Some "2.IH"(3) [OF Some False "2.prems"(1-3) rest] show ?thesis by simp
    qed
  qed
qed simp

subsection \<open>Facts about preference lists\<close>

definition ring_nodes :: "ring \<Rightarrow> node_id list" where
  "ring_nodes r = map snd r"

lemma set_clockwise: "set (clockwise r h) = set (ring_nodes r)"
proof -
  have "set (drop k r @ take k r) = set r" for k
    by (metis append_take_drop_id set_append Un_commute)
  then show ?thesis by (simp add: clockwise_def ring_nodes_def del: set_append flip: map_append)
qed

lemma distinct_clockwise [simp]: "distinct (clockwise r h)"
  by (simp add: clockwise_def)

lemma naturals_split: "clockwise r h = natural_owners r h N @ drop (nat N) (clockwise r h)"
  by (simp add: natural_owners_def)

lemma distinct_naturals [simp]: "distinct (natural_owners r h N)"
  by (simp add: natural_owners_def)

lemma naturals_disjoint:
  "c \<in> set (natural_owners r h N) \<Longrightarrow> c \<notin> set (drop (nat N) (clockwise r h))"
  using distinct_clockwise [of r h] by (subst (asm) naturals_split [of r h N]) auto

lemma natural_entries_distinct: "distinct (map ple_node_id (map natural_entry xs)) \<longleftrightarrow> distinct xs"
  by (simp add: comp_def)

lemma preference_ids:
  "map ple_node_id (preferenceList r h N p) =
   filter p (natural_owners r h N) @
   take (length (filter (\<lambda>c. \<not> p c) (natural_owners r h N))) (filter p (drop (nat N) (clockwise r h)))"
proof -
  have "map (ple_node_id \<circ> hint_entry) (zip xs ys) = take (length ys) xs" for xs ys
    by (induction xs ys rule: list_induct2') (auto simp: comp_def)
  then show ?thesis
    by (simp add: preferenceList_eq_spec preference_spec_def comp_def)
qed

lemma preference_ids_distinct: "distinct (map ple_node_id (preferenceList r h N p))"
  using naturals_disjoint [of _ r h N]
  by (auto simp: preference_ids distinct_take dest: in_set_takeD)

lemma preference_reachable: "e \<in> set (preferenceList r h N p) \<Longrightarrow> p (ple_node_id e)"
  by (auto simp: preferenceList_eq_spec preference_spec_def dest!: zip_memD)

lemma preference_in_ring:
  assumes "e \<in> set (preferenceList r h N p)"
  shows "ple_node_id e \<in> set (ring_nodes r)"
proof -
  have "ple_node_id e \<in> set (clockwise r h)"
    using assms
    by (subst naturals_split [of r h N])
      (auto simp: preferenceList_eq_spec preference_spec_def dest!: zip_memD)
  then show ?thesis by (simp add: set_clockwise)
qed

lemma preference_hint:
  assumes "e \<in> set (preferenceList r h N p)"
  shows "case hint_for_node_id e of
      None \<Rightarrow> ple_node_id e \<in> set (natural_owners r h N)
    | Some owner \<Rightarrow> owner \<in> set (natural_owners r h N) \<and> \<not> p owner \<and>
        ple_node_id e \<notin> set (natural_owners r h N)"
  using assms naturals_disjoint [of _ r h N]
  by (auto simp: preferenceList_eq_spec preference_spec_def
      dest!: zip_memD)

lemma preference_length:
  "length (preferenceList r h N p) = min (nat N) (card {n \<in> set (ring_nodes r). p n})"
proof -
  let ?c = "clockwise r h" and ?n = "natural_owners r h N"
  have split: "filter p ?c = filter p ?n @ filter p (drop (nat N) ?c)"
    by (subst naturals_split [of r h N]) simp
  have "card {n \<in> set (ring_nodes r). p n} = length (filter p ?c)"
    using distinct_card [of "filter p ?c"] by (simp add: set_clockwise)
  moreover have "length (filter p ?n) + length (filter (\<lambda>c. \<not> p c) ?n) = min (nat N) (length ?c)"
    by (simp add: sum_length_filter_compl natural_owners_def min.commute)
  moreover have "length ?c \<le> nat N \<Longrightarrow> filter p (drop (nat N) ?c) = []" by simp
  moreover have "length (filter p ?n) + length (filter p (drop (nat N) ?c)) = length (filter p ?c)"
    by (simp add: split)
  moreover have "length (preferenceList r h N p) = length (filter p ?n) +
      min (length (filter (\<lambda>c. \<not> p c) ?n)) (length (filter p (drop (nat N) ?c)))"
    using preference_ids [of r h N p, THEN arg_cong [of _ _ length]] by (simp add: min.commute)
  ultimately show ?thesis by (cases "length ?c \<le> nat N") auto
qed

lemma preference_one:
  "map ple_node_id (preferenceList r h 1 p) =
   (case find p (clockwise r h) of None \<Rightarrow> [] | Some c \<Rightarrow> [c])"
proof (cases "clockwise r h")
  case (Cons d ds)
  have "take 1 (filter p ds) = (case find p ds of None \<Rightarrow> [] | Some c \<Rightarrow> [c])"
    by (induction ds) auto
  with Cons show ?thesis by (simp add: preference_ids natural_owners_def)
qed (simp add: preference_ids natural_owners_def)

lemma ring_ok_node:
  assumes "ring_ok tbl r" and "n \<in> set (ring_nodes r)"
  shows "\<exists>t. owns tbl t n"
proof -
  obtain t where "(t, n) \<in> set r" using assms(2) by (auto simp: ring_nodes_def)
  moreover have "distinct_keys r" "map_of r t = Some n \<longleftrightarrow> owns tbl t n"
    using assms(1) by (simp_all add: ring_ok_def ascending_distinct_keys)
  ultimately show ?thesis by auto
qed

subsection \<open>Properties\<close>

text \<open>
C10. The walk over the ring (with its iterator wrap-around, its \<open>seen\<close> set, its FIFO of skipped
owners and its two exits) returns the reference list: the reachable ones of the first \<open>N\<close> distinct
nodes clockwise from the key, in ring order, followed by the next reachable nodes, each paired in
order with one unreachable natural owner.
\<close>
theorem preferenceList_is_spec:
  "preferenceList ring h N is_reachable = preference_spec ring h N is_reachable"
  by (rule preferenceList_eq_spec)

text \<open>
A preference list names at most \<open>N\<close> nodes, exactly as many as there are reachable nodes up to
\<open>N\<close>; they are distinct, reachable, and on the ring; entries without a hint are natural owners, and
entries with a hint stand outside the natural owners and name an unreachable natural owner.
\<close>
theorem preferenceList_safe:
  "distinct (map ple_node_id (preferenceList ring h N p)) \<and>
   length (preferenceList ring h N p) = min (nat N) (card {n \<in> set (ring_nodes ring). p n}) \<and>
   (\<forall>e \<in> set (preferenceList ring h N p).
      p (ple_node_id e) \<and> ple_node_id e \<in> set (ring_nodes ring) \<and>
      (case hint_for_node_id e of
         None \<Rightarrow> ple_node_id e \<in> set (natural_owners ring h N)
       | Some owner \<Rightarrow> owner \<in> set (natural_owners ring h N) \<and> \<not> p owner \<and>
           ple_node_id e \<notin> set (natural_owners ring h N)))"
  by (intro conjI ballI preference_ids_distinct preference_length
      preference_reachable [where p = p] preference_in_ring preference_hint)

theorem preferenceList_safe_witness:
  "preferenceList [(10, ''A''), (15, ''A''), (20, ''B''), (30, ''X''), (40, ''D''), (50, ''E'')] 0 3
       (\<lambda>n. n \<notin> {''A'', ''X''}) =
     [natural_entry ''B'', hint_entry (''D'', ''A''), hint_entry (''E'', ''X'')] \<and>
   distinct (map ple_node_id (preferenceList [(10, ''A''), (15, ''A''), (20, ''B''), (30, ''X''),
     (40, ''D''), (50, ''E'')] 0 3 (\<lambda>n. n \<notin> {''A'', ''X''})))"
  using preferenceList_safe [of "[(10, ''A''), (15, ''A''), (20, ''B''), (30, ''X''), (40, ''D''),
      (50, ''E'')]" 0 3 "\<lambda>n. n \<notin> {''A'', ''X''}"]
  by (simp add: preferenceList_eq_spec preference_spec_def natural_owners_def clockwise_def
      upper_bound_def nub_def)

text \<open>
Merging a gossiped table is, entry by entry, a last-writer-wins join: an unknown node is adopted,
a known one is replaced exactly when the incoming entry has the later time stamp, or the same one and
the greater writer id.  No node is forgotten and the table stays a map, in whatever order the incoming
entries are visited.
\<close>
theorem mergeInto_is_lww_join:
  assumes "distinct_keys tbl" and "distinct_keys incoming"
  shows "map_of (fst (mergeInto tbl incoming r)) n =
      lww_join incoming_wins (map_of tbl n) (map_of incoming n) \<and>
    fst ` set (fst (mergeInto tbl incoming r)) = fst ` set tbl \<union> fst ` set incoming \<and>
    distinct_keys (fst (mergeInto tbl incoming r))"
  using assms by (simp add: mergeInto_slot mergeInto_keys mergeInto_distinct)

abbreviation mentry :: "node_id \<Rightarrow> NodeStatus \<Rightarrow> u64 list \<Rightarrow> millis \<Rightarrow> node_id \<Rightarrow> MembershipEntry" where
  "mentry w s ts t a \<equiv> \<lparr>me_writer_id = w, address = a, status = s, tokens = ts, me_last_updated = t\<rparr>"

theorem mergeInto_is_lww_join_witness:
  "map_of (fst (mergeInto [(''B'', mentry ''B'' UP [1] 5 ''B'')]
      [(''C'', mentry ''C'' UP [7] 1 ''C''), (''B'', mentry ''C'' REMOVED [] 5 ''B'')] [(1, ''B'')])) ''B''
     = Some (mentry ''C'' REMOVED [] 5 ''B'')"
  using mergeInto_is_lww_join [of "[(''B'', mentry ''B'' UP [1] 5 ''B'')]"
    "[(''C'', mentry ''C'' UP [7] 1 ''C''), (''B'', mentry ''C'' REMOVED [] 5 ''B'')]" "[(1, ''B'')]" "''B''"]
  by (simp add: incoming_wins_def)

text \<open>No two different entries for one node carry the same stamp.\<close>

definition stamps_identify :: "MembershipTable list \<Rightarrow> bool" where
  "stamps_identify tbls \<longleftrightarrow> (\<forall>s \<in> set tbls. \<forall>t \<in> set tbls. \<forall>n x y.
     map_of s n = Some x \<longrightarrow> map_of t n = Some y \<longrightarrow> entry_stamp x = entry_stamp y \<longrightarrow> x = y)"

lemma stamps_identify_comm:
  assumes "stamps_identify tbls" and "s \<in> set tbls" and "t \<in> set tbls"
  shows "lww_join incoming_wins (map_of s n) (map_of t n) =
         lww_join incoming_wins (map_of t n) (map_of s n)"
  using assms unfolding stamps_identify_def by (intro mlww.join_comm) blast

text \<open>
Gossip converges: when no two different entries for a node carry the same stamp, two nodes that
merge each other's tables end with the same entries, merging the same table again changes nothing,
and the order in which two tables arrive does not matter.
\<close>
theorem mergeInto_converges:
  assumes "distinct_keys a" and "distinct_keys b" and "distinct_keys c"
    and "stamps_identify [a, b, c]"
  shows "map_of (fst (mergeInto a b r)) = map_of (fst (mergeInto b a r')) \<and>
    map_of (fst (mergeInto (fst (mergeInto a b r)) b r'')) = map_of (fst (mergeInto a b r)) \<and>
    map_of (fst (mergeInto (fst (mergeInto a b r)) c r'')) =
      map_of (fst (mergeInto (fst (mergeInto a c r)) b r''))"
proof (intro conjI ext)
  fix n
  note comm = stamps_identify_comm [OF assms(4)]
  show "map_of (fst (mergeInto a b r)) n = map_of (fst (mergeInto b a r')) n"
    using assms comm [of a b] by (simp add: mergeInto_slot)
  show "map_of (fst (mergeInto (fst (mergeInto a b r)) b r'')) n = map_of (fst (mergeInto a b r)) n"
    using assms by (simp add: mergeInto_slot mlww.join_absorb_right)
  show "map_of (fst (mergeInto (fst (mergeInto a b r)) c r'')) n =
      map_of (fst (mergeInto (fst (mergeInto a c r)) b r'')) n"
    using assms comm [of b c] by (simp add: mergeInto_slot mlww.join_assoc)
qed

theorem mergeInto_converges_witness:
  "map_of (fst (mergeInto [(''B'', mentry ''B'' UP [1] 5 ''B'')] [(''B'', mentry ''C'' REMOVED [] 5 ''B'')] [(1, ''B'')])) =
   map_of (fst (mergeInto [(''B'', mentry ''C'' REMOVED [] 5 ''B'')] [(''B'', mentry ''B'' UP [1] 5 ''B'')] []))"
proof -
  have stamps: "stamps_identify [[(''B'', mentry ''B'' UP [1] 5 ''B'')],
      [(''B'', mentry ''C'' REMOVED [] 5 ''B'')], []]"
    by (auto simp: stamps_identify_def entry_stamp_def split: if_splits)
  show ?thesis
    using mergeInto_converges [of "[(''B'', mentry ''B'' UP [1] 5 ''B'')]"
        "[(''B'', mentry ''C'' REMOVED [] 5 ''B'')]" "[]", OF _ _ _ stamps] by simp
qed

text \<open>
C12. The ring and the table agree after every merge: if a token was on the ring exactly when an
\<open>UP\<close> entry of the table lists it, for the node that lists it, then so it is after merging any
table of the same cluster (each node's tokens are its own set, removed entries have none).
\<close>
theorem mergeInto_keeps_ring_consistent:
  assumes "ring_ok tbl r" and "table_ok T tbl" and "tokens_disjoint T" and "table_ok T incoming"
  shows "ring_ok (fst (mergeInto tbl incoming r)) (snd (mergeInto tbl incoming r)) \<and>
    table_ok T (fst (mergeInto tbl incoming r))"
  using mergeInto_ring_ok [OF assms] by simp

theorem mergeInto_keeps_ring_consistent_witness:
  "ring_ok (fst (mergeInto [(''B'', mentry ''B'' UP [1] 5 ''B'')] [(''B'', mentry ''C'' REMOVED [] 6 ''B'')]
       [(1, ''B'')]))
     (snd (mergeInto [(''B'', mentry ''B'' UP [1] 5 ''B'')] [(''B'', mentry ''C'' REMOVED [] 6 ''B'')]
       [(1, ''B'')]))"
proof -
  let ?T = "\<lambda>n. if n = ''B'' then {1} else {}"
  have "ring_ok [(''B'', mentry ''B'' UP [1] 5 ''B'')] [(1, ''B'')]"
    by (auto simp: ring_ok_def owns_def ascending_def)
  moreover have "table_ok ?T [(''B'', mentry ''B'' UP [1] 5 ''B'')]"
    "table_ok ?T [(''B'', mentry ''C'' REMOVED [] 6 ''B'')]"
    by (auto simp: table_ok_def entry_ok_def)
  moreover have "tokens_disjoint ?T" by (simp add: tokens_disjoint_def)
  ultimately show ?thesis using mergeInto_keeps_ring_consistent by blast
qed

text \<open>
A removed node never appears in a preference list, neither as a replica nor as the target of a
hint, while the ring agrees with the table: every node a preference list names has an \<open>UP\<close> entry.
\<close>
theorem preferenceList_only_up:
  assumes "ring_ok tbl r" and "e \<in> set (preferenceList r h N p)"
  shows "\<forall>n \<in> insert (ple_node_id e) (set_option (hint_for_node_id e)).
    \<exists>m. map_of tbl n = Some m \<and> status m = UP"
proof
  fix n assume n: "n \<in> insert (ple_node_id e) (set_option (hint_for_node_id e))"
  have "n \<in> set (ring_nodes r)"
  proof (cases "n = ple_node_id e")
    case True
    with preference_in_ring [OF assms(2)] show ?thesis by simp
  next
    case False
    with n preference_hint [OF assms(2)] have "n \<in> set (natural_owners r h N)" by auto
    then have "n \<in> set (clockwise r h)" by (auto simp: natural_owners_def dest: in_set_takeD)
    then show ?thesis by (simp add: set_clockwise)
  qed
  with assms(1) obtain t where "owns tbl t n" using ring_ok_node by blast
  then show "\<exists>m. map_of tbl n = Some m \<and> status m = UP" by (auto simp: owns_def)
qed

theorem preferenceList_only_up_witness:
  "\<exists>m. map_of [(''B'', mentry ''B'' UP [1] 5 ''B''), (''C'', mentry ''A'' REMOVED [] 7 ''C'')] ''B'' = Some m
     \<and> status m = UP"
proof -
  let ?tbl = "[(''B'', mentry ''B'' UP [1] 5 ''B''), (''C'', mentry ''A'' REMOVED [] 7 ''C'')]"
  have ok: "ring_ok ?tbl [(1, ''B'')]"
    by (auto simp: ring_ok_def owns_def ascending_def split: if_splits)
  have "natural_entry ''B'' \<in> set (preferenceList [(1, ''B'')] 0 3 (\<lambda>_. True))"
    by (simp add: preferenceList_eq_spec preference_spec_def natural_owners_def clockwise_def
        upper_bound_def nub_def)
  from preferenceList_only_up [OF ok this] show ?thesis by simp
qed

text \<open>
The agreement needs a node's tokens to be the same in all its \<open>UP\<close> entries.  A newer
\<open>UP\<close> entry with other tokens (a node restarted with another \<open>--vnodes\<close>) does not touch the
ring, and a later removal erases only the tokens of the newer entry: a token that only the older entry
listed stays on the ring, owned by a node that the table lists as removed.
\<close>
theorem token_change_leaves_stale_owner:
  assumes "map_of tbl n = Some l" and "status l = UP" and "status e = UP" and "incoming_wins e l"
    and "status d = REMOVED" and "incoming_wins d e"
    and "ascending r" and "map_of r t = Some n" and "t \<notin> set (tokens e)"
  shows "(let (tbl1, r1) = mergeInto tbl [(n, e)] r; (tbl2, r2) = mergeInto tbl1 [(n, d)] r1
    in map_of tbl2 n = Some d \<and> map_of r2 t = Some n)"
  using assms by (simp add: alist_simps token_facts)

theorem token_change_leaves_stale_owner_witness:
  "(let (tbl1, r1) = mergeInto [(''B'', mentry ''B'' UP [1, 2] 5 ''B'')] [(''B'', mentry ''B'' UP [1] 6 ''B'')]
        [(1, ''B''), (2, ''B'')];
      (tbl2, r2) = mergeInto tbl1 [(''B'', mentry ''A'' REMOVED [] 7 ''B'')] r1
    in map_of tbl2 ''B'' = Some (mentry ''A'' REMOVED [] 7 ''B'') \<and> map_of r2 2 = Some ''B'')"
  by (rule token_change_leaves_stale_owner [where l = "mentry ''B'' UP [1, 2] 5 ''B''"])
    (simp_all add: incoming_wins_def ascending_def)

end
