(* ===== verification/Node_State.thy ===== *)
theory Node_State
  imports Vector_Clock Ring
begin

text \<open>
  The state of one server process, the members of \<open>NodeServiceImpl\<close>
  (\<^verbatim>\<open>src/src/node_service.hpp\<close>), its constructor (\<^verbatim>\<open>node_main.cpp\<close>), the set of
  unreachable peers (\<^verbatim>\<open>node_reachability.cpp\<close>) and the two lookups on the ring that use it
  (\<open>preferenceListForKey\<close>, \<open>findSubstitute\<close> of \<^verbatim>\<open>node_kv.cpp\<close>).

  Every operation here runs under one mutex in the code, so each is one atomic function on the state.
  The unordered set of peers is a duplicate-free list in iteration order; \<open>kv_store_\<close> is never
  iterated and is a map; the hints are a map from targets to the iterated map of their keys.
  Log lines are not part of the state.
\<close>

record HeldHint =
  hint_key :: key
  hint_value :: string
  hint_clock :: vector_clock
  hint_created_at :: millis

record node =
  nd_id :: node_id
  nd_vnodes :: int
  nd_table :: MembershipTable
  nd_ring :: ring
  nd_unreachable :: "node_id list"
  nd_kv :: "key \<rightharpoonup> VersionedValue"
  nd_hints :: "node_id \<rightharpoonup> (key \<times> HeldHint) list"
  nd_N :: int
  nd_W :: int
  nd_R :: int

definition NodeServiceImpl :: "node_id \<Rightarrow> int \<Rightarrow> int \<Rightarrow> int \<Rightarrow> int \<Rightarrow> millis \<Rightarrow> node" where
  "NodeServiceImpl n vnodes N W R now =
     (let ts = computeTokens n vnodes
      in \<lparr>nd_id = n, nd_vnodes = vnodes,
          nd_table = [(n, \<lparr>me_writer_id = n, address = n, status = UP, tokens = ts,
                           me_last_updated = now\<rparr>)],
          nd_ring = put_tokens ts n [], nd_unreachable = [], nd_kv = Map.empty,
          nd_hints = Map.empty, nd_N = N, nd_W = W, nd_R = R\<rparr>)"

text \<open>The check of the quorum configuration in \<open>main\<close>, before a process serves anything.\<close>

definition valid_quorum :: "int \<Rightarrow> int \<Rightarrow> int \<Rightarrow> bool" where
  "valid_quorum N W R \<longleftrightarrow> \<not> (N < 1 \<or> W < 1 \<or> R < 1 \<or> W > N \<or> R > N \<or> W + R \<le> N)"

text \<open>\<open>entries().at(node_id_)\<close> throws without a self entry: \<open>None\<close>.\<close>

definition isSelfRemoved :: "node \<Rightarrow> bool option" where
  "isSelfRemoved nd = map_option (\<lambda>e. status e = REMOVED) (map_of (nd_table nd) (nd_id nd))"

subsection \<open>Reachability\<close>

definition unreachableSnapshot :: "node \<Rightarrow> node_id list" where
  "unreachableSnapshot nd = nd_unreachable nd"

definition markUnreachable :: "node_id \<Rightarrow> node \<Rightarrow> node" where
  "markUnreachable p nd = nd\<lparr>nd_unreachable := List.insert p (nd_unreachable nd)\<rparr>"

definition markReachable :: "node_id \<Rightarrow> node \<Rightarrow> node" where
  "markReachable p nd = nd\<lparr>nd_unreachable := removeAll p (nd_unreachable nd)\<rparr>"

definition preferenceListForKey :: "node \<Rightarrow> key \<Rightarrow> int \<Rightarrow> PreferenceListEntry list" where
  "preferenceListForKey nd k N =
     (let unreachable = unreachableSnapshot nd
      in preferenceList (nd_ring nd) (key_hash k) N (\<lambda>n. n \<notin> set unreachable))"

definition findSubstitute :: "node \<Rightarrow> key \<Rightarrow> node_id \<Rightarrow> node_id list \<Rightarrow> node_id option" where
  "findSubstitute nd k true_owner excluded =
     (let unreachable = unreachableSnapshot nd;
          result = preferenceList (nd_ring nd) (key_hash k) 1
            (\<lambda>c. c \<notin> set unreachable \<and> c \<notin> set excluded \<and> c \<noteq> true_owner)
      in case result of [] \<Rightarrow> None | e # _ \<Rightarrow> Some (ple_node_id e))"

subsection \<open>Well-formed states\<close>

text \<open>
  The type invariants of the containers (no key twice, well-formed clocks), a self entry in the table,
  hints filed under their own key, the agreement of ring and table, and a checked configuration.
\<close>

definition wf_hints :: "(key \<times> HeldHint) list \<Rightarrow> bool" where
  "wf_hints hs \<longleftrightarrow> distinct_keys hs \<and>
     (\<forall>(k, h) \<in> set hs. hint_key h = k \<and> wf_clock (hint_clock h))"

definition wf_store :: "(key \<rightharpoonup> VersionedValue) \<Rightarrow> bool" where
  "wf_store kv \<longleftrightarrow> (\<forall>k v. kv k = Some v \<longrightarrow> wf_clock (vv_clock v))"

definition wf_hint_table :: "(node_id \<rightharpoonup> (key \<times> HeldHint) list) \<Rightarrow> bool" where
  "wf_hint_table ht \<longleftrightarrow> (\<forall>t hs. ht t = Some hs \<longrightarrow> wf_hints hs)"

definition wf_member :: "(node_id \<Rightarrow> u64 set) \<Rightarrow> node \<Rightarrow> bool" where
  "wf_member T nd \<longleftrightarrow> table_ok T (nd_table nd) \<and> ring_ok (nd_table nd) (nd_ring nd) \<and>
     nd_id nd \<in> fst ` set (nd_table nd) \<and> distinct (nd_unreachable nd) \<and>
     valid_quorum (nd_N nd) (nd_W nd) (nd_R nd)"

definition wf_node :: "(node_id \<Rightarrow> u64 set) \<Rightarrow> node \<Rightarrow> bool" where
  "wf_node T nd \<longleftrightarrow> wf_member T nd \<and> wf_store (nd_kv nd) \<and> wf_hint_table (nd_hints nd)"

lemma isSelfRemoved_total: "wf_member T nd \<Longrightarrow> \<exists>b. isSelfRemoved nd = Some b"
  by (auto simp: wf_member_def isSelfRemoved_def simp flip: map_of_is_Some_keys)

lemma set_markUnreachable [simp]:
  "set (nd_unreachable (markUnreachable p nd)) = insert p (set (nd_unreachable nd))"
  by (simp add: markUnreachable_def)

lemma set_markReachable [simp]:
  "set (nd_unreachable (markReachable p nd)) = set (nd_unreachable nd) - {p}"
  by (auto simp: markReachable_def)

lemma wf_markUnreachable [wf_intros]: "wf_node T nd \<Longrightarrow> wf_node T (markUnreachable p nd)"
  by (simp add: wf_node_def wf_member_def markUnreachable_def)

lemma wf_markReachable [wf_intros]: "wf_node T nd \<Longrightarrow> wf_node T (markReachable p nd)"
  by (simp add: wf_node_def wf_member_def markReachable_def distinct_removeAll)

lemma table_ok_single:
  "entry_ok T n e \<Longrightarrow> table_ok T [(n, e)]"
  by (simp add: table_ok_def)

lemma wf_NodeServiceImpl [wf_intros]:
  assumes "T n = set (computeTokens n vnodes)" and "valid_quorum N W R"
  shows "wf_node T (NodeServiceImpl n vnodes N W R now)"
proof -
  let ?e = "\<lparr>me_writer_id = n, address = n, status = UP, tokens = computeTokens n vnodes,
             me_last_updated = now\<rparr>"
  have "ring_ok [(n, ?e)] (put_tokens (computeTokens n vnodes) n [])"
    by (rule ring_okI) (auto simp: token_facts owns_def split: if_splits)
  moreover have "table_ok T [(n, ?e)]"
    by (rule table_ok_single) (simp add: entry_ok_def assms)
  ultimately show ?thesis
    using assms(2)
    by (simp add: wf_node_def wf_member_def wf_store_def wf_hint_table_def NodeServiceImpl_def Let_def)
qed

subsection \<open>The substitute\<close>

lemma findSubstitute_find:
  "findSubstitute nd k owner ex =
   find (\<lambda>c. c \<notin> set (nd_unreachable nd) \<and> c \<notin> set ex \<and> c \<noteq> owner)
     (clockwise (nd_ring nd) (key_hash k))"
proof -
  let ?p = "\<lambda>c. c \<notin> set (nd_unreachable nd) \<and> c \<notin> set ex \<and> c \<noteq> owner"
  let ?l = "preferenceList (nd_ring nd) (key_hash k) 1 ?p"
  have "findSubstitute nd k owner ex =
      (case map ple_node_id ?l of [] \<Rightarrow> None | n # _ \<Rightarrow> Some n)"
    by (simp add: findSubstitute_def unreachableSnapshot_def Let_def split: list.split)
  also have "\<dots> = find ?p (clockwise (nd_ring nd) (key_hash k))"
    by (simp add: preference_one split: option.split)
  finally show ?thesis .
qed

lemma findSubstitute_SomeD:
  assumes "findSubstitute nd k owner ex = Some s"
  shows "s \<in> set (ring_nodes (nd_ring nd))" and "s \<notin> set ex" and "s \<noteq> owner"
    and "s \<notin> set (nd_unreachable nd)"
  using assms
  by (auto simp: findSubstitute_find find_Some_iff simp flip: set_clockwise [of _ "key_hash k"])

end
