(* ===== verification/Causal_Slot.thy ===== *)
theory Causal_Slot
  imports Drift_Prelude
begin

text \<open>
  The contract of a single-version slot that resolves by causality alone: a new version replaces the
  held one unless it lies causally at or below it.  A replica's slot for a key and a hint holder's slot
  for a (target, key) pair both promise it; coordinators, read repair and hint delivery rely on what is
  proved from it here.
\<close>

locale causal_slot =
  fixes store :: "'v \<Rightarrow> 's \<Rightarrow> 's"
    and slot :: "'s \<Rightarrow> 'v option"
    and val :: "'v \<Rightarrow> 'o::order"
    and ok :: "'v \<Rightarrow> bool"
    and inv :: "'s \<Rightarrow> bool"
  assumes inv_store: "inv s \<Longrightarrow> ok v \<Longrightarrow> inv (store v s)"
    and slot_ok: "inv s \<Longrightarrow> slot s = Some h \<Longrightarrow> ok h"
    and slot_store: "inv s \<Longrightarrow> ok v \<Longrightarrow> slot (store v s) =
      (case slot s of None \<Rightarrow> Some v | Some h \<Rightarrow> if val v \<le> val h then Some h else Some v)"
begin

text \<open>What is held afterwards covers the new version, and is not older than what was held.\<close>

lemma store_covers:
  assumes "inv s" and "ok v"
  shows "\<exists>h. slot (store v s) = Some h \<and> val v \<le> val h"
  using slot_store [OF assms] by (cases "slot s") auto

lemma store_not_older:
  "inv s \<Longrightarrow> ok v \<Longrightarrow> slot s = Some h \<Longrightarrow> slot (store v s) = Some h' \<Longrightarrow> \<not> val h' < val h"
  by (auto simp: slot_store split: if_splits)

lemma store_in:
  "inv s \<Longrightarrow> ok v \<Longrightarrow> slot (store v s) = Some h \<Longrightarrow> h = v \<or> slot s = Some h"
  by (auto simp: slot_store split: option.splits if_splits)

lemma store_twice:
  "inv s \<Longrightarrow> ok v \<Longrightarrow> slot (store v (store v s)) = slot (store v s)"
  using slot_store [of s v] slot_store [of "store v s" v] inv_store [of s v]
  by (auto split: option.splits if_splits)

text \<open>A version that nothing held is above takes the slot, up to equal clocks: read repair.\<close>

lemma store_undominated:
  assumes "inv s" and "ok v" and "\<And>h. slot s = Some h \<Longrightarrow> \<not> val v < val h"
  shows "\<exists>h. slot (store v s) = Some h \<and> val h = val v"
  using slot_store [OF assms(1,2)] assms(3) by (cases "slot s") (auto simp: le_less)

lemma inv_stores: "inv s \<Longrightarrow> list_all ok vs \<Longrightarrow> inv (fold store vs s)"
  by (induction vs arbitrary: s) (auto intro: inv_store)

lemma stores_in:
  "inv s \<Longrightarrow> list_all ok vs \<Longrightarrow> slot (fold store vs s) = Some h \<Longrightarrow> h \<in> set vs \<or> slot s = Some h"
proof (induction vs arbitrary: s)
  case (Cons v vs)
  then have "h \<in> set vs \<or> slot (store v s) = Some h"
    using inv_store by auto
  with Cons.prems show ?case by (auto dest: store_in)
qed simp

text \<open>
  When all versions involved are causally ordered, the order of arrival is irrelevant: the slot ends
  with the newest.
\<close>

lemma stores_chain:
  assumes "inv s" and "list_all ok vs"
    and "\<forall>x \<in> set vs \<union> set_option (slot s). \<forall>y \<in> set vs \<union> set_option (slot s).
           val x \<le> val y \<or> val y \<le> val x"
    and "x \<in> set vs \<union> set_option (slot s)"
  shows "\<exists>h. slot (fold store vs s) = Some h \<and> val x \<le> val h"
  using assms
proof (induction vs arbitrary: s x)
  case Nil
  then show ?case by auto
next
  case (Cons v vs)
  have v: "ok v" and vs: "list_all ok vs" and inv: "inv (store v s)"
    using Cons.prems inv_store by auto
  obtain h where h: "slot (store v s) = Some h" "val v \<le> val h"
    using store_covers [OF Cons.prems(1) v] by blast
  have in_s: "h = v \<or> slot s = Some h" using store_in [OF Cons.prems(1) v h(1)] .
  have IH: "y \<in> set vs \<union> {h} \<Longrightarrow> \<exists>g. slot (fold store vs (store v s)) = Some g \<and> val y \<le> val g" for y
    by (rule Cons.IH [OF inv vs]) (use Cons.prems(3) h(1) in_s in auto)
  show ?case
  proof (cases "x \<in> set vs")
    case True
    with IH show ?thesis by simp
  next
    case False
    with Cons.prems(4) consider "x = v" | "slot s = Some x" by auto
    then have "val x \<le> val h"
    proof cases
      case 1
      with h show ?thesis by simp
    next
      case 2
      then have "\<not> val h < val x"
        using store_not_older [OF Cons.prems(1) v 2 h(1)] by simp
      moreover have "val x \<le> val h \<or> val h \<le> val x"
        using Cons.prems(3) 2 in_s by auto
      ultimately show ?thesis by (auto simp: le_less)
    qed
    with IH [of h] show ?thesis by (auto intro: order_trans)
  qed
qed

end

end
