(* ===== verification/Replica.thy ===== *)
theory Replica
  imports Node_State Causal_Slot
begin

text \<open>
  The replica side of \<^verbatim>\<open>src/src/node_kv.cpp\<close>: the local store and the handlers
  \<open>ReplicateWrite\<close> and \<open>ReplicateRead\<close> that a coordinator calls, with the storage of hints.
  A handler returns its response and the new state, or \<open>None\<close> where \<open>isSelfRemoved\<close> throws.
\<close>

datatype WriteOutcome = STORED | ALREADY_CURRENT

record ReplicateWriteRequest =
  rw_key :: key
  rw_value :: string
  rw_clock :: vector_clock
  rw_hint_for :: "node_id option"

record ReplicateWriteResponse =
  rwr_success :: bool
  rwr_outcome :: WriteOutcome

record ReplicateReadResponse =
  rrr_found :: bool
  rrr_value :: string
  rrr_clock :: vector_clock

definition localGet :: "node \<Rightarrow> key \<Rightarrow> VersionedValue option" where
  "localGet nd k = nd_kv nd k"

definition storeReplicatedWrite :: "key \<Rightarrow> VersionedValue \<Rightarrow> node \<Rightarrow> WriteOutcome \<times> node" where
  "storeReplicatedWrite k incoming nd =
     (case nd_kv nd k of
        None \<Rightarrow> (STORED, nd\<lparr>nd_kv := (nd_kv nd)(k \<mapsto> incoming)\<rparr>)
      | Some stored \<Rightarrow>
          (let res = compareVectorClocks (vv_clock stored) (vv_clock incoming)
           in if res = EQUAL then (ALREADY_CURRENT, nd)
              else if res = DOMINATES then (ALREADY_CURRENT, nd)
              else (STORED, nd\<lparr>nd_kv := (nd_kv nd)(k \<mapsto> incoming)\<rparr>)))"

definition commitCoordinatedWrite :: "key \<Rightarrow> string \<Rightarrow> vector_clock option \<Rightarrow> millis \<Rightarrow> node
    \<Rightarrow> vector_clock \<times> node" where
  "commitCoordinatedWrite k v client_context now nd =
     (let local_copy = map_option vv_clock (nd_kv nd k);
          updated = buildNewClock client_context local_copy (nd_id nd) now
      in (updated, nd\<lparr>nd_kv := (nd_kv nd)(k \<mapsto> \<lparr>vv_value = v, vv_clock = updated\<rparr>)\<rparr>))"

text \<open>\<open>hints_for_target_[t][k] = hint\<close>\<close>

definition put_hint :: "node_id \<Rightarrow> key \<Rightarrow> HeldHint \<Rightarrow> node \<Rightarrow> node" where
  "put_hint t k hint nd =
     nd\<lparr>nd_hints := (nd_hints nd)(t \<mapsto>
       AList.update k hint (case nd_hints nd t of None \<Rightarrow> [] | Some hs \<Rightarrow> hs))\<rparr>"

text \<open>The hint branch of \<open>ReplicateWrite\<close> keeps a held hint that is equal to or dominates the new one.\<close>

definition receiveHint :: "node_id \<Rightarrow> HeldHint \<Rightarrow> node \<Rightarrow> node" where
  "receiveHint t hint nd0 =
     (let k = hint_key hint; nd = markUnreachable t nd0
      in case nd_hints nd t of
           Some hs \<Rightarrow>
             (case map_of hs k of
                Some held \<Rightarrow>
                  (let res = compareVectorClocks (hint_clock held) (hint_clock hint)
                   in if res = DOMINATED \<or> res = CONCURRENT then put_hint t k hint nd else nd)
              | None \<Rightarrow> put_hint t k hint nd)
         | None \<Rightarrow> put_hint t k hint nd)"

definition ReplicateWrite :: "ReplicateWriteRequest \<Rightarrow> millis \<Rightarrow> node
    \<Rightarrow> (ReplicateWriteResponse \<times> node) option" where
  "ReplicateWrite req now nd =
     (case isSelfRemoved nd of
        None \<Rightarrow> None
      | Some True \<Rightarrow> Some (\<lparr>rwr_success = False, rwr_outcome = ALREADY_CURRENT\<rparr>, nd)
      | Some False \<Rightarrow>
          (case rw_hint_for req of
             Some t \<Rightarrow>
               (let hint = \<lparr>hint_key = rw_key req, hint_value = rw_value req,
                            hint_clock = rw_clock req, hint_created_at = now\<rparr>
                in Some (\<lparr>rwr_success = True, rwr_outcome = STORED\<rparr>, receiveHint t hint nd))
           | None \<Rightarrow>
               (let (res, nd') = storeReplicatedWrite (rw_key req)
                      \<lparr>vv_value = rw_value req, vv_clock = rw_clock req\<rparr> nd
                in Some (\<lparr>rwr_success = True, rwr_outcome = res\<rparr>, nd'))))"

definition ReplicateRead :: "key \<Rightarrow> node \<Rightarrow> (ReplicateReadResponse \<times> node) option" where
  "ReplicateRead k nd =
     (case isSelfRemoved nd of
        None \<Rightarrow> None
      | Some True \<Rightarrow> Some (\<lparr>rrr_found = False, rrr_value = [], rrr_clock = empty_clock\<rparr>, nd)
      | Some False \<Rightarrow>
          (case localGet nd k of
             Some v \<Rightarrow> Some (\<lparr>rrr_found = True, rrr_value = vv_value v, rrr_clock = vv_clock v\<rparr>, nd)
           | None \<Rightarrow> Some (\<lparr>rrr_found = False, rrr_value = [], rrr_clock = empty_clock\<rparr>, nd)))"

subsection \<open>The store keeps the slot contract\<close>

definition hint_at :: "node_id \<Rightarrow> key \<Rightarrow> node \<Rightarrow> HeldHint option" where
  "hint_at t k nd = (case nd_hints nd t of None \<Rightarrow> None | Some hs \<Rightarrow> map_of hs k)"

lemma wf_hints_update:
  "wf_hints hs \<Longrightarrow> hint_key h = k \<Longrightarrow> wf_clock (hint_clock h) \<Longrightarrow> wf_hints (AList.update k h hs)"
proof -
  assume wf: "wf_hints hs" and h: "hint_key h = k" "wf_clock (hint_clock h)"
  have "set (AList.update k h hs) \<subseteq> insert (k, h) (set hs)"
    by (induction hs) auto
  with wf h show ?thesis by (auto simp: wf_hints_def distinct_keys_update)
qed

lemma wf_hints_Nil [simp]: "wf_hints []"
  by (simp add: wf_hints_def)

lemma wf_hint_table_upd:
  "wf_hint_table ht \<Longrightarrow> wf_hints hs \<Longrightarrow> wf_hint_table (ht(t \<mapsto> hs))"
  by (simp add: wf_hint_table_def)

lemma wf_hint_table_put:
  assumes "wf_hint_table (nd_hints nd)" and "hint_key h = k" and "wf_clock (hint_clock h)"
  shows "wf_hint_table (nd_hints (put_hint t k h nd))"
proof -
  have "wf_hints (case nd_hints nd t of None \<Rightarrow> [] | Some hs \<Rightarrow> hs)"
    using assms(1) by (auto simp: wf_hint_table_def split: option.split)
  with assms show ?thesis
    unfolding put_hint_def by (simp add: wf_hint_table_upd wf_hints_update)
qed

lemma hint_at_put:
  "hint_at u l (put_hint t k h nd) = (if u = t \<and> l = k then Some h else hint_at u l nd)"
  by (auto simp: hint_at_def put_hint_def alist_simps split: option.splits)

lemma hint_at_mark [simp]: "hint_at t k (markUnreachable p nd) = hint_at t k nd"
  by (simp add: hint_at_def markUnreachable_def)

lemma hint_at_wf:
  "wf_hint_table (nd_hints nd) \<Longrightarrow> hint_at t k nd = Some h \<Longrightarrow> hint_key h = k \<and> wf_clock (hint_clock h)"
  by (fastforce simp: hint_at_def wf_hint_table_def wf_hints_def split: option.splits
      dest!: map_of_SomeD)

lemma receiveHint_alt:
  "receiveHint t h nd =
   (case hint_at t (hint_key h) nd of
      Some held \<Rightarrow>
        (if compareVectorClocks (hint_clock held) (hint_clock h) \<in> {DOMINATED, CONCURRENT}
         then put_hint t (hint_key h) h (markUnreachable t nd) else markUnreachable t nd)
    | None \<Rightarrow> put_hint t (hint_key h) h (markUnreachable t nd))"
  by (auto simp: receiveHint_def hint_at_def markUnreachable_def Let_def split: option.splits)

interpretation kv: causal_slot "\<lambda>v nd. snd (storeReplicatedWrite k v nd)" "\<lambda>nd. nd_kv nd k"
  vv_counters "\<lambda>v. wf_clock (vv_clock v)" "\<lambda>nd. wf_store (nd_kv nd)" for k
proof unfold_locales
  fix nd :: node and v :: VersionedValue assume "wf_store (nd_kv nd)" "wf_clock (vv_clock v)"
  then show "wf_store (nd_kv (snd (storeReplicatedWrite k v nd)))"
    by (auto simp: storeReplicatedWrite_def wf_store_def Let_def split: option.splits)
  show "nd_kv (snd (storeReplicatedWrite k v nd)) k =
      (case nd_kv nd k of None \<Rightarrow> Some v
       | Some h \<Rightarrow> if vv_counters v \<le> vv_counters h then Some h else Some v)"
    using \<open>wf_store (nd_kv nd)\<close> \<open>wf_clock (vv_clock v)\<close>
    by (auto simp: storeReplicatedWrite_def Let_def wf_store_def vc.cmp_simps less_le_not_le
        split: option.splits)
next
  fix nd :: node and h :: VersionedValue assume "wf_store (nd_kv nd)" "nd_kv nd k = Some h"
  then show "wf_clock (vv_clock h)" by (auto simp: wf_store_def)
qed

interpretation held: causal_slot "receiveHint t" "hint_at t k" "\<lambda>h. counter_of (hint_clock h)"
  "\<lambda>h. hint_key h = k \<and> wf_clock (hint_clock h)" "\<lambda>nd. wf_hint_table (nd_hints nd)" for t k
proof unfold_locales
  fix nd :: node and h :: HeldHint assume nd: "wf_hint_table (nd_hints nd)" and h: "hint_key h = k \<and> wf_clock (hint_clock h)"
  have m: "wf_hint_table (nd_hints (markUnreachable t nd))"
    using nd by (simp add: markUnreachable_def)
  show "wf_hint_table (nd_hints (receiveHint t h nd))"
    using m h wf_hint_table_put [OF m, of h k t] by (auto simp: receiveHint_alt split: option.splits)
  show "hint_at t k (receiveHint t h nd) =
      (case hint_at t k nd of None \<Rightarrow> Some h
       | Some g \<Rightarrow> if counter_of (hint_clock h) \<le> counter_of (hint_clock g) then Some g else Some h)"
    using h hint_at_wf [OF nd, of t k]
    by (auto simp: receiveHint_alt hint_at_put vc.cmp_simps less_le_not_le split: option.splits)
next
  fix nd :: node and h :: HeldHint assume "wf_hint_table (nd_hints nd)" "hint_at t k nd = Some h"
  then show "hint_key h = k \<and> wf_clock (hint_clock h)" by (rule hint_at_wf)
qed

subsection \<open>Well-formedness of the handlers\<close>

lemma storeReplicatedWrite_frame:
  assumes "storeReplicatedWrite k v nd = (out, nd')"
  shows "\<exists>kv. nd' = nd\<lparr>nd_kv := kv\<rparr> \<and> (\<forall>l. l \<noteq> k \<longrightarrow> kv l = nd_kv nd l)"
proof -
  have "nd' = nd\<lparr>nd_kv := nd_kv nd\<rparr> \<or> nd' = nd\<lparr>nd_kv := (nd_kv nd)(k \<mapsto> v)\<rparr>"
    using assms by (auto simp: storeReplicatedWrite_def Let_def split: option.splits if_splits)
  then show ?thesis
  proof
    assume "nd' = nd\<lparr>nd_kv := nd_kv nd\<rparr>"
    then show ?thesis by blast
  next
    assume "nd' = nd\<lparr>nd_kv := (nd_kv nd)(k \<mapsto> v)\<rparr>"
    then show ?thesis by (intro exI [of _ "(nd_kv nd)(k \<mapsto> v)"]) simp
  qed
qed

lemma wf_storeReplicatedWrite [wf_intros]:
  assumes "wf_node T nd" and "wf_clock (vv_clock v)"
  shows "wf_node T (snd (storeReplicatedWrite k v nd))"
proof -
  obtain out nd' where s: "storeReplicatedWrite k v nd = (out, nd')"
    by (cases "storeReplicatedWrite k v nd")
  from storeReplicatedWrite_frame [OF s] obtain kv where nd': "nd' = nd\<lparr>nd_kv := kv\<rparr>" by blast
  have "wf_store (nd_kv nd')"
    using kv.inv_store [of nd v k] assms s by (simp add: wf_node_def)
  with assms(1) nd' s show ?thesis by (simp add: wf_node_def wf_member_def)
qed

lemma wf_put_hint:
  assumes "wf_node T nd" and "hint_key h = k" and "wf_clock (hint_clock h)"
  shows "wf_node T (put_hint t k h nd)"
  using assms wf_hint_table_put [of nd h k t]
  by (simp add: wf_node_def wf_member_def put_hint_def)

lemma wf_receiveHint [wf_intros]:
  assumes "wf_node T nd" and "wf_clock (hint_clock h)"
  shows "wf_node T (receiveHint t h nd)"
  using wf_markUnreachable [OF assms(1), of t] assms(2)
  by (auto simp: receiveHint_alt wf_put_hint split: option.split)

lemma wf_ReplicateWrite:
  assumes "wf_node T nd" and "wf_clock (rw_clock req)" and "ReplicateWrite req now nd = Some (resp, nd')"
  shows "wf_node T nd'"
proof -
  have "wf_node T (snd (storeReplicatedWrite (rw_key req)
      \<lparr>vv_value = rw_value req, vv_clock = rw_clock req\<rparr> nd))"
    using assms(1,2) by (simp add: wf_intros)
  with assms show ?thesis
    by (auto simp: ReplicateWrite_def Let_def wf_receiveHint split: option.splits bool.splits prod.splits)
qed

lemma ReplicateRead_state: "ReplicateRead k nd = Some (resp, nd') \<Longrightarrow> nd' = nd"
  by (auto simp: ReplicateRead_def split: option.splits bool.splits)

text \<open>What the replica handlers never touch: identity, membership and configuration.\<close>

definition same_member :: "node \<Rightarrow> node \<Rightarrow> bool" where
  "same_member a b \<longleftrightarrow> nd_id a = nd_id b \<and> nd_vnodes a = nd_vnodes b \<and> nd_table a = nd_table b \<and>
     nd_ring a = nd_ring b \<and> nd_N a = nd_N b \<and> nd_W a = nd_W b \<and> nd_R a = nd_R b"

lemma same_member_refl [simp]: "same_member a a"
  by (simp add: same_member_def)

lemma same_member_trans: "same_member a b \<Longrightarrow> same_member b c \<Longrightarrow> same_member a c"
  by (simp add: same_member_def)

lemma same_member_updates [simp]:
  "same_member a (markUnreachable p a)" "same_member a (markReachable p a)"
  "same_member a (put_hint t k h a)" "same_member a (a\<lparr>nd_kv := kv\<rparr>)"
  "same_member a (a\<lparr>nd_hints := ht\<rparr>)"
  by (simp_all add: same_member_def markUnreachable_def markReachable_def put_hint_def)

lemma same_member_receiveHint: "same_member nd (receiveHint t h nd)"
  using same_member_trans [OF same_member_updates(1) same_member_updates(3)]
  by (auto simp: receiveHint_alt split: option.split)

lemma same_member_store: "same_member nd (snd (storeReplicatedWrite k v nd))"
  using storeReplicatedWrite_frame [of k v nd] by (cases "storeReplicatedWrite k v nd") fastforce

lemma same_member_ReplicateWrite:
  "ReplicateWrite req now nd = Some (resp, nd') \<Longrightarrow> same_member nd nd'"
  using same_member_store [of nd "rw_key req" "\<lparr>vv_value = rw_value req, vv_clock = rw_clock req\<rparr>"]
  by (auto simp: ReplicateWrite_def Let_def same_member_receiveHint
      split: option.splits bool.splits prod.splits)

lemma wf_commitCoordinatedWrite [wf_intros]:
  assumes "wf_node T nd" and "wf_clock_opt ctx"
  shows "wf_node T (snd (commitCoordinatedWrite k v ctx now nd))"
    and "wf_clock (fst (commitCoordinatedWrite k v ctx now nd))"
proof -
  have loc: "wf_clock_opt (map_option vv_clock (nd_kv nd k))"
    using assms(1) by (auto simp: wf_node_def wf_store_def wf_clock_opt_def)
  show "wf_clock (fst (commitCoordinatedWrite k v ctx now nd))"
    using assms(2) loc by (simp add: commitCoordinatedWrite_def Let_def wf_intros)
  then show "wf_node T (snd (commitCoordinatedWrite k v ctx now nd))"
    using assms(1)
    by (auto simp: commitCoordinatedWrite_def Let_def wf_node_def wf_member_def wf_store_def)
qed


subsection \<open>Properties\<close>

text \<open>
What storing a replicated version does: it is refused as \<open>ALREADY_CURRENT\<close> exactly when the held
version is equal or newer, and then nothing changes; otherwise it becomes the held version.  Either
way no other key changes, what is held afterwards covers the new version and is not older than what
was held, the state stays well-formed, and storing the same version again is refused.
\<close>
theorem storeReplicatedWrite_correct:
  assumes "wf_node T nd" and "wf_clock (vv_clock v)" and "storeReplicatedWrite k v nd = (out, nd')"
  shows "(out = ALREADY_CURRENT \<longleftrightarrow> (\<exists>h. nd_kv nd k = Some h \<and>
           compareVectorClocks (vv_clock h) (vv_clock v) \<in> {EQUAL, DOMINATES})) \<and>
    (out = ALREADY_CURRENT \<longrightarrow> nd' = nd) \<and>
    (out = STORED \<longrightarrow> nd' = nd\<lparr>nd_kv := (nd_kv nd)(k \<mapsto> v)\<rparr>) \<and>
    (\<exists>h'. nd_kv nd' k = Some h' \<and> compareVectorClocks (vv_clock v) (vv_clock h') \<in> {EQUAL, DOMINATED} \<and>
       (\<forall>h. nd_kv nd k = Some h \<longrightarrow> compareVectorClocks (vv_clock h') (vv_clock h) \<noteq> DOMINATED)) \<and>
    storeReplicatedWrite k v nd' = (ALREADY_CURRENT, nd') \<and> wf_node T nd'"
proof -
  have st: "wf_store (nd_kv nd)" using assms(1) by (simp add: wf_node_def)
  have nd': "nd' = snd (storeReplicatedWrite k v nd)" by (simp add: assms(3))
  obtain h' where h': "nd_kv nd' k = Some h'" "vv_counters v \<le> vv_counters h'"
    using kv.store_covers [OF st assms(2)] nd' by blast
  have wf': "wf_node T nd'" unfolding nd' by (rule wf_storeReplicatedWrite [OF assms(1,2)])
  then have wfh': "wf_clock (vv_clock h')" using h'(1) by (auto simp: wf_node_def wf_store_def)
  have old: "compareVectorClocks (vv_clock h') (vv_clock h) \<noteq> DOMINATED" if "nd_kv nd k = Some h" for h
    using kv.store_not_older [OF st assms(2) that, of h'] h'(1) nd' wfh' st that
    by (auto simp: vc.cmp_DOMINATED wf_store_def)
  have covers: "compareVectorClocks (vv_clock v) (vv_clock h') \<in> {EQUAL, DOMINATED}"
    using h'(2) assms(2) wfh' by (auto simp: vc.cmp_simps le_less)
  have "compareVectorClocks (vv_clock h') (vv_clock v) \<in> {EQUAL, DOMINATES}"
    using covers assms(2) wfh' by (auto simp: vc.cmp_simps)
  then have again: "storeReplicatedWrite k v nd' = (ALREADY_CURRENT, nd')"
    using h'(1) by (auto simp: storeReplicatedWrite_def)
  have "(out = ALREADY_CURRENT \<longleftrightarrow> (\<exists>h. nd_kv nd k = Some h \<and>
      compareVectorClocks (vv_clock h) (vv_clock v) \<in> {EQUAL, DOMINATES}))"
    "out = ALREADY_CURRENT \<longrightarrow> nd' = nd" "out = STORED \<longrightarrow> nd' = nd\<lparr>nd_kv := (nd_kv nd)(k \<mapsto> v)\<rparr>"
    using assms(3) by (auto simp: storeReplicatedWrite_def Let_def split: option.splits if_splits)
  with old covers again wf' h'(1) show ?thesis by blast
qed

theorem storeReplicatedWrite_correct_witness:
  "storeReplicatedWrite ''k'' (vv ''y'' (clk [(''B'', 1)] 9 ''B''))
     (snd (storeReplicatedWrite ''k'' (vv ''y'' (clk [(''B'', 1)] 9 ''B'')) (NodeServiceImpl ''A'' 1 3 2 2 1))) =
   (ALREADY_CURRENT,
     snd (storeReplicatedWrite ''k'' (vv ''y'' (clk [(''B'', 1)] 9 ''B'')) (NodeServiceImpl ''A'' 1 3 2 2 1)))"
proof -
  let ?T = "\<lambda>n. if n = ''A'' then set (computeTokens ''A'' 1) else {}"
  have "wf_node ?T (NodeServiceImpl ''A'' 1 3 2 2 1)" by (rule wf_NodeServiceImpl) (simp_all add: valid_quorum_def)
  moreover have "wf_clock (vv_clock (vv ''y'' (clk [(''B'', 1)] 9 ''B'')))" by (simp add: wf_clock_def)
  ultimately show ?thesis
    by (rule storeReplicatedWrite_correct [OF _ _ prod.collapse [symmetric],
          THEN conjunct2, THEN conjunct2, THEN conjunct2, THEN conjunct2, THEN conjunct1])
qed

lemma stores_chain_final:
  assumes "wf_store (nd_kv nd)" and "nd_kv nd k = None"
    and "\<forall>v \<in> set vs. wf_clock (vv_clock v)"
    and "\<forall>x \<in> set vs. \<forall>y \<in> set vs. vv_counters x \<le> vv_counters y \<or> vv_counters y \<le> vv_counters x"
    and "vs \<noteq> []"
  shows "\<exists>h \<in> set vs. nd_kv (fold (\<lambda>v nd. snd (storeReplicatedWrite k v nd)) vs nd) k = Some h \<and>
    (\<forall>x \<in> set vs. vv_counters x \<le> vv_counters h)"
proof -
  let ?f = "fold (\<lambda>v nd. snd (storeReplicatedWrite k v nd)) vs nd"
  have ok: "list_all (\<lambda>v. wf_clock (vv_clock v)) vs" using assms(3) by (simp add: list_all_iff)
  have chain: "x \<in> set vs \<Longrightarrow> \<exists>h. nd_kv ?f k = Some h \<and> vv_counters x \<le> vv_counters h" for x
    by (rule kv.stores_chain [OF assms(1) ok]) (use assms(2,4) in auto)
  then obtain h where h: "nd_kv ?f k = Some h" using assms(5) by (cases vs) auto
  then have "h \<in> set vs" using kv.stores_in [OF assms(1) ok h] assms(2) by simp
  with h chain show ?thesis by fastforce
qed

text \<open>
Replicas converge on causally ordered versions: two replicas that start without the key and
receive the same versions, pairwise comparable, in any two orders (with any repetitions) end with
versions of equal clocks, and no version either of them received is newer.
\<close>
theorem replicas_converge_on_chain:
  assumes "wf_node T a" and "wf_node S b" and "nd_kv a k = None" and "nd_kv b k = None"
    and "\<forall>v \<in> set vs. wf_clock (vv_clock v)"
    and "\<forall>x \<in> set vs. \<forall>y \<in> set vs. compareVectorClocks (vv_clock x) (vv_clock y) \<noteq> CONCURRENT"
    and "set vs = set us" and "vs \<noteq> []"
  shows "\<exists>g h. nd_kv (fold (\<lambda>v nd. snd (storeReplicatedWrite k v nd)) vs a) k = Some g \<and>
    nd_kv (fold (\<lambda>v nd. snd (storeReplicatedWrite k v nd)) us b) k = Some h \<and>
    compareVectorClocks (vv_clock g) (vv_clock h) = EQUAL \<and>
    (\<forall>x \<in> set vs. compareVectorClocks (vv_clock g) (vv_clock x) \<in> {EQUAL, DOMINATES})"
proof -
  have ord: "\<forall>x \<in> set vs. \<forall>y \<in> set vs. vv_counters x \<le> vv_counters y \<or> vv_counters y \<le> vv_counters x"
    using assms(5,6) by (auto simp: vc.cmp_CONCURRENT)
  have sa: "wf_store (nd_kv a)" and sb: "wf_store (nd_kv b)"
    using assms(1,2) by (auto simp: wf_node_def)
  have us: "us \<noteq> []" using assms(7,8) by auto
  obtain g where g: "g \<in> set vs" "nd_kv (fold (\<lambda>v nd. snd (storeReplicatedWrite k v nd)) vs a) k = Some g"
    "\<forall>x \<in> set vs. vv_counters x \<le> vv_counters g"
    using stores_chain_final [OF sa assms(3,5) ord assms(8)] by blast
  obtain h where h: "h \<in> set us" "nd_kv (fold (\<lambda>v nd. snd (storeReplicatedWrite k v nd)) us b) k = Some h"
    "\<forall>x \<in> set us. vv_counters x \<le> vv_counters h"
    using stores_chain_final [OF sb assms(4), of us] assms(5,7) ord us by auto
  have "vv_counters g = vv_counters h" using g h assms(7) by (simp add: order_antisym)
  then have "compareVectorClocks (vv_clock g) (vv_clock h) = EQUAL"
    using g(1) h(1) assms(5,7) by (simp add: vc.cmp_EQUAL)
  moreover have "\<forall>x \<in> set vs. compareVectorClocks (vv_clock g) (vv_clock x) \<in> {EQUAL, DOMINATES}"
    using g(1,3) assms(5) by (auto simp: vc.cmp_simps le_less)
  ultimately show ?thesis using g(2) h(2) by blast
qed


theorem replicas_converge_on_chain_witness:
  "\<exists>g h. nd_kv (fold (\<lambda>v nd. snd (storeReplicatedWrite ''k'' v nd))
       [vv ''x'' (clk [(''A'', 1)] 5 ''A''), vv ''y'' (clk [(''A'', 2)] 6 ''A'')]
       (NodeServiceImpl ''A'' 0 3 2 2 1)) ''k'' = Some g \<and>
     nd_kv (fold (\<lambda>v nd. snd (storeReplicatedWrite ''k'' v nd))
       [vv ''y'' (clk [(''A'', 2)] 6 ''A''), vv ''x'' (clk [(''A'', 1)] 5 ''A'')]
       (NodeServiceImpl ''B'' 0 3 2 2 1)) ''k'' = Some h \<and>
     compareVectorClocks (vv_clock g) (vv_clock h) = EQUAL"
proof -
  let ?x = "vv ''x'' (clk [(''A'', 1)] 5 ''A'')" and ?y = "vv ''y'' (clk [(''A'', 2)] 6 ''A'')"
  have wf: "wf_node (\<lambda>_. {}) (NodeServiceImpl n 0 3 2 2 1)" for n
    by (rule wf_NodeServiceImpl) (simp_all add: computeTokens_def valid_quorum_def)
  have "\<forall>v \<in> set [?x, ?y]. wf_clock (vv_clock v)" by (simp add: wf_clock_def)
  moreover have "\<forall>x \<in> set [?x, ?y]. \<forall>y \<in> set [?x, ?y].
      compareVectorClocks (vv_clock x) (vv_clock y) \<noteq> CONCURRENT"
    by (simp add: compareVectorClocks_def)
  ultimately show ?thesis
    using replicas_converge_on_chain [OF wf wf, of "''A''" "''k''" "''B''" "[?x, ?y]" "[?y, ?x]"]
    by (auto simp: NodeServiceImpl_def Let_def)
qed

text \<open>
Dominance alone does not protect against a late delivery once a concurrent version is involved: if
a replica receives \<open>new\<close>, then \<open>other\<close> and then a delayed \<open>old\<close>, where \<open>new\<close> dominates
\<open>old\<close> and \<open>other\<close> is concurrent with both, it ends with \<open>old\<close>, the version already superseded;
in the causal order \<open>old\<close>, \<open>new\<close>, \<open>other\<close> it ends with \<open>other\<close>.
\<close>
theorem late_delivery_resurrects:
  assumes "compareVectorClocks (vv_clock new) (vv_clock old) = DOMINATES"
    and "compareVectorClocks (vv_clock new) (vv_clock other) = CONCURRENT"
    and "compareVectorClocks (vv_clock other) (vv_clock old) = CONCURRENT"
    and "compareVectorClocks (vv_clock old) (vv_clock new) = DOMINATED"
    and "nd_kv nd k = None"
  shows "nd_kv (fold (\<lambda>v nd. snd (storeReplicatedWrite k v nd)) [new, other, old] nd) k = Some old \<and>
    nd_kv (fold (\<lambda>v nd. snd (storeReplicatedWrite k v nd)) [old, new, other] nd) k = Some other"
  using assms by (simp add: storeReplicatedWrite_def)

theorem late_delivery_resurrects_witness:
  "nd_kv (fold (\<lambda>v nd. snd (storeReplicatedWrite ''k'' v nd))
       [vv ''new'' (clk [(''A'', 2)] 6 ''A''), vv ''other'' (clk [(''B'', 1)] 7 ''B''),
        vv ''old'' (clk [(''A'', 1)] 5 ''A'')]
       (NodeServiceImpl ''C'' 0 3 2 2 1)) ''k'' = Some (vv ''old'' (clk [(''A'', 1)] 5 ''A''))"
  using late_delivery_resurrects [of "vv ''new'' (clk [(''A'', 2)] 6 ''A'')"
      "vv ''old'' (clk [(''A'', 1)] 5 ''A'')" "vv ''other'' (clk [(''B'', 1)] 7 ''B'')"
      "NodeServiceImpl ''C'' 0 3 2 2 1" "''k''"]
  by (simp add: compareVectorClocks_def NodeServiceImpl_def Let_def)

text \<open>
The coordinator's own write: what it stores under the key is the value with the returned clock,
which is causally newer than both the client's context and the version it replaces (so
\<open>storeReplicatedWrite\<close> on any node holding either accepts it), unless the coordinator's counter has
reached its maximum; other keys, the hints and the membership are untouched.
\<close>
theorem commitCoordinatedWrite_supersedes:
  assumes "wf_node T nd" and "wf_clock_opt ctx"
    and "base_counter ctx (map_option vv_clock (nd_kv nd k)) (nd_id nd) \<noteq> - 1"
    and "commitCoordinatedWrite k v ctx now nd = (clock, nd')"
  shows "nd' = nd\<lparr>nd_kv := (nd_kv nd)(k \<mapsto> \<lparr>vv_value = v, vv_clock = clock\<rparr>)\<rparr> \<and> wf_node T nd' \<and>
    compareVectorClocks clock (value_or_empty ctx) = DOMINATES \<and>
    (\<forall>h. nd_kv nd k = Some h \<longrightarrow> compareVectorClocks clock (vv_clock h) = DOMINATES) \<and>
    (\<forall>other. (\<exists>h. nd_kv other k = Some h \<and> (Some (vv_clock h) = ctx \<or> nd_kv nd k = Some h)) \<longrightarrow>
       fst (storeReplicatedWrite k \<lparr>vv_value = v, vv_clock = clock\<rparr> other) = STORED)"
proof -
  let ?loc = "map_option vv_clock (nd_kv nd k)"
  have loc: "wf_clock_opt ?loc"
    using assms(1) by (auto simp: wf_node_def wf_store_def wf_clock_opt_def)
  have c: "clock = buildNewClock ctx ?loc (nd_id nd) now"
    and nd': "nd' = nd\<lparr>nd_kv := (nd_kv nd)(k \<mapsto> \<lparr>vv_value = v, vv_clock = clock\<rparr>)\<rparr>"
    using assms(4) by (auto simp: commitCoordinatedWrite_def Let_def)
  have wfc: "wf_clock clock" unfolding c by (rule wf_buildNewClock [OF assms(2) loc])
  note above = buildNewClock_above [OF assms(2) loc assms(3), of now, folded c]
  have dom: "compareVectorClocks clock (value_or_empty ctx) = DOMINATES"
    using above(1) assms(2) wfc by (simp add: vc.cmp_DOMINATES wf_intros)
  have held: "compareVectorClocks clock (vv_clock h) = DOMINATES" if "nd_kv nd k = Some h" for h
    using above(2) that loc wfc by (simp add: vc.cmp_DOMINATES)
  have stored: "fst (storeReplicatedWrite k \<lparr>vv_value = v, vv_clock = clock\<rparr> other) = STORED"
    if "nd_kv other k = Some h" "Some (vv_clock h) = ctx \<or> nd_kv nd k = Some h" for other h
  proof -
    have "compareVectorClocks clock (vv_clock h) = DOMINATES" "wf_clock (vv_clock h)"
      using that(2) dom held assms(1,2) by (auto simp: wf_node_def wf_store_def)
    then have "compareVectorClocks (vv_clock h) clock = DOMINATED"
      using wfc by (simp add: vc.cmp_simps)
    with that(1) show ?thesis by (simp add: storeReplicatedWrite_def)
  qed
  have "wf_node T nd'" using wf_commitCoordinatedWrite(1) [OF assms(1,2), of k v now] assms(4) by simp
  with nd' dom held stored show ?thesis by blast
qed

theorem commitCoordinatedWrite_supersedes_witness:
  "compareVectorClocks
     (fst (commitCoordinatedWrite ''k'' ''v'' (Some (clk [(''B'', 4)] 3 ''B'')) 9 (NodeServiceImpl ''A'' 0 3 2 2 1)))
     (clk [(''B'', 4)] 3 ''B'') = DOMINATES"
proof -
  let ?nd = "NodeServiceImpl ''A'' 0 3 2 2 1" and ?ctx = "Some (clk [(''B'', 4)] 3 ''B'')"
  have "wf_node (\<lambda>_. {}) ?nd" by (rule wf_NodeServiceImpl) (simp_all add: computeTokens_def valid_quorum_def)
  moreover have "wf_clock_opt ?ctx" by (simp add: wf_clock_def)
  moreover have "base_counter ?ctx (map_option vv_clock (nd_kv ?nd ''k'')) (nd_id ?nd) \<noteq> - 1"
    by (simp add: base_counter_def NodeServiceImpl_def Let_def counter_of_def count_in_def empty_clock_def)
  ultimately have "compareVectorClocks (fst (commitCoordinatedWrite ''k'' ''v'' ?ctx 9 ?nd))
      (value_or_empty ?ctx) = DOMINATES"
    by (rule commitCoordinatedWrite_supersedes [OF _ _ _ prod.collapse [symmetric],
          THEN conjunct2, THEN conjunct2, THEN conjunct1])
  then show ?thesis by simp
qed


text \<open>
The contract of the replica handler on a well-formed node: it never throws, refuses exactly when
the node is removed and then changes nothing; a plain write stores the version and touches no hint; a
hinted write marks the true owner unreachable, leaves the node's own versions alone, and afterwards
the hint held for that owner covers the version.  A success therefore means that the version or a
causally newer one is held where it was sent.
\<close>
theorem ReplicateWrite_contract:
  assumes "wf_node T nd" and "wf_clock (rw_clock req)"
  shows "\<exists>resp nd'. ReplicateWrite req now nd = Some (resp, nd') \<and> wf_node T nd' \<and>
    (rwr_success resp \<longleftrightarrow> isSelfRemoved nd = Some False) \<and> (\<not> rwr_success resp \<longrightarrow> nd' = nd) \<and>
    (rwr_success resp \<longrightarrow>
       (case rw_hint_for req of
          None \<Rightarrow> nd_hints nd' = nd_hints nd \<and> (\<exists>h. nd_kv nd' (rw_key req) = Some h \<and>
            compareVectorClocks (rw_clock req) (vv_clock h) \<in> {EQUAL, DOMINATED})
        | Some t \<Rightarrow> nd_kv nd' = nd_kv nd \<and> t \<in> set (nd_unreachable nd') \<and>
            (\<exists>h. hint_at t (rw_key req) nd' = Some h \<and>
               compareVectorClocks (rw_clock req) (hint_clock h) \<in> {EQUAL, DOMINATED})))"
proof -
  obtain b where b: "isSelfRemoved nd = Some b"
    using assms(1) isSelfRemoved_total by (auto simp: wf_node_def)
  let ?k = "rw_key req" and ?v = "\<lparr>vv_value = rw_value req, vv_clock = rw_clock req\<rparr>"
  show ?thesis
  proof (cases b)
    case True
    with b assms(1) show ?thesis by (simp add: ReplicateWrite_def)
  next
    case False
    show ?thesis
    proof (cases "rw_hint_for req")
      case None
      obtain out nd' where s: "storeReplicatedWrite ?k ?v nd = (out, nd')"
        by (cases "storeReplicatedWrite ?k ?v nd")
      have nd': "nd' = snd (storeReplicatedWrite ?k ?v nd)" by (simp add: s)
      have wf': "wf_node T nd'" unfolding nd' by (rule wf_storeReplicatedWrite) (use assms in simp_all)
      obtain h where h: "nd_kv nd' ?k = Some h" "counter_of (rw_clock req) \<le> vv_counters h"
        using kv.store_covers [of nd ?v ?k] assms nd' by (auto simp: wf_node_def)
      moreover have "wf_clock (vv_clock h)" using h(1) wf' by (auto simp: wf_node_def wf_store_def)
      ultimately have "compareVectorClocks (rw_clock req) (vv_clock h) \<in> {EQUAL, DOMINATED}"
        using assms(2) by (auto simp: vc.cmp_simps le_less)
      moreover have "nd_hints nd' = nd_hints nd" using storeReplicatedWrite_frame [OF s] by auto
      ultimately show ?thesis using b False None s wf' h(1) by (simp add: ReplicateWrite_def)
    next
      case (Some t)
      let ?h = "\<lparr>hint_key = ?k, hint_value = rw_value req, hint_clock = rw_clock req, hint_created_at = now\<rparr>"
      let ?nd = "receiveHint t ?h nd"
      have wf': "wf_node T ?nd" by (rule wf_receiveHint) (use assms in simp_all)
      obtain g where g: "hint_at t ?k ?nd = Some g" "counter_of (rw_clock req) \<le> counter_of (hint_clock g)"
        using held.store_covers [of nd ?h ?k t] assms by (auto simp: wf_node_def)
      moreover have "wf_clock (hint_clock g)"
        using hint_at_wf [OF _ g(1)] wf' by (auto simp: wf_node_def)
      ultimately have "compareVectorClocks (rw_clock req) (hint_clock g) \<in> {EQUAL, DOMINATED}"
        using assms(2) by (auto simp: vc.cmp_simps le_less)
      moreover have "nd_kv ?nd = nd_kv nd" "t \<in> set (nd_unreachable ?nd)"
        by (auto simp: receiveHint_alt put_hint_def markUnreachable_def split: option.split)
      ultimately show ?thesis using b False Some wf' g(1) by (simp add: ReplicateWrite_def)
    qed
  qed
qed

theorem ReplicateWrite_contract_witness:
  "\<exists>resp nd'. ReplicateWrite \<lparr>rw_key = ''k'', rw_value = ''v'', rw_clock = clk [(''B'', 1)] 3 ''B'',
       rw_hint_for = Some ''C''\<rparr> 9 (NodeServiceImpl ''A'' 0 3 2 2 1) = Some (resp, nd') \<and>
     rwr_success resp \<and> (\<exists>h. hint_at ''C'' ''k'' nd' = Some h)"
proof -
  let ?nd = "NodeServiceImpl ''A'' 0 3 2 2 1"
  have wf: "wf_node (\<lambda>_. {}) ?nd" by (rule wf_NodeServiceImpl) (simp_all add: computeTokens_def valid_quorum_def)
  have "isSelfRemoved ?nd = Some False"
    by (simp add: isSelfRemoved_def NodeServiceImpl_def Let_def)
  with ReplicateWrite_contract [OF wf, of "\<lparr>rw_key = ''k'', rw_value = ''v'',
      rw_clock = clk [(''B'', 1)] 3 ''B'', rw_hint_for = Some ''C''\<rparr>" 9]
  show ?thesis by (auto simp: wf_clock_def)
qed

end
