(* ===== verification/Membership.thy ===== *)
theory Membership
  imports Node_State
begin

text \<open>
  The node-local part of \<^verbatim>\<open>src/src/node_membership.cpp\<close> and
  \<^verbatim>\<open>node_status.cpp\<close>: removal of a node, the merge of a gossiped table under the table
  mutex, the \<open>GossipExchange\<close> handler, the choice of a gossip partner, and the status dumps.
\<close>

record GossipRequest =
  gq_sender :: node_id
  gq_table :: MembershipTable

record GossipResponse =
  gr_responder :: node_id
  gr_table :: MembershipTable

record StatusResponse =
  sr_node_id :: node_id
  sr_table_dump :: string
  sr_ring_dump :: string

subsection \<open>Operations\<close>

definition RemoveNode :: "node_id \<Rightarrow> millis \<Rightarrow> node \<Rightarrow> bool \<times> node" where
  "RemoveNode n now nd =
     (case map_of (nd_table nd) n of
        None \<Rightarrow> (False, nd)
      | Some e \<Rightarrow>
          if status e = REMOVED then (True, nd)
          else (True, nd\<lparr>nd_ring := erase_tokens (tokens e) (nd_ring nd),
                 nd_table := AList.update n
                   (e\<lparr>status := REMOVED, me_writer_id := nd_id nd, tokens := [], me_last_updated := now\<rparr>)
                   (nd_table nd)\<rparr>))"

definition applyGossip :: "MembershipTable \<Rightarrow> node \<Rightarrow> MembershipTable \<times> node" where
  "applyGossip incoming nd =
     (let (tbl, r) = mergeInto (nd_table nd) incoming (nd_ring nd)
      in (tbl, nd\<lparr>nd_table := tbl, nd_ring := r\<rparr>))"

definition GossipExchange :: "GossipRequest \<Rightarrow> node \<Rightarrow> GossipResponse \<times> node" where
  "GossipExchange req nd =
     (let (merged, nd') = applyGossip (gq_table req) nd
      in (\<lparr>gr_responder = nd_id nd, gr_table = merged\<rparr>, nd'))"

text \<open>\<open>pick\<close> is the random number drawn; the distribution ranges over the candidates' indices.\<close>

definition gossip_candidates :: "node_id \<Rightarrow> MembershipTable \<Rightarrow> string list" where
  "gossip_candidates self snapshot =
     map (\<lambda>(n, e). address e) (filter (\<lambda>(n, e). n \<noteq> self \<and> status e = UP) snapshot)"

definition selectGossipTarget :: "node_id \<Rightarrow> MembershipTable \<Rightarrow> nat \<Rightarrow> string option" where
  "selectGossipTarget self snapshot pick =
     (let candidates = gossip_candidates self snapshot
      in if candidates = [] then None else Some (candidates ! (pick mod length candidates)))"

subsection \<open>Status\<close>

definition int_to_string :: "int \<Rightarrow> string" where
  "int_to_string i = (if i < 0 then ''-'' @ to_string (nat (- i)) else to_string (nat i))"

definition dump_entry :: "MembershipTable \<Rightarrow> node_id \<Rightarrow> string" where
  "dump_entry tbl k =
     (case map_of tbl k of
        None \<Rightarrow> []
      | Some e \<Rightarrow> k @ '':'' @ (if status e = UP then ''UP'' else ''REMOVED'') @ '':w='' @ me_writer_id e @
          '':t='' @ int_to_string (me_last_updated e))"

fun comma_separated :: "string list \<Rightarrow> string" where
  "comma_separated [] = []"
| "comma_separated [s] = s"
| "comma_separated (s # ss) = s @ '','' @ comma_separated ss"

definition dumpTable :: "MembershipTable \<Rightarrow> string" where
  "dumpTable tbl =
     (let ks = sort (map fst tbl)
      in ''table_size='' @ to_string (length ks) @ '' entries=['' @
         comma_separated (map (dump_entry tbl) ks) @ '']'')"

definition dumpRing :: "ring \<Rightarrow> string" where
  "dumpRing r = ''ring_size='' @ to_string (length r) @ '' tokens=['' @
     comma_separated (map (\<lambda>(t, n). to_string (unat t) @ '':'' @ n) r) @ '']''"

definition Ping :: "node \<Rightarrow> node_id" where
  "Ping nd = nd_id nd"

definition GetStatus :: "node \<Rightarrow> StatusResponse" where
  "GetStatus nd = \<lparr>sr_node_id = nd_id nd, sr_table_dump = dumpTable (nd_table nd),
     sr_ring_dump = dumpRing (nd_ring nd)\<rparr>"

subsection \<open>Well-formedness\<close>

lemma wf_RemoveNode [wf_intros]:
  assumes "wf_node T nd" and "tokens_disjoint T"
  shows "wf_node T (snd (RemoveNode n now nd))"
proof (cases "map_of (nd_table nd) n")
  case None
  with assms(1) show ?thesis by (simp add: RemoveNode_def)
next
  case (Some e)
  let ?d = "e\<lparr>status := REMOVED, me_writer_id := nd_id nd, tokens := [], me_last_updated := now\<rparr>"
  have m: "wf_member T nd" using assms(1) by (simp add: wf_node_def)
  show ?thesis
  proof (cases "status e")
    case UP
    have "ring_ok (AList.update n ?d (nd_table nd)) (erase_tokens (tokens e) (nd_ring nd))"
      using m by (intro ring_ok_down [OF _ _ assms(2) Some UP]) (auto simp: wf_member_def)
    moreover have "table_ok T (AList.update n ?d (nd_table nd))"
      using m by (intro table_ok_update) (auto simp: wf_member_def entry_ok_def)
    ultimately show ?thesis
      using assms(1) UP Some
      by (auto simp: RemoveNode_def wf_node_def wf_member_def alist_simps)
  next
    case REMOVED
    with assms(1) Some show ?thesis by (simp add: RemoveNode_def)
  qed
qed

lemma applyGossip_table: "nd_table (snd (applyGossip inc nd)) = fst (applyGossip inc nd)"
  by (simp add: applyGossip_def split: prod.split)

lemma applyGossip_fst: "fst (applyGossip inc nd) = fst (mergeInto (nd_table nd) inc (nd_ring nd))"
  by (simp add: applyGossip_def split: prod.split)

lemma wf_applyGossip [wf_intros]:
  assumes "wf_node T nd" and "tokens_disjoint T" and "table_ok T inc"
  shows "wf_node T (snd (applyGossip inc nd))" and "table_ok T (fst (applyGossip inc nd))"
proof -
  obtain tbl r where m: "mergeInto (nd_table nd) inc (nd_ring nd) = (tbl, r)"
    by (cases "mergeInto (nd_table nd) inc (nd_ring nd)")
  have wf: "table_ok T (nd_table nd)" "ring_ok (nd_table nd) (nd_ring nd)"
    "nd_id nd \<in> fst ` set (nd_table nd)"
    using assms(1) by (auto simp: wf_node_def wf_member_def)
  have "table_ok T tbl" "ring_ok tbl r"
    using mergeInto_ring_ok [OF wf(2,1) assms(2,3)] m by auto
  moreover have "nd_id nd \<in> fst ` set tbl"
    using mergeInto_keys [of "nd_table nd" inc "nd_ring nd"] wf(3) m by auto
  ultimately show "wf_node T (snd (applyGossip inc nd))" "table_ok T (fst (applyGossip inc nd))"
    using assms(1) by (auto simp: applyGossip_def m wf_node_def wf_member_def)
qed

lemma wf_GossipExchange:
  assumes "wf_node T nd" and "tokens_disjoint T" and "table_ok T (gq_table req)"
  shows "wf_node T (snd (GossipExchange req nd))" and "table_ok T (gr_table (fst (GossipExchange req nd)))"
  using wf_applyGossip [OF assms] by (auto simp: GossipExchange_def split: prod.splits)

lemma selectGossipTarget_SomeD:
  "selectGossipTarget self tbl pick = Some a \<Longrightarrow>
   \<exists>n e. (n, e) \<in> set tbl \<and> n \<noteq> self \<and> status e = UP \<and> a = address e"
proof -
  assume s: "selectGossipTarget self tbl pick = Some a"
  let ?c = "gossip_candidates self tbl"
  have "?c \<noteq> []" "a = ?c ! (pick mod length ?c)"
    using s by (auto simp: selectGossipTarget_def Let_def split: if_splits)
  then have "a \<in> set ?c" by simp
  then show ?thesis by (auto simp: gossip_candidates_def)
qed

lemma RemoveNode_removed:
  "(\<And>e. map_of (nd_table d) n = Some e \<Longrightarrow> status e = REMOVED) \<Longrightarrow>
   RemoveNode n a d = (map_of (nd_table d) n \<noteq> None, d)"
  by (cases "map_of (nd_table d) n") (auto simp: RemoveNode_def)

lemma RemoveNode_accepts: "fst (RemoveNode n now nd) \<longleftrightarrow> map_of (nd_table nd) n \<noteq> None"
  by (auto simp: RemoveNode_def split: option.splits)

lemma RemoveNode_entry:
  "(map_of (nd_table (snd (RemoveNode n now nd))) n \<noteq> None) = (map_of (nd_table nd) n \<noteq> None)"
  by (auto simp: RemoveNode_def alist_simps split: option.splits)

subsection \<open>Properties\<close>


end
