(* ===== verification/Cluster.thy ===== *)
theory Cluster
  imports Replica Membership
begin

text \<open>
  Several server processes and the calls between them.  gRPC and the operating system are not part of
  the repository; what the code relies on is this: a unary call runs the handler of the target at most
  once, and \<open>status.ok()\<close> holds only if it ran and its response came back.  So each call has one
  of three fates, and a call to an address where no process listens fails.

  Everything the program does not determine comes from an environment: the fate of the call at each
  point in time, the readings of the clock (\<open>nowMillis()\<close>), and the choices of the random number
  generator and of the thread scheduler.  Time is the number of environment questions asked so far, so
  a statement about all environments covers every failure pattern, every clock and every schedule.
\<close>

datatype fate = Delivered | RequestLost | ReplyLost

record env =
  fate_at :: "nat \<Rightarrow> fate"
  clock_at :: "nat \<Rightarrow> millis"
  choice_at :: "nat \<Rightarrow> nat"

text \<open>A detached read-repair thread that has not run yet.\<close>

record repair_job =
  job_node :: node_id
  job_key :: key
  job_winner :: VersionedValue
  job_peers :: "node_id list"

record world =
  nodes :: "node_id \<rightharpoonup> node"
  jobs :: "repair_job list"
  tick :: nat

definition advance :: "world \<Rightarrow> world" where
  "advance w = w\<lparr>tick := tick w + 1\<rparr>"

definition set_node :: "node_id \<Rightarrow> node \<Rightarrow> world \<Rightarrow> world" where
  "set_node a nd w = w\<lparr>nodes := (nodes w)(a \<mapsto> nd)\<rparr>"

text \<open>A process's own step on its state; a process that does not run takes none.\<close>

definition update_node :: "node_id \<Rightarrow> (node \<Rightarrow> node) \<Rightarrow> world \<Rightarrow> world" where
  "update_node a f w = (case nodes w a of None \<Rightarrow> w | Some nd \<Rightarrow> set_node a (f nd) w)"

text \<open>
  A call to a handler of the target: \<open>None\<close> is a status that is not ok (no process, a lost
  request or reply, or an exception in the handler).
\<close>

definition rpc :: "env \<Rightarrow> node_id \<Rightarrow> (millis \<Rightarrow> node \<Rightarrow> ('r \<times> node) option) \<Rightarrow> world \<Rightarrow> 'r option \<times> world" where
  "rpc E target handler w =
     (let w1 = advance w
      in case nodes w target of
           None \<Rightarrow> (None, w1)
         | Some nd \<Rightarrow>
             if fate_at E (tick w) = RequestLost then (None, w1)
             else (case handler (clock_at E (tick w)) nd of
                     None \<Rightarrow> (None, w1)
                   | Some (resp, nd') \<Rightarrow>
                       (if fate_at E (tick w) = ReplyLost then None else Some resp,
                        set_node target nd' w1)))"

subsection \<open>Well-formed worlds\<close>

definition wf_job :: "repair_job \<Rightarrow> bool" where
  "wf_job j \<longleftrightarrow> wf_clock (vv_clock (job_winner j))"

definition wf_world :: "(node_id \<Rightarrow> u64 set) \<Rightarrow> world \<Rightarrow> bool" where
  "wf_world T w \<longleftrightarrow> (\<forall>a nd. nodes w a = Some nd \<longrightarrow> wf_node T nd \<and> nd_id nd = a) \<and>
     (\<forall>j \<in> set (jobs w). wf_job j)"

lemma nodes_simps [simp]:
  "nodes (advance w) = nodes w" "jobs (advance w) = jobs w" "tick (advance w) = Suc (tick w)"
  "nodes (set_node a nd w) = (nodes w)(a \<mapsto> nd)" "jobs (set_node a nd w) = jobs w"
  "tick (set_node a nd w) = tick w"
  by (simp_all add: advance_def set_node_def)

lemma nodes_update:
  "nodes (update_node a f w) b = (if b = a then map_option f (nodes w a) else nodes w b)"
  by (auto simp: update_node_def split: option.split)

lemma update_node_frame [simp]:
  "jobs (update_node a f w) = jobs w" "tick (update_node a f w) = tick w"
  by (simp_all add: update_node_def split: option.split)

lemma wf_worldD:
  "wf_world T w \<Longrightarrow> nodes w a = Some nd \<Longrightarrow> wf_node T nd \<and> nd_id nd = a"
  by (simp add: wf_world_def)

lemma wf_advance [wf_intros]: "wf_world T w \<Longrightarrow> wf_world T (advance w)"
  by (simp add: wf_world_def)

lemma wf_set_node [wf_intros]:
  "wf_world T w \<Longrightarrow> wf_node T nd \<Longrightarrow> nd_id nd = a \<Longrightarrow> wf_world T (set_node a nd w)"
  by (simp add: wf_world_def)

lemma wf_update_node:
  assumes "wf_world T w" and "\<And>nd. wf_node T nd \<Longrightarrow> nd_id nd = a \<Longrightarrow> wf_node T (f nd) \<and> nd_id (f nd) = a"
  shows "wf_world T (update_node a f w)"
  using assms by (auto simp: update_node_def wf_world_def split: option.split)

lemma wf_mark_world [wf_intros]: "wf_world T w \<Longrightarrow> wf_world T (update_node a (markUnreachable p) w)"
  by (rule wf_update_node) (simp_all add: wf_intros, simp add: markUnreachable_def)

text \<open>
  A call preserves every invariant of the nodes that its handler preserves: the rule all users of
  \<open>rpc\<close> go through.
\<close>

lemma rpc_cases:
  assumes "rpc E target h w = (resp, w')"
  obtains (failed) "resp = None" "w' = advance w"
  | (handled) nd r nd' where "nodes w target = Some nd" "h (clock_at E (tick w)) nd = Some (r, nd')"
      "w' = set_node target nd' (advance w)" "resp = None \<or> resp = Some r"
  using assms by (auto simp: rpc_def Let_def split: option.splits if_splits)

lemma rpc_SomeD:
  assumes "rpc E target h w = (Some r, w')"
  shows "\<exists>nd nd'. nodes w target = Some nd \<and> h (clock_at E (tick w)) nd = Some (r, nd') \<and>
    w' = set_node target nd' (advance w)"
  using assms by (auto simp: rpc_def Let_def split: option.splits if_splits)

lemma wf_rpc:
  assumes "rpc E target h w = (resp, w')" and "wf_world T w"
    and "\<And>now nd r nd'. wf_node T nd \<Longrightarrow> h now nd = Some (r, nd') \<Longrightarrow> wf_node T nd' \<and> nd_id nd' = nd_id nd"
  shows "wf_world T w'"
  using assms(1)
proof (cases rule: rpc_cases)
  case failed
  with assms(2) show ?thesis by (simp add: wf_intros)
next
  case (handled nd r nd')
  with assms(2,3) have "wf_node T nd' \<and> nd_id nd' = target" by (metis wf_worldD)
  with handled assms(2) show ?thesis by (simp add: wf_intros)
qed

text \<open>
  Two worlds with the same processes, each with the same identity, membership and configuration:
  what the data path never changes.
\<close>

definition same_members :: "world \<Rightarrow> world \<Rightarrow> bool" where
  "same_members w w' \<longleftrightarrow> (\<forall>a. rel_option same_member (nodes w a) (nodes w' a))"

lemma same_members_refl [simp]: "same_members w w"
  by (simp add: same_members_def option.rel_refl)

lemma same_members_trans: "same_members u v \<Longrightarrow> same_members v w \<Longrightarrow> same_members u w"
  unfolding same_members_def
proof
  fix a assume "\<forall>a. rel_option same_member (nodes u a) (nodes v a)"
    and "\<forall>a. rel_option same_member (nodes v a) (nodes w a)"
  then have "rel_option same_member (nodes u a) (nodes v a)"
    "rel_option same_member (nodes v a) (nodes w a)" by blast+
  then show "rel_option same_member (nodes u a) (nodes w a)"
    by (cases "nodes u a"; cases "nodes v a"; cases "nodes w a") (auto intro: same_member_trans)
qed

lemma same_members_advance [simp]: "same_members w (advance w)"
  by (simp add: same_members_def option.rel_refl)

lemma same_members_set_node:
  "nodes w a = Some nd \<Longrightarrow> same_member nd nd' \<Longrightarrow> same_members w (set_node a nd' w)"
  by (auto simp: same_members_def option.rel_refl)

lemma same_members_update:
  "(\<And>nd. same_member nd (f nd)) \<Longrightarrow> same_members w (update_node a f w)"
  by (auto simp: update_node_def same_members_set_node split: option.split)

lemma same_members_rpc:
  assumes "rpc E target h w = (resp, w')"
    and "\<And>now nd r nd'. h now nd = Some (r, nd') \<Longrightarrow> same_member nd nd'"
  shows "same_members w w'"
  using assms(1)
proof (cases rule: rpc_cases)
  case failed
  then show ?thesis by simp
next
  case (handled nd r nd')
  then have "same_members (advance w) w'"
    using assms(2) by (auto intro!: same_members_set_node)
  then show ?thesis using same_members_trans same_members_advance by blast
qed

lemma same_members_node:
  "same_members w w' \<Longrightarrow> nodes w a = Some nd \<Longrightarrow>
   \<exists>nd'. nodes w' a = Some nd' \<and> same_member nd nd'"
  unfolding same_members_def by (metis option.rel_cases option.sel option.simps(3))

subsection \<open>Fan-outs of single calls\<close>

text \<open>
  A fan-out whose threads make one call each: the environment picks the thread that calls next, until
  all have run.  \<open>step\<close> is what one thread does, on the results collected so far and the world.
\<close>

definition next_thread :: "env \<Rightarrow> 'a list \<Rightarrow> world \<Rightarrow> nat" where
  "next_thread E pool w = choice_at E (tick w) mod length pool"

lemma next_thread_less: "pool \<noteq> [] \<Longrightarrow> next_thread E pool w < length pool"
  by (simp add: next_thread_def)

function run_once :: "env \<Rightarrow> ('t \<Rightarrow> 'r \<Rightarrow> world \<Rightarrow> 'r \<times> world) \<Rightarrow> 't list \<Rightarrow> 'r \<Rightarrow> world \<Rightarrow> 'r \<times> world" where
  "run_once E step pool res w =
     (if pool = [] then (res, w)
      else let i = next_thread E pool w in
        case step (pool ! i) res w of (res', w') \<Rightarrow> run_once E step (drop_nth i pool) res' w')"
  by pat_completeness auto
termination
  by (relation "measure (\<lambda>(E, step, pool, res, w). length pool)")
    (auto simp: length_drop_nth next_thread_less)

declare run_once.simps [simp del]

lemma run_once_Nil [simp]: "run_once E step [] res w = (res, w)"
  by (simp add: run_once.simps)

text \<open>
  The invariant rule of a fan-out: a relation between the threads still to run, the results and the
  world that every thread keeps, whichever runs next.
\<close>

lemma run_once_invariant:
  assumes "run_once E step pool res w = (res', w')" and "P (mset pool) res w"
    and "\<And>t M res w res1 w1. t \<in># M \<Longrightarrow> set_mset M \<subseteq> set pool \<Longrightarrow> P M res w \<Longrightarrow>
           step t res w = (res1, w1) \<Longrightarrow> P (M - {#t#}) res1 w1"
  shows "P {#} res' w'"
  using assms
proof (induction E step pool res w rule: run_once.induct)
  case (1 E step pool res w)
  show ?case
  proof (cases "pool = []")
    case True
    with 1 show ?thesis by simp
  next
    case False
    let ?i = "next_thread E pool w"
    have i: "?i < length pool" by (rule next_thread_less [OF False])
    obtain r1 w1 where step: "step (pool ! ?i) res w = (r1, w1)"
      by (cases "step (pool ! ?i) res w")
    have run: "run_once E step (drop_nth ?i pool) r1 w1 = (res', w')"
      using 1(2) False step by (subst (asm) run_once.simps) simp
    have P1: "P (mset (drop_nth ?i pool)) r1 w1"
      unfolding mset_drop_nth [OF i] by (rule 1(4) [OF _ _ 1(3) step]) (use i in auto)
    show ?thesis
    proof (rule 1(1) [OF False refl step [symmetric] run P1])
      fix t M res w res1 w1
      assume "t \<in># M" "set_mset M \<subseteq> set (drop_nth ?i pool)" "P M res w"
        "step t res w = (res1, w1)"
      then show "P (M - {#t#}) res1 w1"
        using set_drop_nth_subset [of ?i pool] by (intro 1(4) [of t M res w]) auto
    qed
  qed
qed

lemma run_once_keeps:
  assumes "run_once E step pool res w = (res', w')" and "Q w"
    and "\<And>t res w res1 w1. t \<in> set pool \<Longrightarrow> Q w \<Longrightarrow> step t res w = (res1, w1) \<Longrightarrow> Q w1"
  shows "Q w'"
proof -
  have "(\<lambda>M res w. Q w) {#} res' w'"
    by (rule run_once_invariant [OF assms(1)]) (use assms(2,3) in \<open>auto dest: in_mono\<close>)
  then show ?thesis .
qed

end
