(* ===== verification/Coordinator.thy ===== *)
theory Coordinator
  imports Cluster
begin

text \<open>
  The coordinator side of \<^verbatim>\<open>src/src/node_kv.cpp\<close>: \<open>Put\<close> with its forwarding and its
  fan-out to the replicas and their substitutes, \<open>Get\<close> with its fan-out, its resolution and the read
  repair.

  A fan-out launches one thread per entry of the preference list.  The threads form a pool; every turn
  the environment picks the thread that makes its next call, so every interleaving of the calls is a run
  of the model.  A thread's turn is one call with what the thread does with the answer.
\<close>

record PutRequest =
  pq_key :: key
  pq_value :: string
  pq_context :: vector_clock
  pq_forwarded :: bool

record PutResponse =
  pr_success :: bool
  pr_acks :: nat
  pr_context :: vector_clock

record GetResponse =
  ge_found :: bool
  ge_value :: string
  ge_responses :: nat
  ge_context :: vector_clock

definition put_refused :: PutResponse where
  "put_refused = \<lparr>pr_success = False, pr_acks = 0, pr_context = empty_clock\<rparr>"

definition get_refused :: GetResponse where
  "get_refused = \<lparr>ge_found = False, ge_value = [], ge_responses = 0, ge_context = empty_clock\<rparr>"

subsection \<open>The write fan-out\<close>

text \<open>The captured variables of one fan-out thread of \<open>coordinatePut\<close>.\<close>

record put_task =
  pt_target :: node_id
  pt_owner :: node_id
  pt_excluded :: "node_id list"
  pt_hint :: bool

definition initial_task :: "node_id list \<Rightarrow> PreferenceListEntry \<Rightarrow> put_task" where
  "initial_task pref_list_ids e =
     \<lparr>pt_target = ple_node_id e,
      pt_owner = (case hint_for_node_id e of None \<Rightarrow> ple_node_id e | Some owner \<Rightarrow> owner),
      pt_excluded = pref_list_ids,
      pt_hint = (hint_for_node_id e \<noteq> None)\<rparr>"

definition task_request :: "key \<Rightarrow> string \<Rightarrow> vector_clock \<Rightarrow> put_task \<Rightarrow> ReplicateWriteRequest" where
  "task_request k v clock t =
     \<lparr>rw_key = k, rw_value = v, rw_clock = clock,
      rw_hint_for = (if pt_hint t then Some (pt_owner t) else None)\<rparr>"

text \<open>After a failed or refused call: exclude the target and look for a substitute.\<close>

definition task_retry :: "node_id \<Rightarrow> key \<Rightarrow> put_task \<Rightarrow> world \<Rightarrow> put_task option" where
  "task_retry self k t w =
     (let excluded = List.insert (pt_target t) (pt_excluded t)
      in case nodes w self of
           None \<Rightarrow> None
         | Some nd \<Rightarrow>
             map_option (\<lambda>s. t\<lparr>pt_target := s, pt_excluded := excluded, pt_hint := True\<rparr>)
               (findSubstitute nd k (pt_owner t) excluded))"

text \<open>One turn of the loop of a thread: the task to go on with, whether an ack was counted, the world.\<close>

definition task_step :: "env \<Rightarrow> node_id \<Rightarrow> key \<Rightarrow> string \<Rightarrow> vector_clock \<Rightarrow> put_task \<Rightarrow> world
    \<Rightarrow> put_task option \<times> bool \<times> world" where
  "task_step E self k v clock t w =
     (case rpc E (pt_target t) (ReplicateWrite (task_request k v clock t)) w of
        (Some resp, w1) \<Rightarrow>
          if rwr_success resp then (None, True, w1)
          else (task_retry self k t w1, False, w1)
      | (None, w1) \<Rightarrow>
          (let w2 = update_node self (markUnreachable (pt_target t)) w1
           in (task_retry self k t w2, False, w2)))"

text \<open>The nodes a thread may still be sent to: the termination measure of its loop.\<close>

definition ring_of :: "world \<Rightarrow> node_id \<Rightarrow> node_id set" where
  "ring_of w a = (case nodes w a of None \<Rightarrow> {} | Some nd \<Rightarrow> set (ring_nodes (nd_ring nd)))"

definition task_budget :: "node_id set \<Rightarrow> put_task \<Rightarrow> nat" where
  "task_budget R t = 2 * card (R - set (pt_excluded t)) + 
     (if pt_target t \<in> R - set (pt_excluded t) then 0 else 1)"

definition pool_budget :: "node_id set \<Rightarrow> put_task list \<Rightarrow> nat" where
  "pool_budget R pool = sum_list (map (\<lambda>t. task_budget R t + 1) pool)"

lemma same_members_task_step:
  assumes "task_step E self k v clock t w = (cont, ack, w')"
  shows "same_members w w'"
proof -
  obtain resp w1 where r: "rpc E (pt_target t) (ReplicateWrite (task_request k v clock t)) w = (resp, w1)"
    by (cases "rpc E (pt_target t) (ReplicateWrite (task_request k v clock t)) w")
  have "same_members w w1"
    using r by (rule same_members_rpc) (rule same_member_ReplicateWrite)
  moreover have "same_members w1 (update_node self (markUnreachable (pt_target t)) w1)"
    by (rule same_members_update) simp
  ultimately show ?thesis
    using assms r same_members_trans
    by (auto simp: task_step_def Let_def split: option.splits if_splits)
qed

lemma ring_of_same: "same_members w w' \<Longrightarrow> ring_of w' a = ring_of w a"
proof (cases "nodes w a")
  case None
  then show "same_members w w' \<Longrightarrow> ?thesis"
    unfolding same_members_def ring_of_def by (metis option.rel_distinct(1) option.simps(4) not_None_eq)
next
  case (Some nd)
  then show "same_members w w' \<Longrightarrow> ?thesis"
    using same_members_node [of w w' a nd] by (auto simp: ring_of_def same_member_def)
qed

lemma finite_ring_of [simp]: "finite (ring_of w a)"
  by (simp add: ring_of_def split: option.split)

lemma task_retry_budget:
  assumes "task_retry self k t w = Some t'"
  shows "task_budget (ring_of w self) t' < task_budget (ring_of w self) t"
proof -
  let ?R = "ring_of w self" and ?ex = "insert (pt_target t) (set (pt_excluded t))"
  obtain nd s where nd: "nodes w self = Some nd"
    and s: "findSubstitute nd k (pt_owner t) (List.insert (pt_target t) (pt_excluded t)) = Some s"
    and t': "pt_target t' = s" "set (pt_excluded t') = ?ex"
    using assms by (auto simp: task_retry_def Let_def split: option.splits)
  have sR: "s \<in> ?R - ?ex"
    using findSubstitute_SomeD [OF s] nd by (simp add: ring_of_def)
  show ?thesis
  proof (cases "pt_target t \<in> ?R - set (pt_excluded t)")
    case True
    then have "card (?R - ?ex) < card (?R - set (pt_excluded t))"
      by (intro psubset_card_mono) auto
    with True sR t' show ?thesis by (simp add: task_budget_def)
  next
    case False
    then have "?R - ?ex = ?R - set (pt_excluded t)" by auto
    with False sR t' show ?thesis by (auto simp: task_budget_def)
  qed
qed

lemma task_step_budget:
  assumes "task_step E self k v clock t w = (Some t', ack, w')"
  shows "task_budget (ring_of w self) t' < task_budget (ring_of w self) t"
proof -
  obtain w2 where "task_retry self k t w2 = Some t'" "w' = w2"
    using assms by (auto simp: task_step_def Let_def split: option.splits prod.splits if_splits)
  then show ?thesis
    using task_retry_budget ring_of_same [OF same_members_task_step [OF assms]] by metis
qed

lemma pool_budget_update:
  "i < length pool \<Longrightarrow> task_budget R t' < task_budget R (pool ! i) \<Longrightarrow>
   pool_budget R (pool[i := t']) < pool_budget R pool"
proof (induction pool arbitrary: i)
  case (Cons t pool)
  then show ?case by (cases i) (auto simp: pool_budget_def)
qed simp

lemma pool_budget_drop:
  "i < length pool \<Longrightarrow> pool_budget R (drop_nth i pool) < pool_budget R pool"
proof (induction i pool rule: drop_nth.induct)
  case (3 n x xs)
  then show ?case by (auto simp: pool_budget_def)
qed (auto simp: pool_budget_def)

text \<open>A turn of any thread of the pool uses up some of its budget.\<close>

definition pool_after :: "put_task list \<Rightarrow> nat \<Rightarrow> put_task option \<Rightarrow> put_task list" where
  "pool_after pool i cont = (case cont of None \<Rightarrow> drop_nth i pool | Some t \<Rightarrow> pool[i := t])"

lemma pool_after_budget:
  assumes "task_step E self k v clock (pool ! i) w = (cont, ack, w')" and "i < length pool"
  shows "pool_budget (ring_of w' self) (pool_after pool i cont) < pool_budget (ring_of w self) pool"
proof -
  have R: "ring_of w' self = ring_of w self"
    by (rule ring_of_same [OF same_members_task_step [OF assms(1)]])
  show ?thesis
  proof (cases cont)
    case None
    with assms(2) R show ?thesis by (simp add: pool_budget_drop pool_after_def)
  next
    case (Some t)
    with assms(1) have "task_budget (ring_of w self) t < task_budget (ring_of w self) (pool ! i)"
      using task_step_budget by simp
    with Some assms(2) R show ?thesis by (simp add: pool_budget_update pool_after_def)
  qed
qed

text \<open>The pool runs until every thread has finished; the result is the number of acks.\<close>

function run_writes :: "env \<Rightarrow> node_id \<Rightarrow> key \<Rightarrow> string \<Rightarrow> vector_clock \<Rightarrow> put_task list \<Rightarrow> nat
    \<Rightarrow> world \<Rightarrow> nat \<times> world" where
  "run_writes E self k v clock pool acks w =
     (if pool = [] then (acks, w)
      else let i = next_thread E pool w in
        case task_step E self k v clock (pool ! i) w of
          (cont, ack, w') \<Rightarrow>
            run_writes E self k v clock
              (case cont of None \<Rightarrow> drop_nth i pool | Some t \<Rightarrow> pool[i := t])
              (if ack then acks + 1 else acks) w')"
  by pat_completeness auto
termination
  by (relation "measure (\<lambda>(E, self, k, v, clock, pool, acks, w). pool_budget (ring_of w self) pool)")
    (auto intro!: pool_after_budget [OF sym, unfolded pool_after_def] next_thread_less)

declare run_writes.simps [simp del]

subsection \<open>coordinatePut\<close>

text \<open>
  The coordinator's own hint: unlike \<open>receiveHint\<close> it keeps a held hint that is concurrent with the
  new one, and marks nobody unreachable.
\<close>

definition storeOwnHint :: "node_id \<Rightarrow> HeldHint \<Rightarrow> node \<Rightarrow> node" where
  "storeOwnHint t hint nd =
     (let k = hint_key hint
      in case nd_hints nd t of
           Some hs \<Rightarrow>
             (case map_of hs k of
                Some held \<Rightarrow>
                  (if compareVectorClocks (hint_clock held) (hint_clock hint) = DOMINATED
                   then put_hint t k hint nd else nd)
              | None \<Rightarrow> put_hint t k hint nd)
         | None \<Rightarrow> put_hint t k hint nd)"

definition local_write :: "env \<Rightarrow> node_id \<Rightarrow> key \<Rightarrow> string \<Rightarrow> vector_clock option \<Rightarrow> PreferenceListEntry
    \<Rightarrow> world \<Rightarrow> vector_clock \<times> world" where
  "local_write E self k v client_context e w =
     (case nodes w self of
        None \<Rightarrow> (empty_clock, w)
      | Some nd \<Rightarrow>
          (case hint_for_node_id e of
             None \<Rightarrow>
               (let (clock, nd') = commitCoordinatedWrite k v client_context (clock_at E (tick w)) nd
                in (clock, set_node self nd' (advance w)))
           | Some owner \<Rightarrow>
               (let clock = buildNewClock client_context None (ple_node_id e) (clock_at E (tick w));
                    hint = \<lparr>hint_key = k, hint_value = v, hint_clock = clock,
                            hint_created_at = clock_at E (tick w + 1)\<rparr>
                in (clock, set_node self (storeOwnHint owner hint nd) (advance (advance w))))))"

text \<open>
  The comparison with the list's size is unsigned (\<open>size_t\<close> against \<open>int64_t\<close>), the one with
  the acks is signed.
\<close>

definition coordinatePut :: "env \<Rightarrow> node_id \<Rightarrow> key \<Rightarrow> string \<Rightarrow> vector_clock option
    \<Rightarrow> PreferenceListEntry list \<Rightarrow> int \<Rightarrow> world \<Rightarrow> PutResponse \<times> world" where
  "coordinatePut E self k v client_context pref_list W w =
     (if int (length pref_list) < W mod 2 ^ 64 then (put_refused, w)
      else
        (let ids = map ple_node_id pref_list;
             (clock, acks, w1) =
               (case find (\<lambda>e. ple_node_id e = self) pref_list of
                  None \<Rightarrow> (empty_clock, 0, w)
                | Some e \<Rightarrow>
                    (case local_write E self k v client_context e w of (c, w1) \<Rightarrow> (c, 1, w1)));
             pool = map (initial_task ids) (filter (\<lambda>e. ple_node_id e \<noteq> self) pref_list);
             (acks', w2) = run_writes E self k v clock pool acks w1
         in (\<lparr>pr_success = \<not> int acks' < W, pr_acks = acks', pr_context = clock\<rparr>, w2)))"

subsection \<open>Put and its forwarding\<close>

text \<open>
  \<open>forward_loop\<close> is the loop of \<open>forwardPut\<close> over the rotated preference list; each turn calls
  \<open>Put\<close> on the next target with the forwarded flag set.  \<open>None\<close> is a handler that threw or a
  process that does not run.
\<close>

function (sequential) Put :: "env \<Rightarrow> node_id \<Rightarrow> PutRequest \<Rightarrow> world \<Rightarrow> PutResponse option \<times> world"
  and forward_loop :: "env \<Rightarrow> node_id \<Rightarrow> node_id list \<Rightarrow> PutRequest \<Rightarrow> world \<Rightarrow> PutResponse \<times> world"
where
  "Put E self req w =
     (case nodes w self of
        None \<Rightarrow> (None, w)
      | Some nd \<Rightarrow>
          (case isSelfRemoved nd of
             None \<Rightarrow> (None, w)
           | Some True \<Rightarrow> (Some put_refused, w)
           | Some False \<Rightarrow>
               (let pref_list = preferenceListForKey nd (pq_key req) (nd_N nd)
                in if self \<in> set (map ple_node_id pref_list) then
                     (case coordinatePut E self (pq_key req) (pq_value req) (Some (pq_context req))
                             pref_list (nd_W nd) w of (resp, w') \<Rightarrow> (Some resp, w'))
                   else if pq_forwarded req then (Some put_refused, w)
                   else (case forward_loop E self
                               (rotate (choice_at E (tick w) mod length pref_list) (map ple_node_id pref_list))
                               req (advance w) of (resp, w') \<Rightarrow> (Some resp, w')))))"
| "forward_loop E self [] req w = (put_refused, w)"
| "forward_loop E self (target # rest) req w =
     (if fate_at E (tick w) = RequestLost
      then forward_loop E self rest req (update_node self (markUnreachable target) (advance w))
      else
        (case Put E target (req\<lparr>pq_forwarded := True\<rparr>) (advance w) of
           (None, w1) \<Rightarrow> forward_loop E self rest req (update_node self (markUnreachable target) w1)
         | (Some resp, w1) \<Rightarrow>
             if fate_at E (tick w) = Delivered then (resp, w1)
             else forward_loop E self rest req (update_node self (markUnreachable target) w1)))"
  by pat_completeness auto
termination
  by (relation "measures
      [\<lambda>x. case x of Inl (E, self, req, w) \<Rightarrow> if pq_forwarded req then 0 else 2
               | Inr (E, self, ts, req, w) \<Rightarrow> 1,
       \<lambda>x. case x of Inl _ \<Rightarrow> 0 | Inr (E, self, ts, req, w) \<Rightarrow> length ts]") auto

declare Put.simps [simp del]

end
