(* ===== verification/Scenario.thy ===== *)
theory Scenario
  imports Cluster
begin

text \<open>
  A concrete cluster of four nodes on which the witnesses evaluate: one virtual node each, replication
  factor 3 with quorums of 2.  For the key \<open>k\<close> the nodes stand in the order \<open>A\<close>, \<open>B\<close>,
  \<open>C\<close>, \<open>D\<close> on the ring, so \<open>D\<close> is the one that stands in for the others.  In the
  environment \<open>calm\<close> every call is delivered.
\<close>

definition demo_T :: "node_id \<Rightarrow> u64 set" where
  "demo_T n = (if n = ''A'' then {10} else if n = ''B'' then {20} else if n = ''C'' then {30}
     else if n = ''D'' then {40} else {})"

definition demo_entry :: "node_id \<Rightarrow> u64 \<Rightarrow> MembershipEntry" where
  "demo_entry n t = \<lparr>me_writer_id = n, address = n, status = UP, tokens = [t], me_last_updated = 1\<rparr>"

definition demo_table :: MembershipTable where
  "demo_table = [(''A'', demo_entry ''A'' 10), (''B'', demo_entry ''B'' 20), (''C'', demo_entry ''C'' 30),
     (''D'', demo_entry ''D'' 40)]"

definition demo_ring :: ring where
  "demo_ring = [(10, ''A''), (20, ''B''), (30, ''C''), (40, ''D'')]"

definition demo_node :: "node_id \<Rightarrow> node_id list \<Rightarrow> (key \<rightharpoonup> VersionedValue)
    \<Rightarrow> (node_id \<rightharpoonup> (key \<times> HeldHint) list) \<Rightarrow> node" where
  "demo_node n un kv ht =
     \<lparr>nd_id = n, nd_vnodes = 1, nd_table = demo_table, nd_ring = demo_ring, nd_unreachable = un,
      nd_kv = kv, nd_hints = ht, nd_N = 3, nd_W = 2, nd_R = 2\<rparr>"

definition demo_world :: "node \<Rightarrow> node \<Rightarrow> node \<Rightarrow> world" where
  "demo_world a b c = \<lparr>nodes = [''A'' \<mapsto> a, ''B'' \<mapsto> b, ''C'' \<mapsto> c], jobs = [], tick = 0\<rparr>"

definition demo_world4 :: "node \<Rightarrow> node \<Rightarrow> node \<Rightarrow> node \<Rightarrow> world" where
  "demo_world4 a b c d =
     \<lparr>nodes = [''A'' \<mapsto> a, ''B'' \<mapsto> b, ''C'' \<mapsto> c, ''D'' \<mapsto> d], jobs = [], tick = 0\<rparr>"

definition calm :: env where
  "calm = \<lparr>fate_at = (\<lambda>_. Delivered), clock_at = (\<lambda>t. int t), choice_at = (\<lambda>_. 0)\<rparr>"

lemma calm_simps [simp]:
  "fate_at calm t = Delivered" "clock_at calm t = int t" "choice_at calm t = 0"
  by (simp_all add: calm_def)

lemma demo_node_simps [simp]:
  "nd_id (demo_node n un kv ht) = n" "nd_table (demo_node n un kv ht) = demo_table"
  "nd_ring (demo_node n un kv ht) = demo_ring" "nd_unreachable (demo_node n un kv ht) = un"
  "nd_kv (demo_node n un kv ht) = kv" "nd_hints (demo_node n un kv ht) = ht"
  "nd_N (demo_node n un kv ht) = 3" "nd_W (demo_node n un kv ht) = 2" "nd_R (demo_node n un kv ht) = 2"
  "(demo_node n un kv ht)\<lparr>nd_kv := kv'\<rparr> = demo_node n un kv' ht"
  "(demo_node n un kv ht)\<lparr>nd_hints := ht'\<rparr> = demo_node n un kv ht'"
  "(demo_node n un kv ht)\<lparr>nd_unreachable := un'\<rparr> = demo_node n un' kv ht"
  by (simp_all add: demo_node_def)

lemma demo_world_simps [simp]:
  "nodes (demo_world a b c) = [''A'' \<mapsto> a, ''B'' \<mapsto> b, ''C'' \<mapsto> c]"
  "jobs (demo_world a b c) = []" "tick (demo_world a b c) = 0"
  "nodes (demo_world4 a b c d) = [''A'' \<mapsto> a, ''B'' \<mapsto> b, ''C'' \<mapsto> c, ''D'' \<mapsto> d]"
  "jobs (demo_world4 a b c d) = []" "tick (demo_world4 a b c d) = 0"
  by (simp_all add: demo_world_def demo_world4_def)

lemma tokens_disjoint_demo: "tokens_disjoint demo_T"
  by (simp add: tokens_disjoint_def demo_T_def)

lemma demo_lookup:
  "map_of demo_table n = (if n = ''A'' then Some (demo_entry ''A'' 10)
     else if n = ''B'' then Some (demo_entry ''B'' 20)
     else if n = ''C'' then Some (demo_entry ''C'' 30)
     else if n = ''D'' then Some (demo_entry ''D'' 40) else None)"
  by (simp add: demo_table_def)

lemma table_ok_demo: "table_ok demo_T demo_table"
  by (auto simp: table_ok_def demo_lookup entry_ok_def demo_entry_def demo_T_def)
    (simp_all add: demo_table_def)

lemma ring_ok_demo: "ring_ok demo_table demo_ring"
  by (rule ring_okI)
    (auto simp: demo_ring_def ascending_def owns_def demo_lookup demo_entry_def)

lemma wf_demo_node:
  assumes "n \<in> {''A'', ''B'', ''C'', ''D''}" and "distinct un" and "wf_store kv" and "wf_hint_table ht"
  shows "wf_node demo_T (demo_node n un kv ht)"
proof -
  have "n \<in> fst ` set demo_table" using assms(1) by (auto simp: demo_table_def)
  with assms show ?thesis
    by (simp add: wf_node_def wf_member_def table_ok_demo ring_ok_demo valid_quorum_def)
qed

lemma wf_demo_world:
  assumes "wf_node demo_T a" "nd_id a = ''A''" "wf_node demo_T b" "nd_id b = ''B''"
    "wf_node demo_T c" "nd_id c = ''C''"
  shows "wf_world demo_T (demo_world a b c)"
  using assms by (auto simp: wf_world_def)

lemma wf_demo_world4:
  assumes "wf_node demo_T a" "nd_id a = ''A''" "wf_node demo_T b" "nd_id b = ''B''"
    "wf_node demo_T c" "nd_id c = ''C''" "wf_node demo_T d" "nd_id d = ''D''"
  shows "wf_world demo_T (demo_world4 a b c d)"
  using assms by (auto simp: wf_world_def)

lemma demo_up:
  "nd_table nd = demo_table \<Longrightarrow> nd_id nd \<in> {''A'', ''B'', ''C'', ''D''} \<Longrightarrow>
   isSelfRemoved nd = Some False"
  by (auto simp: isSelfRemoved_def demo_lookup demo_entry_def)

lemma demo_hash: "40 < key_hash ''k''"
  by (simp add: key_hash_def fnv1a64_def mix64_def)

lemma demo_clockwise: "clockwise demo_ring (key_hash ''k'') = [''A'', ''B'', ''C'', ''D'']"
proof -
  have "t \<le> key_hash ''k''" if "t \<le> 40" for t
    using that demo_hash by simp
  then have "upper_bound demo_ring (key_hash ''k'') = 4"
    by (simp add: upper_bound_def demo_ring_def)
  then show ?thesis by (simp add: clockwise_def demo_ring_def nub_def)
qed

lemma demo_preference:
  "nd_ring nd = demo_ring \<Longrightarrow> preferenceListForKey nd ''k'' 3 =
   map natural_entry (filter (\<lambda>c. c \<notin> set (nd_unreachable nd)) [''A'', ''B'', ''C'']) @
   map hint_entry (zip (filter (\<lambda>c. c \<notin> set (nd_unreachable nd)) [''D''])
                       (filter (\<lambda>c. c \<in> set (nd_unreachable nd)) [''A'', ''B'', ''C'']))"
  by (simp add: preferenceListForKey_def unreachableSnapshot_def preferenceList_eq_spec
      preference_spec_def natural_owners_def demo_clockwise)

lemma demo_preference_one:
  "nd_ring nd = demo_ring \<Longrightarrow> preferenceListForKey nd ''k'' 1 =
   map natural_entry (filter (\<lambda>c. c \<notin> set (nd_unreachable nd)) [''A'']) @
   map hint_entry (zip (filter (\<lambda>c. c \<notin> set (nd_unreachable nd)) [''B'', ''C'', ''D''])
                       (filter (\<lambda>c. c \<in> set (nd_unreachable nd)) [''A'']))"
  by (simp add: preferenceListForKey_def unreachableSnapshot_def preferenceList_eq_spec
      preference_spec_def natural_owners_def demo_clockwise)

lemma demo_substitute:
  "nd_ring nd = demo_ring \<Longrightarrow> findSubstitute nd ''k'' owner ex =
   find (\<lambda>c. c \<notin> set (nd_unreachable nd) \<and> c \<notin> set ex \<and> c \<noteq> owner) [''A'', ''B'', ''C'', ''D'']"
  by (simp add: findSubstitute_find demo_clockwise)

lemmas demo_eval = demo_preference demo_preference_one demo_up demo_substitute

end
