(* ===== verification/Write_Path.thy ===== *)
theory Write_Path
  imports Coordinator Scenario
begin

text \<open>
  What the write path of \<^verbatim>\<open>Coordinator\<close> guarantees: which acknowledgements a coordinator
  counts, where the acknowledged version is kept afterwards, and when a write succeeds.
\<close>

subsection \<open>Where a version is kept\<close>

text \<open>
  A version is kept for an owner when the owner holds it, or one that is causally newer, among its own
  versions, or when some node holds it, or a newer one, as a hint for that owner.
\<close>

definition node_keeps :: "node \<Rightarrow> key \<Rightarrow> vector_clock \<Rightarrow> bool" where
  "node_keeps nd k c \<longleftrightarrow> (\<exists>h. nd_kv nd k = Some h \<and> counter_of c \<le> vv_counters h)"

definition hint_keeps :: "node \<Rightarrow> node_id \<Rightarrow> key \<Rightarrow> vector_clock \<Rightarrow> bool" where
  "hint_keeps nd t k c \<longleftrightarrow> (\<exists>g. hint_at t k nd = Some g \<and> counter_of c \<le> counter_of (hint_clock g))"

definition kept_for :: "world \<Rightarrow> key \<Rightarrow> vector_clock \<Rightarrow> node_id \<Rightarrow> bool" where
  "kept_for w k c t \<longleftrightarrow> (\<exists>nd. nodes w t = Some nd \<and> node_keeps nd k c) \<or>
     (\<exists>a nd. nodes w a = Some nd \<and> hint_keeps nd t k c)"

lemma keeps_mark [simp]:
  "node_keeps (markUnreachable p nd) k c = node_keeps nd k c"
  "hint_keeps (markUnreachable p nd) t k c = hint_keeps nd t k c"
  by (simp_all add: node_keeps_def hint_keeps_def) (simp add: markUnreachable_def)

lemma kept_for_set_node:
  assumes "kept_for w k c t" and "nodes w a = Some nd"
    and "node_keeps nd k c \<Longrightarrow> node_keeps nd' k c"
    and "hint_keeps nd t k c \<Longrightarrow> hint_keeps nd' t k c"
  shows "kept_for (set_node a nd' w) k c t"
proof -
  from assms(1) consider (own) m where "nodes w t = Some m" "node_keeps m k c"
    | (hint) b m where "nodes w b = Some m" "hint_keeps m t k c"
    unfolding kept_for_def by blast
  then show ?thesis
  proof cases
    case own
    with assms(2,3) show ?thesis by (cases "t = a") (auto simp: kept_for_def)
  next
    case hint
    then have "\<exists>m. nodes (set_node a nd' w) b = Some m \<and> hint_keeps m t k c"
      using assms(2,4) by (cases "b = a") auto
    then show ?thesis unfolding kept_for_def by blast
  qed
qed

lemma kept_for_advance [simp]: "kept_for (advance w) k c t = kept_for w k c t"
  by (simp add: kept_for_def)

lemma kept_for_mark: "kept_for w k c t \<Longrightarrow> kept_for (update_node a (markUnreachable p) w) k c t"
  by (auto simp: update_node_def intro: kept_for_set_node split: option.split)

lemma node_keeps_store:
  assumes "wf_store (nd_kv nd)" and "wf_clock (vv_clock v)" and "node_keeps nd k (vv_clock v)"
  shows "node_keeps (snd (storeReplicatedWrite k v nd)) k (vv_clock v)"
  using assms kv.slot_store [OF assms(1,2), of k] by (auto simp: node_keeps_def)

lemma hint_keeps_receive:
  assumes "wf_hint_table (nd_hints nd)" and "wf_clock (hint_clock h)" and "hint_key h = k"
    and "hint_keeps nd u k (hint_clock h)"
  shows "hint_keeps (receiveHint t h nd) u k (hint_clock h)"
proof (cases "u = t")
  case True
  with assms held.slot_store [of nd h k t] show ?thesis by (auto simp: hint_keeps_def)
next
  case False
  with assms(4) show ?thesis
    by (auto simp: hint_keeps_def receiveHint_alt hint_at_put split: option.split)
qed

text \<open>A replica's handling of a request of this write keeps what is kept, and a success keeps it there.\<close>

lemma ReplicateWrite_keeps:
  assumes "wf_node T nd" and "wf_clock c" and "ReplicateWrite (task_request k v c t) now nd = Some (resp, nd')"
  shows "node_keeps nd k c \<Longrightarrow> node_keeps nd' k c" and "hint_keeps nd u k c \<Longrightarrow> hint_keeps nd' u k c"
    and "rwr_success resp \<Longrightarrow> pt_hint t \<Longrightarrow> hint_keeps nd' (pt_owner t) k c"
    and "rwr_success resp \<Longrightarrow> \<not> pt_hint t \<Longrightarrow> node_keeps nd' k c"
proof -
  let ?v = "\<lparr>vv_value = v, vv_clock = c\<rparr>"
  let ?h = "\<lparr>hint_key = k, hint_value = v, hint_clock = c, hint_created_at = now\<rparr>"
  have wf: "wf_store (nd_kv nd)" "wf_hint_table (nd_hints nd)"
    using assms(1) by (auto simp: wf_node_def)
  have cases: "nd' = nd \<and> \<not> rwr_success resp \<or>
      pt_hint t \<and> nd' = receiveHint (pt_owner t) ?h nd \<or>
      \<not> pt_hint t \<and> nd' = snd (storeReplicatedWrite k ?v nd)"
    using assms(3) by (auto simp: ReplicateWrite_def task_request_def Let_def
        split: option.splits bool.splits if_splits prod.splits)
  have kv': "nd_kv (receiveHint u ?h nd) = nd_kv nd" for u
    by (auto simp: receiveHint_alt put_hint_def markUnreachable_def split: option.split)
  have ht': "nd_hints (snd (storeReplicatedWrite k ?v nd)) = nd_hints nd"
    using storeReplicatedWrite_frame [of k ?v nd] by (cases "storeReplicatedWrite k ?v nd") auto
  show "node_keeps nd k c \<Longrightarrow> node_keeps nd' k c"
    using cases node_keeps_store [of nd ?v k] wf(1) assms(2) by (auto simp: node_keeps_def kv')
  show "hint_keeps nd u k c \<Longrightarrow> hint_keeps nd' u k c"
    using cases hint_keeps_receive [of nd ?h k u] wf(2) assms(2)
    by (auto simp: hint_keeps_def hint_at_def ht')
  show "rwr_success resp \<Longrightarrow> pt_hint t \<Longrightarrow> hint_keeps nd' (pt_owner t) k c"
    using cases held.store_covers [OF wf(2), of ?h k "pt_owner t"] assms(2)
    by (auto simp: hint_keeps_def)
  show "rwr_success resp \<Longrightarrow> \<not> pt_hint t \<Longrightarrow> node_keeps nd' k c"
    using cases kv.store_covers [OF wf(1), of ?v k] assms(2) by (auto simp: node_keeps_def)
qed

subsection \<open>One turn of a thread\<close>

definition task_ok :: "put_task \<Rightarrow> bool" where
  "task_ok t \<longleftrightarrow> pt_hint t \<or> pt_target t = pt_owner t"

lemma task_retry_SomeD:
  "task_retry self k t w = Some t' \<Longrightarrow> pt_owner t' = pt_owner t \<and> pt_hint t'"
  by (auto simp: task_retry_def Let_def split: option.splits)

lemma wf_task_rpc:
  assumes "rpc E a (ReplicateWrite (task_request k v c t)) w = (resp, w1)" and "wf_world T w" and "wf_clock c"
  shows "wf_world T w1"
  using assms(1,2)
proof (rule wf_rpc)
  fix now nd r nd' assume nd: "wf_node T nd" "ReplicateWrite (task_request k v c t) now nd = Some (r, nd')"
  then show "wf_node T nd' \<and> nd_id nd' = nd_id nd"
    using wf_ReplicateWrite [OF nd(1) _ nd(2)] same_member_ReplicateWrite [OF nd(2)] assms(3)
    by (simp add: task_request_def same_member_def)
qed

lemma task_rpc_keeps:
  assumes "rpc E (pt_target t) (ReplicateWrite (task_request k v c t)) w = (resp, w1)"
    and "wf_world T w" and "wf_clock c"
  shows "kept_for w k c u \<Longrightarrow> kept_for w1 k c u"
    and "resp = Some r \<Longrightarrow> rwr_success r \<Longrightarrow> task_ok t \<Longrightarrow> kept_for w1 k c (pt_owner t)"
proof -
  show "kept_for w k c u \<Longrightarrow> kept_for w1 k c u"
    using assms(1)
  proof (cases rule: rpc_cases)
    case (handled nd r nd')
    have wf: "wf_node T nd" using wf_worldD [OF assms(2) handled(1)] by simp
    note keeps = ReplicateWrite_keeps [OF wf assms(3) handled(2)]
    assume "kept_for w k c u"
    then have "kept_for (advance w) k c u" by simp
    moreover have "nodes (advance w) (pt_target t) = Some nd" using handled(1) by simp
    ultimately show ?thesis
      unfolding handled(3) by (rule kept_for_set_node) (rule keeps, assumption)+
  qed simp
  assume "resp = Some r" and r: "rwr_success r" and "task_ok t"
  with assms(1) have call: "rpc E (pt_target t) (ReplicateWrite (task_request k v c t)) w = (Some r, w1)"
    by simp
  obtain nd nd' where nd: "nodes w (pt_target t) = Some nd"
    "ReplicateWrite (task_request k v c t) (clock_at E (tick w)) nd = Some (r, nd')"
    "w1 = set_node (pt_target t) nd' (advance w)"
    using rpc_SomeD [OF call] by blast
  have wf: "wf_node T nd" using wf_worldD [OF assms(2) nd(1)] by simp
  have w1: "nodes w1 (pt_target t) = Some nd'" by (simp add: nd(3))
  show "kept_for w1 k c (pt_owner t)"
  proof (cases "pt_hint t")
    case True
    with ReplicateWrite_keeps(3) [OF wf assms(3) nd(2) r] w1 show ?thesis
      unfolding kept_for_def by blast
  next
    case False
    then have "pt_owner t = pt_target t" using \<open>task_ok t\<close> by (simp add: task_ok_def)
    with ReplicateWrite_keeps(4) [OF wf assms(3) nd(2) r False] w1 show ?thesis
      unfolding kept_for_def by simp
  qed
qed

lemma task_step_facts:
  assumes "task_step E self k v c t w = (cont, ack, w1)" and "wf_world T w" and "wf_clock c" and "task_ok t"
  shows "wf_world T w1" and "kept_for w k c u \<Longrightarrow> kept_for w1 k c u"
    and "ack \<Longrightarrow> cont = None \<and> kept_for w1 k c (pt_owner t)"
    and "cont = Some t' \<Longrightarrow> task_ok t' \<and> pt_owner t' = pt_owner t"
proof -
  obtain resp w0 where r: "rpc E (pt_target t) (ReplicateWrite (task_request k v c t)) w = (resp, w0)"
    by (cases "rpc E (pt_target t) (ReplicateWrite (task_request k v c t)) w")
  have wf0: "wf_world T w0" using wf_task_rpc [OF r assms(2,3)] .
  note keeps = task_rpc_keeps [OF r assms(2,3)]
  have w1: "w1 = w0 \<or> w1 = update_node self (markUnreachable (pt_target t)) w0"
    and ack: "ack \<Longrightarrow> w1 = w0 \<and> cont = None \<and> (\<exists>x. resp = Some x \<and> rwr_success x)"
    and cont: "cont = Some t' \<Longrightarrow> task_retry self k t w1 = Some t'"
    using assms(1) r by (auto simp: task_step_def Let_def split: option.splits if_splits)
  show "wf_world T w1" using w1 wf0 by (auto intro: wf_intros)
  show "kept_for w k c u \<Longrightarrow> kept_for w1 k c u" using w1 keeps(1) kept_for_mark by blast
  show "ack \<Longrightarrow> cont = None \<and> kept_for w1 k c (pt_owner t)"
    using ack keeps(2) assms(4) by blast
  show "cont = Some t' \<Longrightarrow> task_ok t' \<and> pt_owner t' = pt_owner t"
    using cont task_retry_SomeD by (auto simp: task_ok_def)
qed


subsection \<open>The whole fan-out\<close>

lemma run_writes_invariant:
  assumes "run_writes E self k v c pool acks w = (acks', w')" and "P (mset pool) acks w"
    and "\<And>t M acks w cont ack w1. t \<in># M \<Longrightarrow> P M acks w \<Longrightarrow> task_step E self k v c t w = (cont, ack, w1) \<Longrightarrow>
           P (M - {#t#} + (case cont of None \<Rightarrow> {#} | Some t' \<Rightarrow> {#t'#}))
             (if ack then acks + 1 else acks) w1"
  shows "P {#} acks' w'"
  using assms
proof (induction E self k v c pool acks w rule: run_writes.induct)
  case (1 E self k v c pool acks w)
  show ?case
  proof (cases "pool = []")
    case True
    with 1(2,3) show ?thesis by (simp add: run_writes.simps)
  next
    case False
    let ?i = "next_thread E pool w"
    have i: "?i < length pool" by (rule next_thread_less [OF False])
    obtain cont ack w1 where step: "task_step E self k v c (pool ! ?i) w = (cont, ack, w1)"
      by (cases "task_step E self k v c (pool ! ?i) w")
    let ?pool = "case cont of None \<Rightarrow> drop_nth ?i pool | Some t \<Rightarrow> pool[?i := t]"
    have run: "run_writes E self k v c ?pool (if ack then acks + 1 else acks) w1 = (acks', w')"
      using 1(2) False step by (subst (asm) run_writes.simps) (simp add: Let_def)
    have "mset ?pool = mset pool - {#pool ! ?i#} + (case cont of None \<Rightarrow> {#} | Some t' \<Rightarrow> {#t'#})"
      using i by (simp add: mset_drop_nth mset_update split: option.split)
    moreover have "P (mset pool - {#pool ! ?i#} + (case cont of None \<Rightarrow> {#} | Some t' \<Rightarrow> {#t'#}))
        (if ack then acks + 1 else acks) w1"
      by (rule 1(4) [OF _ 1(3) step]) (use i in simp)
    ultimately have P1: "P (mset ?pool) (if ack then acks + 1 else acks) w1" by (simp only:)
    show ?thesis
      by (rule 1(1) [OF False refl step [symmetric] refl run P1]) (rule 1(4))
  qed
qed

definition entry_owner :: "PreferenceListEntry \<Rightarrow> node_id" where
  "entry_owner e = (case hint_for_node_id e of None \<Rightarrow> ple_node_id e | Some owner \<Rightarrow> owner)"

lemma initial_task_facts [simp]:
  "pt_owner (initial_task ids e) = entry_owner e" "task_ok (initial_task ids e)"
  "pt_target (initial_task ids e) = ple_node_id e"
  "pt_hint (initial_task ids e) \<longleftrightarrow> hint_for_node_id e \<noteq> None"
  by (auto simp: initial_task_def entry_owner_def task_ok_def split: option.split)

lemma preference_owners:
  "map entry_owner (preferenceList r h N p) =
   filter p (natural_owners r h N) @
   take (length (filter p (drop (nat N) (clockwise r h)))) (filter (\<lambda>c. \<not> p c) (natural_owners r h N))"
proof -
  have "map (entry_owner \<circ> hint_entry) (zip xs ys) = take (length xs) ys" for xs ys
    by (induction xs ys rule: list_induct2') (auto simp: comp_def entry_owner_def)
  then show ?thesis
    by (simp add: preferenceList_eq_spec preference_spec_def comp_def entry_owner_def)
qed

lemma preference_owners_distinct: "distinct (map entry_owner (preferenceList r h N p))"
  by (auto simp: preference_owners distinct_take dest: in_set_takeD)

lemma preference_owners_natural:
  "set (map entry_owner (preferenceList r h N p)) \<subseteq> set (natural_owners r h N)"
  by (auto simp: preference_owners dest: in_set_takeD)

text \<open>
  The invariant of the fan-out: the owners of the threads still running and the owners that were
  acknowledged are disjoint sets, there are as many acknowledged owners as acks, and the write is kept
  for each of them.
\<close>

definition write_invariant :: "(node_id \<Rightarrow> u64 set) \<Rightarrow> key \<Rightarrow> vector_clock \<Rightarrow> node_id set
    \<Rightarrow> put_task multiset \<Rightarrow> nat \<Rightarrow> world \<Rightarrow> bool" where
  "write_invariant T k c U M acks w \<longleftrightarrow> wf_world T w \<and> (\<forall>t \<in># M. task_ok t) \<and>
     (\<exists>S Q. finite S \<and> finite Q \<and> S \<union> Q \<subseteq> U \<and> S \<inter> Q = {} \<and> image_mset pt_owner M = mset_set S \<and>
        acks = card Q \<and> (\<forall>q \<in> Q. kept_for w k c q))"

lemma write_invariantI:
  "wf_world T w \<Longrightarrow> \<forall>t \<in># M. task_ok t \<Longrightarrow> finite S \<Longrightarrow> finite Q \<Longrightarrow> S \<union> Q \<subseteq> U \<Longrightarrow> S \<inter> Q = {} \<Longrightarrow>
   image_mset pt_owner M = mset_set S \<Longrightarrow> acks = card Q \<Longrightarrow> \<forall>q \<in> Q. kept_for w k c q \<Longrightarrow>
   write_invariant T k c U M acks w"
  unfolding write_invariant_def by blast

lemma write_invariant_step:
  assumes "t \<in># M" and "write_invariant T k c U M acks w" and "wf_clock c"
    and "task_step E self k v c t w = (cont, ack, w1)"
  shows "write_invariant T k c U (M - {#t#} + (case cont of None \<Rightarrow> {#} | Some t' \<Rightarrow> {#t'#}))
    (if ack then acks + 1 else acks) w1"
proof -
  have wf: "wf_world T w" and ok: "task_ok t" "\<forall>t \<in># M. task_ok t"
    using assms(1,2) by (auto simp: write_invariant_def)
  obtain S Q where S: "finite S" "finite Q" "S \<union> Q \<subseteq> U" "S \<inter> Q = {}" "image_mset pt_owner M = mset_set S"
    "acks = card Q" "\<forall>q \<in> Q. kept_for w k c q"
    using assms(2) by (auto simp: write_invariant_def)
  note step = task_step_facts [OF assms(4) wf assms(3) ok(1)]
  have o: "pt_owner t \<in> S"
    using S(1,5) assms(1) by (metis elem_mset_set image_eqI set_image_mset)
  have img: "image_mset pt_owner (M - {#t#}) = mset_set (S - {pt_owner t})"
    using assms(1) S(1,5) o by (simp add: image_mset_Diff mset_set_Diff)
  have okM: "\<forall>t' \<in># M - {#t#}. task_ok t'" using ok(2) by (meson in_diffD)
  have kept: "\<forall>q \<in> Q. kept_for w1 k c q" using S(7) step(2) by blast
  show ?thesis
  proof (cases cont)
    case None
    show ?thesis
    proof (cases ack)
      case True
      then have k: "kept_for w1 k c (pt_owner t)" using step(3) by blast
      have "pt_owner t \<notin> Q" using o S(4) by blast
      show ?thesis
        by (rule write_invariantI [of T w1 _ "S - {pt_owner t}" "insert (pt_owner t) Q"])
          (use None True S o img okM kept step(1) k \<open>pt_owner t \<notin> Q\<close> in auto)
    next
      case False
      show ?thesis
        by (rule write_invariantI [of T w1 _ "S - {pt_owner t}" Q])
          (use None False S img okM kept step(1) in auto)
    qed
  next
    case (Some t')
    then have "\<not> ack" using step(3) by auto
    moreover have "image_mset pt_owner (M - {#t#} + {#t'#}) = mset_set S"
      using img S(1) o step(4) [OF Some] by (simp add: mset_set.remove)
    ultimately show ?thesis
      by (intro write_invariantI [of T w1 _ S Q])
        (use Some S okM kept step(1) step(4) [OF Some] in auto)
  qed
qed


subsection \<open>Coordinating a write\<close>

lemma wf_storeOwnHint [wf_intros]:
  assumes "wf_node T nd" and "wf_clock (hint_clock h)"
  shows "wf_node T (storeOwnHint t h nd)" and "same_member nd (storeOwnHint t h nd)"
  using assms wf_put_hint [OF assms(1) refl assms(2), of t]
  by (auto simp: storeOwnHint_def Let_def split: option.splits)

lemma same_member_commit: "same_member nd (snd (commitCoordinatedWrite k v ctx now nd))"
  by (simp add: commitCoordinatedWrite_def Let_def)

lemma local_write_facts:
  assumes "local_write E self k v ctx e w = (clock, w1)" and "wf_world T w" and "wf_clock_opt ctx"
    and "nodes w self = Some nd"
  shows "wf_world T w1" and "wf_clock clock" and "same_members w w1"
    and "hint_for_node_id e = None \<Longrightarrow> kept_for w1 k clock self"
proof -
  have nd: "wf_node T nd" "nd_id nd = self" using wf_worldD [OF assms(2,4)] by auto
  have "wf_world T w1 \<and> wf_clock clock \<and> same_members w w1 \<and>
      (hint_for_node_id e = None \<longrightarrow> kept_for w1 k clock self)"
  proof (cases "hint_for_node_id e")
    case None
    obtain c nd' where c: "commitCoordinatedWrite k v ctx (clock_at E (tick w)) nd = (c, nd')"
      by (cases "commitCoordinatedWrite k v ctx (clock_at E (tick w)) nd")
    note wf = wf_commitCoordinatedWrite [OF nd(1) assms(3), of k v "clock_at E (tick w)"]
    have sm: "same_member nd nd'" using same_member_commit [of nd k v ctx "clock_at E (tick w)"] c by simp
    have w1: "clock = c" "w1 = set_node self nd' (advance w)"
      using assms(1,4) None c by (auto simp: local_write_def)
    have "nd_kv nd' k = Some \<lparr>vv_value = v, vv_clock = c\<rparr>"
      using c by (auto simp: commitCoordinatedWrite_def Let_def)
    then have "kept_for w1 k clock self"
      by (auto simp: kept_for_def node_keeps_def w1)
    moreover have "same_members (advance w) w1"
      unfolding w1 by (rule same_members_set_node) (use assms(4) sm in simp_all)
    ultimately show ?thesis
      using w1 wf c nd sm assms(2) same_members_trans [of w "advance w" w1]
      by (simp add: wf_intros same_member_def)
  next
    case (Some owner)
    let ?now = "clock_at E (tick w)"
    let ?c = "buildNewClock ctx None (ple_node_id e) ?now"
    let ?h = "\<lparr>hint_key = k, hint_value = v, hint_clock = ?c, hint_created_at = clock_at E (tick w + 1)\<rparr>"
    let ?w = "advance (advance w)"
    have c: "wf_clock ?c" by (rule wf_buildNewClock [OF assms(3)]) simp
    have w1: "clock = ?c" "w1 = set_node self (storeOwnHint owner ?h nd) ?w"
      using assms(1,4) Some by (auto simp: local_write_def Let_def)
    note wf = wf_storeOwnHint [of T nd ?h owner]
    have "same_members ?w w1"
      unfolding w1 by (rule same_members_set_node) (use assms(4) wf nd c in simp_all)
    moreover have "same_members w ?w"
      by (rule same_members_trans [OF same_members_advance same_members_advance])
    ultimately show ?thesis
      using Some w1 c wf nd assms(2) same_members_trans [of w ?w w1]
      by (simp add: wf_intros same_member_def)
  qed
  then show "wf_world T w1" "wf_clock clock" "same_members w w1"
    "hint_for_node_id e = None \<Longrightarrow> kept_for w1 k clock self" by auto
qed

lemma run_writes_wf:
  assumes "run_writes E self k v c pool acks w = (acks', w')" and "wf_world T w" and "wf_clock c"
    and "\<forall>t \<in> set pool. task_ok t"
  shows "wf_world T w'"
proof -
  define P where "P M (acks :: nat) w \<longleftrightarrow> wf_world T w \<and> (\<forall>t \<in># M. task_ok t)" for M acks w
  have "P (mset pool) acks w" using assms by (simp add: P_def)
  then have "P {#} acks' w'"
  proof (rule run_writes_invariant [where P = P, OF assms(1)])
    fix t M acks w cont ack w1
    assume t: "t \<in># M" and P: "P M acks w" and step: "task_step E self k v c t w = (cont, ack, w1)"
    have wf: "wf_world T w" "task_ok t" using t P by (auto simp: P_def)
    note facts = task_step_facts [OF step wf(1) assms(3) wf(2)]
    show "P (M - {#t#} + (case cont of None \<Rightarrow> {#} | Some t' \<Rightarrow> {#t'#}))
        (if ack then acks + 1 else acks) w1"
      using P facts(1,4) by (auto simp: P_def dest: in_diffD split: option.split)
  qed
  then show ?thesis by (simp add: P_def)
qed

text \<open>A coordinator in the list runs its own write, then the others' threads.\<close>

lemma coordinatePut_cases:
  assumes "coordinatePut E self k v ctx pref W w = (resp, w')" and "find (\<lambda>e. ple_node_id e = self) pref = Some e"
  obtains (refused) "int (length pref) < W mod 2 ^ 64" "resp = put_refused" "w' = w"
  | (run) clock w1 acks where "\<not> int (length pref) < W mod 2 ^ 64"
      "local_write E self k v ctx e w = (clock, w1)"
      "run_writes E self k v clock (map (initial_task (map ple_node_id pref))
         (filter (\<lambda>e. ple_node_id e \<noteq> self) pref)) 1 w1 = (acks, w')"
      "resp = \<lparr>pr_success = \<not> int acks < W, pr_acks = acks, pr_context = clock\<rparr>"
proof (cases "int (length pref) < W mod 2 ^ 64")
  case True
  with assms(1) show ?thesis by (intro refused) (auto simp: coordinatePut_def)
next
  case False
  obtain clock w1 where l: "local_write E self k v ctx e w = (clock, w1)"
    by (cases "local_write E self k v ctx e w")
  obtain acks w2 where r: "run_writes E self k v clock (map (initial_task (map ple_node_id pref))
      (filter (\<lambda>e. ple_node_id e \<noteq> self) pref)) 1 w1 = (acks, w2)"
    by (cases "run_writes E self k v clock (map (initial_task (map ple_node_id pref))
      (filter (\<lambda>e. ple_node_id e \<noteq> self) pref)) 1 w1")
  with assms False l show ?thesis
    by (intro run [of clock w1 acks]) (auto simp: coordinatePut_def Let_def)
qed

lemma find_self:
  assumes "find (\<lambda>e. ple_node_id e = self) pref = Some e" and "distinct (map ple_node_id pref)"
  shows "e \<in> set pref" and "ple_node_id e = self"
    and "set (filter (\<lambda>e. ple_node_id e \<noteq> self) pref) = set pref - {e}"
  using assms by (auto simp: find_Some_iff distinct_map inj_on_def)

lemma coordinatePut_kept:
  assumes "coordinatePut E self k v ctx (preferenceListForKey nd k N) W w = (resp, w')"
    and "wf_world T w" and "nodes w self = Some nd" and "wf_clock_opt ctx"
    and "find (\<lambda>e. ple_node_id e = self) (preferenceListForKey nd k N) = Some e"
    and "hint_for_node_id e = None"
  shows "\<exists>Q \<subseteq> set (natural_owners (nd_ring nd) (key_hash k) N). card Q = pr_acks resp \<and>
    (\<forall>q \<in> Q. kept_for w' k (pr_context resp) q)"
  using assms(1,5)
proof (cases rule: coordinatePut_cases)
  case refused
  then show ?thesis by (intro exI [of _ "{}"]) (simp add: put_refused_def)
next
  case (run clock w1 acks)
  let ?pref = "preferenceListForKey nd k N" and ?U = "set (natural_owners (nd_ring nd) (key_hash k) N)"
  let ?rest = "filter (\<lambda>e. ple_node_id e \<noteq> self) ?pref"
  let ?pool = "map (initial_task (map ple_node_id ?pref)) ?rest"
  note loc = local_write_facts [OF run(2) assms(2,4,3)]
  have dist: "distinct (map ple_node_id ?pref)" "distinct (map entry_owner ?pref)"
    and nat: "set (map entry_owner ?pref) \<subseteq> ?U"
    unfolding preferenceListForKey_def Let_def
    by (rule preference_ids_distinct preference_owners_distinct preference_owners_natural)+
  note self = find_self [OF assms(5) dist(1)]
  have own: "entry_owner e = self" using self(2) assms(6) by (simp add: entry_owner_def)
  have inj: "inj_on entry_owner (set ?pref)" using dist(2) by (simp add: distinct_map)
  have fresh: "self \<notin> entry_owner ` set ?rest"
    using inj self(1,3) own by (fastforce simp: inj_on_def)
  have "image_mset pt_owner (mset ?pool) = mset (map entry_owner ?rest)"
    by (simp add: multiset.map_comp comp_def)
  also have "\<dots> = mset_set (entry_owner ` set ?rest)"
    using dist(2) mset_set_set [of "map entry_owner ?rest"] by (simp add: distinct_map_filter)
  finally have img: "image_mset pt_owner (mset ?pool) = mset_set (entry_owner ` set ?rest)" .
  have "write_invariant T k clock ?U (mset ?pool) 1 w1"
    by (rule write_invariantI [where S = "entry_owner ` set ?rest" and Q = "{self}", OF loc(1)])
      (use img fresh nat self(1) own loc(4) [OF assms(6)] in \<open>force+\<close>)
  then have "write_invariant T k clock ?U {#} acks w'"
    by (rule run_writes_invariant [where P = "write_invariant T k clock ?U", OF run(3)])
      (rule write_invariant_step [OF _ _ loc(2)])
  then show ?thesis using run(4) by (auto simp: write_invariant_def)
qed


subsection \<open>Writes whose calls are delivered\<close>

definition up :: "world \<Rightarrow> node_id \<Rightarrow> bool" where
  "up w a \<longleftrightarrow> (\<exists>n. nodes w a = Some n \<and> isSelfRemoved n = Some False)"

definition keeps_at :: "world \<Rightarrow> key \<Rightarrow> vector_clock \<Rightarrow> node_id \<Rightarrow> bool" where
  "keeps_at w k c a \<longleftrightarrow> (\<exists>n. nodes w a = Some n \<and> node_keeps n k c)"

lemma up_same: "same_members w w' \<Longrightarrow> up w a \<Longrightarrow> up w' a"
  using same_members_node by (fastforce simp: up_def isSelfRemoved_def same_member_def)

lemma keeps_at_set_node:
  "keeps_at w k c a \<Longrightarrow> nodes w b = Some nd \<Longrightarrow> (node_keeps nd k c \<Longrightarrow> node_keeps nd' k c) \<Longrightarrow>
   keeps_at (set_node b nd' w) k c a"
  by (auto simp: keeps_at_def)

lemma ReplicateWrite_up:
  "isSelfRemoved nd = Some False \<Longrightarrow>
   \<exists>resp nd'. ReplicateWrite req now nd = Some (resp, nd') \<and> rwr_success resp"
  by (cases "rw_hint_for req") (auto simp: ReplicateWrite_def Let_def split: prod.split)

lemma task_step_delivered:
  assumes "task_step E self k v c t w = (cont, ack, w1)" and "wf_world T w" and "wf_clock c"
    and "fate_at E (tick w) = Delivered" and "up w (pt_target t)"
  shows "cont = None" and "ack" and "keeps_at w k c a \<Longrightarrow> keeps_at w1 k c a"
    and "\<not> pt_hint t \<Longrightarrow> keeps_at w1 k c (pt_target t)"
proof -
  obtain nd where nd: "nodes w (pt_target t) = Some nd" "isSelfRemoved nd = Some False"
    using assms(5) by (auto simp: up_def)
  have wf: "wf_node T nd" using wf_worldD [OF assms(2) nd(1)] by simp
  let ?req = "task_request k v c t"
  have wfreq: "wf_clock (rw_clock ?req)" by (simp add: task_request_def assms(3))
  obtain resp nd' where h: "ReplicateWrite ?req (clock_at E (tick w)) nd = Some (resp, nd')"
    "rwr_success resp"
    using ReplicateWrite_up [OF nd(2)] by blast
  have "rpc E (pt_target t) (ReplicateWrite ?req) w =
      (Some resp, set_node (pt_target t) nd' (advance w))"
    using nd h assms(4) by (simp add: rpc_def)
  with assms(1) h(2) have r: "cont = None \<and> ack \<and> w1 = set_node (pt_target t) nd' (advance w)"
    by (simp add: task_step_def)
  then show "cont = None" "ack" by simp_all
  note keeps = ReplicateWrite_keeps [OF wf assms(3) h(1)]
  have "keeps_at (advance w) k c a" if "keeps_at w k c a" using that by (simp add: keeps_at_def)
  then show "keeps_at w k c a \<Longrightarrow> keeps_at w1 k c a"
    using r nd(1) keeps(1) keeps_at_set_node [of "advance w" k c a "pt_target t" nd nd'] by simp
  show "\<not> pt_hint t \<Longrightarrow> keeps_at w1 k c (pt_target t)"
    using r keeps(4) [OF h(2)] by (simp add: keeps_at_def)
qed

lemma run_writes_delivered:
  assumes "run_writes E self k v c pool acks w = (acks', w')" and "wf_world T w" and "wf_clock c"
    and "\<forall>t. fate_at E t = Delivered" and "\<forall>t \<in> set pool. up w (pt_target t)"
    and "\<forall>t \<in> set pool. task_ok t"
  shows "acks' = acks + length pool" and "keeps_at w k c a \<Longrightarrow> keeps_at w' k c a"
    and "t \<in> set pool \<Longrightarrow> \<not> pt_hint t \<Longrightarrow> keeps_at w' k c (pt_target t)"
proof -
  define P where "P M n x \<longleftrightarrow> wf_world T x \<and> same_members w x \<and> n + size M = acks + length pool \<and>
      (\<forall>t \<in># M. up x (pt_target t) \<and> task_ok t) \<and> (\<forall>a. keeps_at w k c a \<longrightarrow> keeps_at x k c a) \<and>
      (\<forall>t \<in> set pool. \<not> pt_hint t \<longrightarrow> t \<in># M \<or> keeps_at x k c (pt_target t))" for M n x
  have "P (mset pool) acks w" using assms(2,5,6) by (simp add: P_def)
  then have "P {#} acks' w'"
  proof (rule run_writes_invariant [where P = P, OF assms(1)])
    fix t M n x cont ack x1
    assume t: "t \<in># M" and P: "P M n x" and step: "task_step E self k v c t x = (cont, ack, x1)"
    have wf: "wf_world T x" and u: "up x (pt_target t)" and ok: "task_ok t"
      using t P by (auto simp: P_def)
    note del = task_step_delivered [OF step wf assms(3) assms(4) [rule_format] u]
    have sm: "same_members x x1" by (rule same_members_task_step [OF step])
    have sz: "size M = Suc (size (M - {#t#}))" using t by (simp add: size_Suc_Diff1)
    have wf1: "wf_world T x1" by (rule task_step_facts(1) [OF step wf assms(3) ok])
    have sm1: "same_members w x1" using P sm same_members_trans by (auto simp: P_def)
    have ups: "\<forall>t' \<in># M - {#t#}. up x1 (pt_target t') \<and> task_ok t'"
      using P up_same [OF sm] by (auto simp: P_def dest: in_diffD)
    have keeps: "s \<in># M - {#t#} \<or> keeps_at x1 k c (pt_target s)"
      if "s \<in> set pool" "\<not> pt_hint s" for s
      using P that del(3,4) by (cases "s = t") (auto simp: P_def in_diff_count)
    show "P (M - {#t#} + (case cont of None \<Rightarrow> {#} | Some t' \<Rightarrow> {#t'#}))
        (if ack then n + 1 else n) x1"
      using P del(1,2,3) sz wf1 sm1 ups keeps by (simp add: P_def)
  qed
  then show "acks' = acks + length pool" "keeps_at w k c a \<Longrightarrow> keeps_at w' k c a"
    "t \<in> set pool \<Longrightarrow> \<not> pt_hint t \<Longrightarrow> keeps_at w' k c (pt_target t)" by (auto simp: P_def)
qed

lemma local_write_keeps:
  "local_write E self k v ctx e w = (clock, w1) \<Longrightarrow> nodes w self = Some nd \<Longrightarrow>
   hint_for_node_id e = None \<Longrightarrow> keeps_at w1 k clock self"
  by (auto simp: local_write_def commitCoordinatedWrite_def Let_def keeps_at_def node_keeps_def)

text \<open>A write all of whose calls are delivered to running nodes is acknowledged by the whole list.\<close>

lemma coordinatePut_delivered:
  assumes "coordinatePut E self k v ctx (preferenceListForKey nd k N) W w = (resp, w')"
    and "wf_world T w" and "nodes w self = Some nd" and "wf_clock_opt ctx"
    and "find (\<lambda>e. ple_node_id e = self) (preferenceListForKey nd k N) = Some e"
    and "\<forall>t. fate_at E t = Delivered" and "\<forall>x \<in> set (preferenceListForKey nd k N). up w (ple_node_id x)"
    and "0 \<le> W" and "W \<le> int (length (preferenceListForKey nd k N))"
  shows "pr_success resp \<and> pr_acks resp = length (preferenceListForKey nd k N) \<and>
    (\<forall>x \<in> set (preferenceListForKey nd k N). hint_for_node_id x = None \<longrightarrow>
       keeps_at w' k (pr_context resp) (ple_node_id x))"
  using assms(1,5)
proof (cases rule: coordinatePut_cases)
  case refused
  have "W mod 2 ^ 64 \<le> W" using assms(8) by (simp add: zmod_le_nonneg_dividend)
  with refused(1) assms(9) show ?thesis by simp
next
  case (run clock w1 acks)
  let ?pref = "preferenceListForKey nd k N"
  let ?rest = "filter (\<lambda>e. ple_node_id e \<noteq> self) ?pref"
  let ?pool = "map (initial_task (map ple_node_id ?pref)) ?rest"
  note loc = local_write_facts [OF run(2) assms(2,4,3)]
  have dist: "distinct (map ple_node_id ?pref)"
    unfolding preferenceListForKey_def Let_def by (rule preference_ids_distinct)
  note self = find_self [OF assms(5) dist]
  have ups: "\<forall>t \<in> set ?pool. up w1 (pt_target t)"
    using assms(7) up_same [OF loc(3)] by auto
  have oks: "\<forall>t \<in> set ?pool. task_ok t" by simp
  note del = run_writes_delivered [OF run(3) loc(1,2) assms(6) ups oks]
  have "length ?rest = length ?pref - 1"
  proof -
    have "distinct ?pref" using dist by (simp add: distinct_map)
    then have "length ?rest = card (set ?rest)" "length ?pref = card (set ?pref)"
      by (simp_all add: distinct_card del: set_filter)
    moreover have "card (set ?rest) = card (set ?pref) - 1"
      unfolding self(3) using self(1) by simp
    ultimately show ?thesis by simp
  qed
  moreover have "length ?pref \<noteq> 0" using self(1) by auto
  ultimately have acks: "acks = length ?pref" using del(1) by simp
  have "keeps_at w' k clock (ple_node_id x)" if x: "x \<in> set ?pref" "hint_for_node_id x = None" for x
  proof (cases "x = e")
    case True
    then have "keeps_at w1 k clock (ple_node_id x)"
      using local_write_keeps [OF run(2) assms(3)] x(2) self(2) by simp
    then show ?thesis by (rule del(2))
  next
    case False
    then have "x \<in> set ?rest" using self(3) x(1) by blast
    then have "initial_task (map ple_node_id ?pref) x \<in> set ?pool" by simp
    from del(3) [OF this] show ?thesis using x(2) by simp
  qed
  then show ?thesis using run(4) acks assms(9) by simp
qed


subsection \<open>Put\<close>

lemma Put_coordinates:
  assumes "nodes w self = Some nd" and "isSelfRemoved nd = Some False"
    and "find (\<lambda>e. ple_node_id e = self) (preferenceListForKey nd (pq_key req) (nd_N nd)) = Some e"
    and "coordinatePut E self (pq_key req) (pq_value req) (Some (pq_context req))
           (preferenceListForKey nd (pq_key req) (nd_N nd)) (nd_W nd) w = (resp, w')"
  shows "Put E self req w = (Some resp, w')"
proof -
  have "self \<in> set (map ple_node_id (preferenceListForKey nd (pq_key req) (nd_N nd)))"
    using assms(3) by (force simp: find_Some_iff)
  with assms show ?thesis by (simp add: Put.simps Let_def)
qed

lemma Put_coordinates_obtain:
  assumes "nodes w self = Some nd" and "isSelfRemoved nd = Some False"
    and "find (\<lambda>e. ple_node_id e = self) (preferenceListForKey nd (pq_key req) (nd_N nd)) = Some e"
    and "Put E self req w = (Some resp, w')"
  shows "coordinatePut E self (pq_key req) (pq_value req) (Some (pq_context req))
    (preferenceListForKey nd (pq_key req) (nd_N nd)) (nd_W nd) w = (resp, w')"
proof -
  obtain r x where c: "coordinatePut E self (pq_key req) (pq_value req) (Some (pq_context req))
      (preferenceListForKey nd (pq_key req) (nd_N nd)) (nd_W nd) w = (r, x)"
    by (cases "coordinatePut E self (pq_key req) (pq_value req) (Some (pq_context req))
      (preferenceListForKey nd (pq_key req) (nd_N nd)) (nd_W nd) w")
  from Put_coordinates [OF assms(1-3) c] assms(4) c show ?thesis by simp
qed

text \<open>A running node that has its own entry answers every \<open>Put\<close>.\<close>

lemma Put_total:
  assumes "nodes w self = Some nd" and "isSelfRemoved nd = Some b"
  shows "\<exists>resp w'. Put E self req w = (Some resp, w')"
  using assms by (subst Put.simps) (auto simp: Let_def split: bool.split prod.split)

subsection \<open>Properties\<close>

definition demo_request :: PutRequest where
  "demo_request = \<lparr>pq_key = ''k'', pq_value = ''v'', pq_context = empty_clock, pq_forwarded = False\<rparr>"

definition demo_write_world :: world where
  "demo_write_world = demo_world (demo_node ''A'' [] Map.empty Map.empty)
     (demo_node ''B'' [] Map.empty Map.empty) (demo_node ''C'' [] Map.empty Map.empty)"

lemma wf_demo_write_world: "wf_world demo_T demo_write_world"
  unfolding demo_write_world_def
  by (rule wf_demo_world; (rule wf_demo_node)?) (simp_all add: wf_store_def wf_hint_table_def)

lemma demo_write_A:
  "nodes demo_write_world ''A'' = Some (demo_node ''A'' [] Map.empty Map.empty)"
  by (simp add: demo_write_world_def)

lemma demo_find_A:
  "find (\<lambda>e. ple_node_id e = ''A'')
     (preferenceListForKey (demo_node ''A'' [] kv ht) ''k'' 3) = Some (natural_entry ''A'')"
  by (simp add: demo_preference)

text \<open>
C20. A write goes through when nothing fails: if the coordinator is in the key's list, the list has at
least \<open>W\<close> entries, its nodes run and are not removed, and the calls are delivered, then in every
order of the threads \<open>Put\<close> succeeds with an ack of every entry, and every natural owner in the list
holds the written version or a newer one.
\<close>
theorem Put_delivered_succeeds:
  assumes "wf_world T w" and "nodes w self = Some nd" and "isSelfRemoved nd = Some False"
    and "wf_clock (pq_context req)"
    and "find (\<lambda>e. ple_node_id e = self) (preferenceListForKey nd (pq_key req) (nd_N nd)) = Some e"
    and "\<forall>t. fate_at E t = Delivered"
    and "\<forall>x \<in> set (preferenceListForKey nd (pq_key req) (nd_N nd)). up w (ple_node_id x)"
    and "nd_W nd \<le> int (length (preferenceListForKey nd (pq_key req) (nd_N nd)))"
  shows "\<exists>resp w'. Put E self req w = (Some resp, w') \<and> pr_success resp \<and>
    pr_acks resp = length (preferenceListForKey nd (pq_key req) (nd_N nd)) \<and>
    (\<forall>x \<in> set (preferenceListForKey nd (pq_key req) (nd_N nd)). hint_for_node_id x = None \<longrightarrow>
       keeps_at w' (pq_key req) (pr_context resp) (ple_node_id x))"
proof -
  obtain resp w' where c: "coordinatePut E self (pq_key req) (pq_value req) (Some (pq_context req))
      (preferenceListForKey nd (pq_key req) (nd_N nd)) (nd_W nd) w = (resp, w')"
    by (cases "coordinatePut E self (pq_key req) (pq_value req) (Some (pq_context req))
      (preferenceListForKey nd (pq_key req) (nd_N nd)) (nd_W nd) w")
  have "wf_clock_opt (Some (pq_context req))" using assms(4) by simp
  moreover have "0 \<le> nd_W nd"
    using wf_worldD [OF assms(1,2)] by (simp add: wf_node_def wf_member_def valid_quorum_def)
  ultimately show ?thesis
    using coordinatePut_delivered [OF c assms(1,2) _ assms(5-7) _ assms(8)] Put_coordinates [OF assms(2,3,5) c]
    by blast
qed

theorem Put_delivered_succeeds_witness:
  "\<exists>resp w'. Put calm ''A'' demo_request demo_write_world = (Some resp, w') \<and> pr_success resp \<and>
     pr_acks resp = 3 \<and> keeps_at w' ''k'' (pr_context resp) ''C''"
proof -
  let ?A = "demo_node ''A'' [] Map.empty Map.empty"
  have up: "isSelfRemoved ?A = Some False" by (simp add: demo_up)
  have f: "find (\<lambda>e. ple_node_id e = ''A'') (preferenceListForKey ?A (pq_key demo_request) (nd_N ?A)) =
      Some (natural_entry ''A'')"
    using demo_find_A by (simp add: demo_request_def)
  have wfc: "wf_clock (pq_context demo_request)" by (simp add: demo_request_def wf_intros)
  have ups: "\<forall>x \<in> set (preferenceListForKey ?A (pq_key demo_request) (nd_N ?A)).
      up demo_write_world (ple_node_id x)"
    by (simp add: demo_request_def demo_preference up_def demo_write_world_def demo_up)
  from Put_delivered_succeeds [OF wf_demo_write_world demo_write_A up wfc f _ ups, of calm]
  show ?thesis by (simp add: demo_request_def demo_preference numeral_3_eq_3) blast
qed


definition stand_in :: node where
  "stand_in = (demo_node ''B'' [''A''] Map.empty Map.empty)\<lparr>nd_N := 1, nd_W := 1, nd_R := 1\<rparr>"

lemma stand_in_simps [simp]:
  "nd_id stand_in = ''B''" "nd_table stand_in = demo_table" "nd_ring stand_in = demo_ring"
  "nd_unreachable stand_in = [''A'']" "nd_kv stand_in = Map.empty" "nd_hints stand_in = Map.empty"
  "nd_N stand_in = 1" "nd_W stand_in = 1"
  by (simp_all add: stand_in_def)

definition blind_put :: "string \<Rightarrow> PutRequest" where
  "blind_put v = \<lparr>pq_key = ''k'', pq_value = v, pq_context = empty_clock, pq_forwarded = False\<rparr>"

lemma stand_in_put:
  assumes "nodes w ''B'' = Some nd" and "nd_ring nd = demo_ring" and "nd_table nd = demo_table"
    and "nd_id nd = ''B''" and "nd_unreachable nd = [''A'']" and "nd_N nd = 1" and "nd_W nd = 1"
  shows "Put E ''B'' (blind_put v) w =
    (Some \<lparr>pr_success = True, pr_acks = 1,
       pr_context = buildNewClock (Some empty_clock) None ''B'' (clock_at E (tick w))\<rparr>,
     set_node ''B'' (storeOwnHint ''A''
       \<lparr>hint_key = ''k'', hint_value = v,
        hint_clock = buildNewClock (Some empty_clock) None ''B'' (clock_at E (tick w)),
        hint_created_at = clock_at E (tick w + 1)\<rparr> nd) (advance (advance w)))"
proof -
  have pref: "preferenceListForKey nd ''k'' 1 = [hint_entry (''B'', ''A'')]"
    using assms(2,5) by (simp add: demo_preference_one)
  have up: "isSelfRemoved nd = Some False" using assms(3,4) by (intro demo_up) simp_all
  have "coordinatePut E ''B'' ''k'' v (Some empty_clock) [hint_entry (''B'', ''A'')] 1 w =
    (\<lparr>pr_success = True, pr_acks = 1,
       pr_context = buildNewClock (Some empty_clock) None ''B'' (clock_at E (tick w))\<rparr>,
     set_node ''B'' (storeOwnHint ''A''
       \<lparr>hint_key = ''k'', hint_value = v,
        hint_clock = buildNewClock (Some empty_clock) None ''B'' (clock_at E (tick w)),
        hint_created_at = clock_at E (tick w + 1)\<rparr> nd) (advance (advance w)))"
    by (simp add: coordinatePut_def local_write_def assms(1) run_writes.simps Let_def)
  then show ?thesis
    using assms up pref by (simp add: Put.simps blind_put_def Let_def)
qed

text \<open>
C36. An acknowledged write can be lost without any failure: \<open>B\<close> stands in for the unreachable \<open>A\<close>
(\<open>N = W = R = 1\<close>) and coordinates two writes without context.  Both clocks are \<open>{B: 1}\<close>, since a
stand-in builds its clock without a local copy, and \<open>coordinatePut\<close> keeps a held hint unless it is
dominated; so the second write is acknowledged as a success, and afterwards the only copy in the
whole cluster is the hint with the first value.
\<close>
theorem stand_in_loses_second_write:
  "\<exists>w1 w2 c1 c2 h n.
     Put E ''B'' (blind_put v1) (demo_world (demo_node ''A'' [] Map.empty Map.empty) stand_in
         (demo_node ''C'' [] Map.empty Map.empty)) =
       (Some \<lparr>pr_success = True, pr_acks = 1, pr_context = c1\<rparr>, w1) \<and>
     Put E ''B'' (blind_put v2) w1 = (Some \<lparr>pr_success = True, pr_acks = 1, pr_context = c2\<rparr>, w2) \<and>
     nodes w2 = [''A'' \<mapsto> demo_node ''A'' [] Map.empty Map.empty, ''B'' \<mapsto> n,
                 ''C'' \<mapsto> demo_node ''C'' [] Map.empty Map.empty] \<and>
     nd_kv n = Map.empty \<and> nd_hints n = [''A'' \<mapsto> [(''k'', h)]] \<and> hint_value h = v1"
proof -
  let ?w = "demo_world (demo_node ''A'' [] Map.empty Map.empty) stand_in
         (demo_node ''C'' [] Map.empty Map.empty)"
  let ?c = "\<lambda>t. buildNewClock (Some empty_clock) None ''B'' t"
  let ?h = "\<lambda>v t u. \<lparr>hint_key = ''k'', hint_value = v, hint_clock = ?c t, hint_created_at = u\<rparr>"
  let ?t = "clock_at E 0" and ?u = "clock_at E 1" and ?t' = "clock_at E 2" and ?u' = "clock_at E 3"
  let ?n = "put_hint ''A'' ''k'' (?h v1 ?t ?u) stand_in"
  have s1: "storeOwnHint ''A'' (?h v1 ?t ?u) stand_in = ?n"
    by (simp add: storeOwnHint_def)
  have wf: "wf_clock (?c t)" for t by (rule wf_buildNewClock) (simp_all add: wf_intros)
  have "counter_of (?c t) = counter_of (?c t')" for t t'
    by (simp add: counter_buildNewClock wf_intros)
  then have "compareVectorClocks (?c ?t) (?c ?t') = EQUAL"
    using wf by (simp add: vc.cmp_EQUAL)
  then have s2: "storeOwnHint ''A'' (?h v2 ?t' ?u') ?n = ?n"
    by (simp add: storeOwnHint_def put_hint_def Let_def)
  let ?w1 = "set_node ''B'' ?n (advance (advance ?w))"
  have p1: "Put E ''B'' (blind_put v1) ?w = (Some \<lparr>pr_success = True, pr_acks = 1, pr_context = ?c ?t\<rparr>, ?w1)"
    by (subst stand_in_put [where nd = stand_in]) (simp_all add: s1 [simplified])
  have p2: "Put E ''B'' (blind_put v2) ?w1 = (Some \<lparr>pr_success = True, pr_acks = 1, pr_context = ?c ?t'\<rparr>,
      set_node ''B'' ?n (advance (advance ?w1)))"
    by (subst stand_in_put [where nd = ?n])
      (simp_all add: s2 [unfolded put_hint_def numeral_2_eq_2 numeral_3_eq_3, simplified] put_hint_def numeral_2_eq_2 numeral_3_eq_3)
  let ?w2 = "set_node ''B'' ?n (advance (advance ?w1))"
  have nodes2: "nodes ?w2 = [''A'' \<mapsto> demo_node ''A'' [] Map.empty Map.empty, ''B'' \<mapsto> ?n,
      ''C'' \<mapsto> demo_node ''C'' [] Map.empty Map.empty]"
    by (auto simp: fun_eq_iff)
  have held: "nd_kv ?n = Map.empty \<and> nd_hints ?n = [''A'' \<mapsto> [(''k'', ?h v1 ?t ?u)]] \<and>
      hint_value (?h v1 ?t ?u) = v1"
    by (simp add: put_hint_def)
  show ?thesis
    by (rule exI)+ (rule conjI, rule p1, rule conjI, rule p2, rule conjI, rule nodes2, rule held)
qed


text \<open>
Acks count owners, not machines: with \<open>N = W = 3\<close> and the calls to \<open>B\<close> and \<open>C\<close> lost, both
fan-out threads of the coordinator \<open>A\<close> look for a substitute on their own and both find \<open>D\<close>.  The
write is a success with 3 acks although only \<open>A\<close> and \<open>D\<close> have it.
\<close>
theorem two_acks_from_one_stand_in:
  "\<exists>w' c d. Put (calm\<lparr>fate_at := \<lambda>t. if t = 1 \<or> t = 3 then RequestLost else Delivered\<rparr>) ''A''
       (blind_put ''v'')
       (demo_world4 ((demo_node ''A'' [] Map.empty Map.empty)\<lparr>nd_W := 3\<rparr>)
          (demo_node ''B'' [] Map.empty Map.empty) (demo_node ''C'' [] Map.empty Map.empty)
          (demo_node ''D'' [] Map.empty Map.empty)) =
     (Some \<lparr>pr_success = True, pr_acks = 3, pr_context = c\<rparr>, w') \<and>
     nodes w' ''B'' = Some (demo_node ''B'' [] Map.empty Map.empty) \<and>
     nodes w' ''C'' = Some (demo_node ''C'' [] Map.empty Map.empty) \<and>
     nodes w' ''D'' = Some d \<and> hint_keeps d ''B'' ''k'' c \<and> hint_keeps d ''C'' ''k'' c"
  by (simp add: Put.simps blind_put_def demo_eval coordinatePut_def local_write_def Let_def
      commitCoordinatedWrite_def run_writes.simps next_thread_def task_step_def rpc_def calm_def
      initial_task_def task_request_def ReplicateWrite_def task_retry_def update_node_def
      markUnreachable_def receiveHint_alt hint_at_def put_hint_def hint_keeps_def)

lemma Put_forwarded_response:
  assumes "pq_forwarded req" and "Put E a req w = (Some resp, w')"
  shows "resp = put_refused \<or> (\<exists>nd. nodes w a = Some nd \<and> isSelfRemoved nd = Some False \<and>
    a \<in> set (map ple_node_id (preferenceListForKey nd (pq_key req) (nd_N nd))) \<and>
    coordinatePut E a (pq_key req) (pq_value req) (Some (pq_context req))
      (preferenceListForKey nd (pq_key req) (nd_N nd)) (nd_W nd) w = (resp, w'))"
  using assms by (auto simp: Put.simps Let_def split: option.splits bool.splits if_splits prod.splits)


lemma forward_loop_response:
  assumes "forward_loop E self ts req w = (resp, w')"
  shows "resp = put_refused \<or> (\<exists>a \<in> set ts. \<exists>wa nd wb. nodes wa a = Some nd \<and> isSelfRemoved nd = Some False \<and>
    a \<in> set (map ple_node_id (preferenceListForKey nd (pq_key req) (nd_N nd))) \<and>
    coordinatePut E a (pq_key req) (pq_value req) (Some (pq_context req))
      (preferenceListForKey nd (pq_key req) (nd_N nd)) (nd_W nd) wa = (resp, wb))"
  using assms
proof (induction ts arbitrary: w)
  case (Cons t ts)
  let ?mark = "update_node self (markUnreachable t)"
  obtain r w1 where put: "Put E t (req\<lparr>pq_forwarded := True\<rparr>) (advance w) = (r, w1)"
    by (cases "Put E t (req\<lparr>pq_forwarded := True\<rparr>) (advance w)")
  have "(\<exists>x. forward_loop E self ts req x = (resp, w')) \<or> r = Some resp"
    using Cons.prems put by (auto split: if_splits option.splits)
  then show ?case
  proof
    assume "\<exists>x. forward_loop E self ts req x = (resp, w')"
    with Cons.IH show ?thesis by fastforce
  next
    assume "r = Some resp"
    with put have "Put E t (req\<lparr>pq_forwarded := True\<rparr>) (advance w) = (Some resp, w1)" by simp
    from Put_forwarded_response [OF _ this] show ?thesis
      by (auto intro!: exI [of _ "advance w"])
  qed
qed simp

text \<open>
Every verdict of \<open>Put\<close> comes from exactly one kind of place: it is the refusal (no success, no
acks, empty context), or the response of \<open>coordinatePut\<close> run at a node that is not removed and is in
its own preference list for the key: the node asked, or, for a request that was not forwarded before,
one of the nodes of its preference list.  So no verdict has travelled over more than one forwarding.
\<close>
theorem Put_verdict_origin:
  assumes "Put E self req w = (Some resp, w')" and "nodes w self = Some nd"
  shows "resp = \<lparr>pr_success = False, pr_acks = 0, pr_context = empty_clock\<rparr> \<or>
    (\<exists>a wa m wb.
      (a = self \<or> \<not> pq_forwarded req \<and>
         a \<in> set (map ple_node_id (preferenceListForKey nd (pq_key req) (nd_N nd)))) \<and>
      nodes wa a = Some m \<and> isSelfRemoved m = Some False \<and>
      a \<in> set (map ple_node_id (preferenceListForKey m (pq_key req) (nd_N m))) \<and>
      coordinatePut E a (pq_key req) (pq_value req) (Some (pq_context req))
        (preferenceListForKey m (pq_key req) (nd_N m)) (nd_W m) wa = (resp, wb))"
proof -
  let ?pref = "preferenceListForKey nd (pq_key req) (nd_N nd)"
  have self: "resp = put_refused \<or> (self \<in> set (map ple_node_id ?pref) \<and> isSelfRemoved nd = Some False \<and>
      coordinatePut E self (pq_key req) (pq_value req) (Some (pq_context req)) ?pref (nd_W nd) w = (resp, w')) \<or>
      (\<not> pq_forwarded req \<and> (\<exists>n x. forward_loop E self (rotate n (map ple_node_id ?pref)) req x = (resp, w')))"
    using assms by (auto simp: Put.simps Let_def split: option.splits bool.splits if_splits prod.splits)
  then consider "resp = put_refused" | "self \<in> set (map ple_node_id ?pref)" "isSelfRemoved nd = Some False"
      "coordinatePut E self (pq_key req) (pq_value req) (Some (pq_context req)) ?pref (nd_W nd) w = (resp, w')"
    | n x where "\<not> pq_forwarded req" "forward_loop E self (rotate n (map ple_node_id ?pref)) req x = (resp, w')"
    by blast
  then show ?thesis
  proof cases
    case 1
    then show ?thesis by (simp add: put_refused_def)
  next
    case 2
    with assms(2) show ?thesis by blast
  next
    case 3
    from forward_loop_response [OF 3(2)] 3(1) show ?thesis
      unfolding put_refused_def set_rotate by blast
  qed
qed

theorem Put_verdict_origin_witness:
  "\<exists>resp w'. Put calm ''D'' demo_request (demo_world4 (demo_node ''A'' [] Map.empty Map.empty)
       (demo_node ''B'' [] Map.empty Map.empty) (demo_node ''C'' [] Map.empty Map.empty)
       (demo_node ''D'' [] Map.empty Map.empty)) = (Some resp, w') \<and>
     (resp = \<lparr>pr_success = False, pr_acks = 0, pr_context = empty_clock\<rparr> \<or>
      (\<exists>a wa m wb. a \<in> {''A'', ''B'', ''C'', ''D''} \<and> nodes wa a = Some m \<and>
         coordinatePut calm a ''k'' ''v'' (Some empty_clock)
           (preferenceListForKey m ''k'' (nd_N m)) (nd_W m) wa = (resp, wb)))"
proof -
  let ?D = "demo_node ''D'' [] Map.empty Map.empty"
  let ?w = "demo_world4 (demo_node ''A'' [] Map.empty Map.empty) (demo_node ''B'' [] Map.empty Map.empty)
      (demo_node ''C'' [] Map.empty Map.empty) ?D"
  obtain resp w' where put: "Put calm ''D'' demo_request ?w = (Some resp, w')"
    using Put_total [of ?w "''D''" ?D False calm demo_request] by (auto simp: demo_up)
  have D: "nodes ?w ''D'' = Some ?D" by simp
  from Put_verdict_origin [OF put D] have
    "resp = \<lparr>pr_success = False, pr_acks = 0, pr_context = empty_clock\<rparr> \<or>
      (\<exists>a wa m wb. a \<in> {''A'', ''B'', ''C'', ''D''} \<and> nodes wa a = Some m \<and>
         coordinatePut calm a ''k'' ''v'' (Some empty_clock)
           (preferenceListForKey m ''k'' (nd_N m)) (nd_W m) wa = (resp, wb))"
    by (simp add: demo_request_def demo_preference) blast
  with put show ?thesis by blast
qed

end
