(* ===== verification/Put_Invariants.thy ===== *)
theory Put_Invariants
  imports Write_Path
begin

text \<open>
  What every \<open>Put\<close> keeps, forwarded or not and whatever its calls' fates: well-formed worlds and
  the membership of all nodes; and that the clock it returns is built on the client's context.
\<close>

lemma wf_coordinatePut:
  assumes "coordinatePut E self k v ctx (preferenceListForKey nd k N) W w = (resp, w')"
    and "wf_world T w" and "nodes w self = Some nd" and "wf_clock_opt ctx"
    and "self \<in> set (map ple_node_id (preferenceListForKey nd k N))"
  shows "wf_world T w'" and "same_members w w'"
    and "resp = put_refused \<or> (\<exists>b. wf_clock_opt b \<and>
      pr_context resp = buildNewClock ctx b self (clock_at E (tick w)))"
proof -
  let ?pref = "preferenceListForKey nd k N"
  have "find (\<lambda>e. ple_node_id e = self) ?pref \<noteq> None"
    using assms(5) by (auto simp: find_None_iff)
  then obtain e where e: "find (\<lambda>e. ple_node_id e = self) ?pref = Some e" by blast
  have dist: "distinct (map ple_node_id ?pref)"
    unfolding preferenceListForKey_def Let_def by (rule preference_ids_distinct)
  have wfn: "wf_node T nd" "nd_id nd = self" using wf_worldD [OF assms(2,3)] by auto
  have "wf_world T w' \<and> same_members w w' \<and> (resp = put_refused \<or> (\<exists>b. wf_clock_opt b \<and>
      pr_context resp = buildNewClock ctx b self (clock_at E (tick w))))"
    using assms(1) e
  proof (cases rule: coordinatePut_cases)
    case refused
    with assms(2) show ?thesis by simp
  next
    case (run clock w1 acks)
    note loc = local_write_facts [OF run(2) assms(2,4,3)]
    have "wf_world T w'" by (rule run_writes_wf [OF run(3) loc(1,2)]) simp
    moreover have "same_members w1 w'"
      using run(3)
    proof (rule run_writes_invariant [where P = "\<lambda>M acks x. same_members w1 x"])
      fix t M acks x cont ack x1
      assume "same_members w1 x" "task_step E self k v clock t x = (cont, ack, x1)"
      then show "same_members w1 x1" using same_members_task_step same_members_trans by blast
    qed simp
    moreover have "\<exists>b. wf_clock_opt b \<and> clock = buildNewClock ctx b self (clock_at E (tick w))"
    proof (cases "hint_for_node_id e")
      case None
      have "wf_clock_opt (map_option vv_clock (nd_kv nd k))"
        using wfn(1) by (auto simp: wf_node_def wf_store_def wf_clock_opt_def)
      with None run(2) assms(3) wfn(2) show ?thesis
        by (auto simp: local_write_def commitCoordinatedWrite_def Let_def)
    next
      case (Some owner)
      with run(2) assms(3) find_self(2) [OF e dist] show ?thesis
        by (intro exI [of _ None]) (auto simp: local_write_def Let_def)
    qed
    ultimately show ?thesis using loc(3) run(4) same_members_trans by auto
  qed
  then show "wf_world T w'" "same_members w w'" "resp = put_refused \<or> (\<exists>b. wf_clock_opt b \<and>
      pr_context resp = buildNewClock ctx b self (clock_at E (tick w)))" by auto
qed

text \<open>The clock of a write that was not refused is built on the client's context.\<close>

definition built_on :: "vector_clock \<Rightarrow> PutResponse \<Rightarrow> bool" where
  "built_on ctx resp \<longleftrightarrow> (\<exists>b a now. wf_clock_opt b \<and> pr_context resp = buildNewClock (Some ctx) b a now)"

lemma Put_unforwarded_cases:
  assumes "nodes w self = Some nd" and "Put E self req w = (r, w')"
  obtains (stay) "w' = w" "r = None \<or> r = Some put_refused"
  | (coordinate) resp where "r = Some resp"
      "self \<in> set (map ple_node_id (preferenceListForKey nd (pq_key req) (nd_N nd)))"
      "coordinatePut E self (pq_key req) (pq_value req) (Some (pq_context req))
        (preferenceListForKey nd (pq_key req) (nd_N nd)) (nd_W nd) w = (resp, w')"
  | (forward) resp ts where "r = Some resp" "\<not> pq_forwarded req"
      "forward_loop E self ts req (advance w) = (resp, w')"
proof -
  show ?thesis
    using assms that
    by (simp add: Put.simps Let_def split: option.splits bool.splits if_splits prod.splits) blast+
qed

lemma wf_Put_forwarded:
  assumes "Put E self req w = (r, w')" and "pq_forwarded req" and "wf_world T w" and "wf_clock (pq_context req)"
  shows "wf_world T w' \<and> same_members w w' \<and>
    (\<forall>resp. r = Some resp \<longrightarrow> resp = put_refused \<or> built_on (pq_context req) resp)"
proof (cases "nodes w self")
  case None
  with assms show ?thesis by (simp add: Put.simps)
next
  case (Some nd)
  from Some assms(1) show ?thesis
  proof (cases rule: Put_unforwarded_cases)
    case stay
    with assms(3) show ?thesis by auto
  next
    case (coordinate resp)
    have "wf_clock_opt (Some (pq_context req))" using assms(4) by simp
    from wf_coordinatePut [OF coordinate(3) assms(3) Some this coordinate(2)] coordinate(1)
    show ?thesis by (auto simp: built_on_def)
  next
    case forward
    with assms(2) show ?thesis by simp
  qed
qed

lemma wf_forward_loop:
  assumes "forward_loop E self ts req w = (resp, w')" and "wf_world T w" and "wf_clock (pq_context req)"
  shows "wf_world T w' \<and> same_members w w' \<and> (resp = put_refused \<or> built_on (pq_context req) resp)"
  using assms(1,2)
proof (induction ts arbitrary: w)
  case (Cons t ts)
  let ?mark = "update_node self (markUnreachable t)"
  obtain r w1 where put: "Put E t (req\<lparr>pq_forwarded := True\<rparr>) (advance w) = (r, w1)"
    by (cases "Put E t (req\<lparr>pq_forwarded := True\<rparr>) (advance w)")
  have p: "wf_world T w1 \<and> same_members (advance w) w1 \<and>
      (\<forall>resp. r = Some resp \<longrightarrow> resp = put_refused \<or> built_on (pq_context req) resp)"
    using wf_Put_forwarded [OF put _ wf_advance [OF Cons.prems(2)]] assms(3) by simp
  have mark: "same_members x (?mark x)" for x by (rule same_members_update) simp
  have sm1: "same_members w w1" using p same_members_trans [OF same_members_advance] by blast
  have "(\<exists>x. forward_loop E self ts req x = (resp, w') \<and> wf_world T x \<and> same_members w x) \<or>
      (r = Some resp \<and> w' = w1)"
  proof -
    have "forward_loop E self ts req (?mark (advance w)) = (resp, w') \<or>
        forward_loop E self ts req (?mark w1) = (resp, w') \<or> (r = Some resp \<and> w' = w1)"
      using Cons.prems(1) put by (auto split: if_splits option.splits)
    moreover have "wf_world T (?mark (advance w))" "wf_world T (?mark w1)"
      using p Cons.prems(2) by (auto intro!: wf_intros)
    moreover have "same_members w (?mark (advance w))" "same_members w (?mark w1)"
      using mark sm1 same_members_trans same_members_advance by blast+
    ultimately show ?thesis by blast
  qed
  then show ?case using Cons.IH p sm1 same_members_trans by blast
qed simp

lemma wf_Put:
  assumes "Put E self req w = (r, w')" and "wf_world T w" and "wf_clock (pq_context req)"
  shows "wf_world T w'" and "same_members w w'"
    and "r = Some resp \<Longrightarrow> resp = put_refused \<or> built_on (pq_context req) resp"
proof -
  have "wf_world T w' \<and> same_members w w' \<and> (\<forall>resp. r = Some resp \<longrightarrow> resp = put_refused \<or> built_on (pq_context req) resp)"
  proof (cases "nodes w self")
    case None
    with assms show ?thesis by (simp add: Put.simps)
  next
    case (Some nd)
    from Some assms(1) show ?thesis
    proof (cases rule: Put_unforwarded_cases)
      case stay
      with assms(2) show ?thesis by auto
    next
      case (coordinate resp)
      have "wf_clock_opt (Some (pq_context req))" using assms(3) by simp
      from wf_coordinatePut [OF coordinate(3) assms(2) Some this coordinate(2)] coordinate(1)
      show ?thesis by (auto simp: built_on_def)
    next
      case (forward resp ts)
      from wf_forward_loop [OF forward(3) wf_advance [OF assms(2)] assms(3)] forward(1)
      show ?thesis using same_members_trans [OF same_members_advance] by blast
    qed
  qed
  then show "wf_world T w'" "same_members w w'"
    "r = Some resp \<Longrightarrow> resp = put_refused \<or> built_on (pq_context req) resp" by auto
qed

end
