(* ===== verification/Read_Path.thy ===== *)
theory Read_Path
  imports Coordinator Scenario
begin

text \<open>
  The read side of \<^verbatim>\<open>src/src/node_kv.cpp\<close>: \<open>Get\<close> with its fan-out, its resolution
  and its self-repair, and \<open>repairReplicas\<close>, which \<open>Get\<close> starts in a detached thread: a
  job of the world that the environment runs at some later time, or never.
\<close>

record ReplicaResult =
  rr_peer_id :: node_id
  rr_found :: bool
  rr_value :: string
  rr_clock :: vector_clock

definition local_result :: "node \<Rightarrow> key \<Rightarrow> ReplicaResult" where
  "local_result nd k =
     (case localGet nd k of
        None \<Rightarrow> \<lparr>rr_peer_id = nd_id nd, rr_found = False, rr_value = [], rr_clock = empty_clock\<rparr>
      | Some v \<Rightarrow> \<lparr>rr_peer_id = nd_id nd, rr_found = True, rr_value = vv_value v, rr_clock = vv_clock v\<rparr>)"

text \<open>One thread of the fan-out: only a call that fails is not recorded.\<close>

definition read_step :: "env \<Rightarrow> node_id \<Rightarrow> key \<Rightarrow> node_id \<Rightarrow> ReplicaResult list \<Rightarrow> world
    \<Rightarrow> ReplicaResult list \<times> world" where
  "read_step E self k peer results w =
     (case rpc E peer (\<lambda>now nd. ReplicateRead k nd) w of
        (Some resp, w1) \<Rightarrow>
          (results @ [if rrr_found resp
             then \<lparr>rr_peer_id = peer, rr_found = True, rr_value = rrr_value resp, rr_clock = rrr_clock resp\<rparr>
             else \<lparr>rr_peer_id = peer, rr_found = False, rr_value = [], rr_clock = empty_clock\<rparr>], w1)
      | (None, w1) \<Rightarrow> (results, update_node self (markUnreachable peer) w1))"

definition found_versions :: "ReplicaResult list \<Rightarrow> VersionedValue list" where
  "found_versions results =
     map (\<lambda>r. \<lparr>vv_value = rr_value r, vv_clock = rr_clock r\<rparr>) (filter rr_found results)"

definition stale :: "VersionedValue \<Rightarrow> ReplicaResult \<Rightarrow> bool" where
  "stale win r \<longleftrightarrow> \<not> rr_found r \<or> compareVectorClocks (rr_clock r) (vv_clock win) \<noteq> EQUAL"

text \<open>What \<open>Get\<close> does once it has a winner: repair itself, and leave the stale peers to a job.\<close>

definition start_repair :: "node_id \<Rightarrow> key \<Rightarrow> VersionedValue \<Rightarrow> ReplicaResult list \<Rightarrow> world \<Rightarrow> world" where
  "start_repair self k win results w =
     (let needs = filter (stale win) results;
          self_needs_repair = (\<exists>r \<in> set needs. rr_peer_id r = self);
          stale_peers = map rr_peer_id (filter (\<lambda>r. rr_peer_id r \<noteq> self) needs);
          w1 = (if self_needs_repair
                then update_node self (\<lambda>nd. snd (storeReplicatedWrite k win nd)) w else w)
      in if stale_peers = [] then w1
         else w1\<lparr>jobs := jobs w1 @
           [\<lparr>job_node = self, job_key = k, job_winner = win, job_peers = stale_peers\<rparr>]\<rparr>)"

text \<open>\<open>None\<close>: the handler threw, its assertion failed, or no process listens.\<close>

definition Get :: "env \<Rightarrow> node_id \<Rightarrow> key \<Rightarrow> world \<Rightarrow> GetResponse option \<times> world" where
  "Get E self k w =
     (case nodes w self of
        None \<Rightarrow> (None, w)
      | Some nd \<Rightarrow>
          (case isSelfRemoved nd of
             None \<Rightarrow> (None, w)
           | Some True \<Rightarrow> (Some get_refused, w)
           | Some False \<Rightarrow>
               (let pref_list = preferenceListForKey nd k (nd_N nd);
                    ids = map ple_node_id pref_list
                in if int (length pref_list) < nd_R nd then (Some get_refused, w)
                   else
                     (let (results, w1) =
                            run_once E (read_step E self k) (filter (\<lambda>p. p \<noteq> self) ids)
                              (if self \<in> set ids then [local_result nd k] else []) w;
                          none_found = get_refused\<lparr>ge_responses := length results\<rparr>
                      in if int (length results) < nd_R nd then (Some none_found, w1)
                         else if found_versions results = [] then (Some none_found, w1)
                         else (case resolveGetResult (found_versions results) of
                                 None \<Rightarrow> (None, w1)
                               | Some resolved \<Rightarrow>
                                   (Some \<lparr>ge_found = True, ge_value = vv_value (winner resolved),
                                      ge_responses = length results,
                                      ge_context = vv_clock (winner resolved)\<rparr>,
                                    start_repair self k (winner resolved) results w1))))))"

subsection \<open>Read repair\<close>

definition repair_request :: "key \<Rightarrow> VersionedValue \<Rightarrow> ReplicateWriteRequest" where
  "repair_request k win =
     \<lparr>rw_key = k, rw_value = vv_value win, rw_clock = vv_clock win, rw_hint_for = None\<rparr>"

definition repair_step :: "env \<Rightarrow> node_id \<Rightarrow> key \<Rightarrow> VersionedValue \<Rightarrow> node_id \<Rightarrow> unit \<Rightarrow> world
    \<Rightarrow> unit \<times> world" where
  "repair_step E self k win peer u w =
     (case rpc E peer (ReplicateWrite (repair_request k win)) w of
        (None, w1) \<Rightarrow> ((), update_node self (markUnreachable peer) w1)
      | (Some resp, w1) \<Rightarrow> ((), w1))"

definition repairReplicas :: "env \<Rightarrow> node_id \<Rightarrow> key \<Rightarrow> VersionedValue \<Rightarrow> node_id list \<Rightarrow> world \<Rightarrow> world" where
  "repairReplicas E self k win stale_peers w =
     snd (run_once E (repair_step E self k win) stale_peers () w)"

text \<open>The environment lets the \<open>i\<close>-th waiting job run.\<close>

definition run_job :: "env \<Rightarrow> nat \<Rightarrow> world \<Rightarrow> world" where
  "run_job E i w =
     (if i < length (jobs w)
      then (let j = jobs w ! i
            in repairReplicas E (job_node j) (job_key j) (job_winner j) (job_peers j)
                 (w\<lparr>jobs := drop_nth i (jobs w)\<rparr>))
      else w)"

subsection \<open>The reads change no store\<close>

text \<open>
  Two worlds that differ only in the sets of unreachable peers and in time: what a fan-out of reads
  leaves alone.
\<close>

definition same_node_data :: "node \<Rightarrow> node \<Rightarrow> bool" where
  "same_node_data m n \<longleftrightarrow> same_member m n \<and> nd_kv n = nd_kv m \<and> nd_hints n = nd_hints m"

definition same_data :: "world \<Rightarrow> world \<Rightarrow> bool" where
  "same_data w w' \<longleftrightarrow> jobs w' = jobs w \<and> (\<forall>a. rel_option same_node_data (nodes w a) (nodes w' a))"

lemma same_node_data_refl [simp]: "same_node_data m m"
  by (simp add: same_node_data_def)

lemma same_node_data_trans: "same_node_data a b \<Longrightarrow> same_node_data b c \<Longrightarrow> same_node_data a c"
  unfolding same_node_data_def using same_member_trans by metis

lemma same_node_data_mark [simp]: "same_node_data m (markUnreachable p m)"
  by (simp add: same_node_data_def) (simp add: markUnreachable_def)

lemma same_data_refl [simp]: "same_data w w"
  by (simp add: same_data_def option.rel_refl)

lemma same_data_rel: "same_data w w' \<Longrightarrow> rel_option same_node_data (nodes w a) (nodes w' a)"
  by (simp add: same_data_def)

lemma same_data_node:
  "same_data w w' \<Longrightarrow> nodes w a = Some nd \<Longrightarrow> \<exists>nd'. nodes w' a = Some nd' \<and> same_node_data nd nd'"
  using same_data_rel [of w w' a] by (cases "nodes w' a") auto

lemma same_data_none: "same_data w w' \<Longrightarrow> nodes w a = None \<Longrightarrow> nodes w' a = None"
  using same_data_rel [of w w' a] by simp

lemma same_data_trans:
  assumes "same_data u v" and "same_data v w"
  shows "same_data u w"
proof -
  have "rel_option same_node_data (nodes u a) (nodes w a)" for a
    using same_data_rel [OF assms(1), of a] same_data_rel [OF assms(2), of a]
    by (cases "nodes u a"; cases "nodes v a"; cases "nodes w a") (auto intro: same_node_data_trans)
  with assms show ?thesis by (simp add: same_data_def)
qed

lemma same_data_advance [simp]: "same_data w (advance w)"
  by (simp add: same_data_def option.rel_refl)

lemma same_data_set: "nodes w a = Some nd \<Longrightarrow> same_node_data nd nd' \<Longrightarrow> same_data w (set_node a nd' w)"
  by (simp add: same_data_def option.rel_refl)

lemma same_data_mark: "same_data w (update_node a (markUnreachable p) w)"
  by (simp add: update_node_def same_data_set split: option.split)

lemma rpc_read:
  assumes "rpc E p (\<lambda>now nd. ReplicateRead k nd) w = (resp, w')"
  shows "same_data w w'"
  using assms
proof (cases rule: rpc_cases)
  case (handled nd r nd')
  then have "nd' = nd" using ReplicateRead_state by blast
  then have "same_data (advance w) w'"
    using handled by (simp add: same_data_set)
  then show ?thesis using same_data_trans same_data_advance by blast
qed simp

lemma read_step_same_data:
  assumes "read_step E self k p results w = (results', w')"
  shows "same_data w w'"
proof -
  obtain resp w1 where r: "rpc E p (\<lambda>now nd. ReplicateRead k nd) w = (resp, w1)"
    by (cases "rpc E p (\<lambda>now nd. ReplicateRead k nd) w")
  with assms show ?thesis
    using rpc_read [OF r] same_data_trans same_data_mark
    by (auto simp: read_step_def split: option.splits)
qed

text \<open>What a recorded answer says about the replica, read against the world before the fan-out.\<close>

definition answers :: "world \<Rightarrow> key \<Rightarrow> ReplicaResult \<Rightarrow> bool" where
  "answers w k r \<longleftrightarrow> (\<exists>nd. nodes w (rr_peer_id r) = Some nd \<and>
     (rr_found r \<longrightarrow> nd_kv nd k = Some \<lparr>vv_value = rr_value r, vv_clock = rr_clock r\<rparr>) \<and>
     (\<not> rr_found r \<longrightarrow> nd_kv nd k = None \<or> isSelfRemoved nd = Some True))"

lemma answers_local: "nodes w (nd_id nd) = Some nd \<Longrightarrow> answers w k (local_result nd k)"
  by (auto simp: answers_def local_result_def localGet_def split: option.split)

lemma isSelfRemoved_same: "same_member m n \<Longrightarrow> isSelfRemoved n = isSelfRemoved m"
  by (simp add: same_member_def isSelfRemoved_def)

lemma answers_same_data:
  assumes "same_data w w'" and "answers w' k r"
  shows "answers w k r"
proof -
  obtain nd' where nd': "nodes w' (rr_peer_id r) = Some nd'"
    "rr_found r \<longrightarrow> nd_kv nd' k = Some \<lparr>vv_value = rr_value r, vv_clock = rr_clock r\<rparr>"
    "\<not> rr_found r \<longrightarrow> nd_kv nd' k = None \<or> isSelfRemoved nd' = Some True"
    using assms(2) by (auto simp: answers_def)
  obtain nd where nd: "nodes w (rr_peer_id r) = Some nd"
    using same_data_none [OF assms(1)] nd'(1) by fastforce
  with same_data_node [OF assms(1) nd] nd' show ?thesis
    by (auto simp: answers_def same_node_data_def isSelfRemoved_same)
qed


subsection \<open>What a read collects\<close>

definition read_invariant :: "world \<Rightarrow> key \<Rightarrow> node_id set \<Rightarrow> node_id multiset \<Rightarrow> ReplicaResult list \<Rightarrow> world \<Rightarrow> bool" where
  "read_invariant w0 k A M results w \<longleftrightarrow> same_data w0 w \<and> (\<forall>r \<in> set results. answers w0 k r) \<and>
     distinct (map rr_peer_id results) \<and> rr_peer_id ` set results \<subseteq> A \<and> set_mset M \<subseteq> A \<and>
     (\<exists>S. finite S \<and> M = mset_set S \<and> S \<inter> rr_peer_id ` set results = {})"

lemma read_step_answer:
  assumes "read_step E self k p results w = (results', w')"
  shows "results' = results \<or> (\<exists>r. results' = results @ [r] \<and> rr_peer_id r = p \<and> answers w k r)"
proof -
  obtain resp w1 where r: "rpc E p (\<lambda>now nd. ReplicateRead k nd) w = (resp, w1)"
    by (cases "rpc E p (\<lambda>now nd. ReplicateRead k nd) w")
  show ?thesis
  proof (cases resp)
    case None
    with assms r show ?thesis by (simp add: read_step_def)
  next
    case (Some a)
    with r obtain nd nd' where "nodes w p = Some nd" "ReplicateRead k nd = Some (a, nd')"
      using rpc_SomeD by fastforce
    with assms r Some show ?thesis
      by (auto simp: read_step_def answers_def ReplicateRead_def localGet_def
          split: option.splits bool.splits)
  qed
qed

lemma read_invariant_step:
  assumes "p \<in># M" and "read_invariant w0 k A M results w"
    and "read_step E self k p results w = (results', w')"
  shows "read_invariant w0 k A (M - {#p#}) results' w'"
proof -
  obtain S where S: "finite S" "M = mset_set S" "S \<inter> rr_peer_id ` set results = {}"
    using assms(2) by (auto simp: read_invariant_def)
  have p: "p \<in> S" using assms(1) S by simp
  have M: "M - {#p#} = mset_set (S - {p})" using S p by (simp add: mset_set_Diff)
  have sd: "same_data w0 w'"
    using assms(2) read_step_same_data [OF assms(3)] same_data_trans
    by (auto simp: read_invariant_def)
  have rest: "\<forall>r \<in> set results. answers w0 k r" "distinct (map rr_peer_id results)"
    "rr_peer_id ` set results \<subseteq> A" "set_mset M \<subseteq> A" "same_data w0 w"
    using assms(2) by (auto simp: read_invariant_def)
  have sub: "set_mset (M - {#p#}) \<subseteq> A" using rest(4) by (auto dest: in_diffD)
  from read_step_answer [OF assms(3)] show ?thesis
  proof (elim disjE exE conjE)
    assume "results' = results"
    with rest sd sub M S show ?thesis
      unfolding read_invariant_def by (intro conjI exI [of _ "S - {p}"]) auto
  next
    fix r assume r: "results' = results @ [r]" "rr_peer_id r = p" "answers w k r"
    have "answers w0 k r" using answers_same_data [OF rest(5) r(3)] .
    with rest sd sub M S r p assms(1) show ?thesis
      unfolding read_invariant_def by (intro conjI exI [of _ "S - {p}"]) auto
  qed
qed

definition collected :: "world \<Rightarrow> node_id \<Rightarrow> key \<Rightarrow> node_id list \<Rightarrow> ReplicaResult list \<Rightarrow> world \<Rightarrow> bool" where
  "collected w self k ids results w1 \<longleftrightarrow> same_data w w1 \<and> (\<forall>r \<in> set results. answers w k r) \<and>
     distinct (map rr_peer_id results) \<and> rr_peer_id ` set results \<subseteq> set ids"

lemma run_reads_collected:
  assumes "run_once E (read_step E self k) (filter (\<lambda>p. p \<noteq> self) ids)
      (if self \<in> set ids then [local_result nd k] else []) w = (results, w1)"
    and "distinct ids" and "nodes w self = Some nd" and "nd_id nd = self"
  shows "collected w self k ids results w1"
proof -
  have peer: "rr_peer_id (local_result nd k) = self"
    using assms(4) by (simp add: local_result_def split: option.split)
  have "read_invariant w k (set ids) (mset (filter (\<lambda>p. p \<noteq> self) ids))
      (if self \<in> set ids then [local_result nd k] else []) w"
    unfolding read_invariant_def
    using assms(2,3,4) peer answers_local [of w nd k]
      mset_set_set [of "filter (\<lambda>p. p \<noteq> self) ids"]
    by (intro conjI exI [of _ "set (filter (\<lambda>p. p \<noteq> self) ids)"]) auto
  from run_once_invariant [where P = "read_invariant w k (set ids)", OF assms(1) this]
  have "read_invariant w k (set ids) {#} results w1"
    using read_invariant_step by blast
  then show ?thesis by (auto simp: read_invariant_def collected_def)
qed

text \<open>The results that the fan-out of a read leaves, the reader's own first, and the nodes they are from.\<close>

definition read_results :: "env \<Rightarrow> node_id \<Rightarrow> key \<Rightarrow> world \<Rightarrow> ReplicaResult list" where
  "read_results E self k w =
     (case nodes w self of
        None \<Rightarrow> []
      | Some nd \<Rightarrow>
          (let ids = map ple_node_id (preferenceListForKey nd k (nd_N nd))
           in fst (run_once E (read_step E self k) (filter (\<lambda>p. p \<noteq> self) ids)
                (if self \<in> set ids then [local_result nd k] else []) w)))"

definition responded :: "env \<Rightarrow> node_id \<Rightarrow> key \<Rightarrow> world \<Rightarrow> node_id set" where
  "responded E self k w = rr_peer_id ` set (read_results E self k w)"

text \<open>The four ways in which a read returns.\<close>

lemma Get_SomeE:
  assumes "Get E self k w = (Some resp, w')" and "wf_world T w"
  obtains (refused) "resp = get_refused" "w' = w"
  | (few) nd results where "nodes w self = Some nd"
      "collected w self k (map ple_node_id (preferenceListForKey nd k (nd_N nd))) results w'"
      "int (length results) < nd_R nd" "resp = get_refused\<lparr>ge_responses := length results\<rparr>"
  | (absent) nd results where "nodes w self = Some nd"
      "collected w self k (map ple_node_id (preferenceListForKey nd k (nd_N nd))) results w'"
      "nd_R nd \<le> int (length results)" "resp = get_refused\<lparr>ge_responses := length results\<rparr>"
      "found_versions results = []"
  | (found) nd results w1 r where "nodes w self = Some nd" "isSelfRemoved nd = Some False"
      "collected w self k (map ple_node_id (preferenceListForKey nd k (nd_N nd))) results w1"
      "nd_R nd \<le> int (length results)" "resolveGetResult (found_versions results) = Some r"
      "resp = \<lparr>ge_found = True, ge_value = vv_value (winner r), ge_responses = length results,
         ge_context = vv_clock (winner r)\<rparr>"
      "w' = start_repair self k (winner r) results w1" "results = read_results E self k w"
proof -
  obtain nd where nd: "nodes w self = Some nd"
    using assms(1) by (cases "nodes w self") (auto simp: Get_def)
  obtain b where b: "isSelfRemoved nd = Some b"
    using assms(1) nd by (cases "isSelfRemoved nd") (auto simp: Get_def)
  let ?pl = "preferenceListForKey nd k (nd_N nd)"
  let ?ids = "map ple_node_id ?pl"
  obtain results w1 where run: "run_once E (read_step E self k) (filter (\<lambda>p. p \<noteq> self) ?ids)
      (if self \<in> set ?ids then [local_result nd k] else []) w = (results, w1)"
    by (cases "run_once E (read_step E self k) (filter (\<lambda>p. p \<noteq> self) ?ids)
      (if self \<in> set ?ids then [local_result nd k] else []) w")
  have "distinct ?ids"
    unfolding preferenceListForKey_def Let_def by (rule preference_ids_distinct)
  have results: "results = read_results E self k w"
    using run nd by (simp add: read_results_def Let_def)
  from run_reads_collected [OF run \<open>distinct ?ids\<close> nd] have col: "collected w self k ?ids results w1"
    using wf_worldD [OF assms(2) nd] by simp
  note eq = assms(1) [unfolded Get_def nd option.case b Let_def run prod.case]
  show ?thesis
  proof (cases "b \<or> int (length ?pl) < nd_R nd")
    case True
    with eq show ?thesis by (cases b) (auto intro: refused)
  next
    case False
    then have b': "b = False" by simp
    show ?thesis
    proof (cases "int (length results) < nd_R nd")
      case True
      with eq False col nd show ?thesis by (auto intro: few)
    next
      case ge: False
      show ?thesis
      proof (cases "resolveGetResult (found_versions results)")
        case None
        with eq False ge col nd show ?thesis by (auto intro: absent split: if_splits)
      next
        case (Some r)
        then have "found_versions results \<noteq> []" by (auto simp: resolveGetResult_def)
        with eq False ge Some found [OF nd _ col _ Some _ _ results] b b' show ?thesis by auto
      qed
    qed
  qed
qed


lemma version_eta [simp]: "\<lparr>vv_value = vv_value v, vv_clock = vv_clock v\<rparr> = v"
  by simp

lemma collected_versions:
  assumes "collected w self k ids results w1" and "wf_world T w"
  shows "wf_versions (found_versions results)"
  unfolding wf_versions_def
proof
  fix v assume "v \<in> set (found_versions results)"
  then obtain r where r: "r \<in> set results" "rr_found r" "v = \<lparr>vv_value = rr_value r, vv_clock = rr_clock r\<rparr>"
    by (auto simp: found_versions_def)
  then have "answers w k r" using assms(1) by (simp add: collected_def)
  with r obtain nd where "nodes w (rr_peer_id r) = Some nd" "nd_kv nd k = Some v"
    by (auto simp: answers_def)
  with wf_worldD [OF assms(2)] show "wf_clock (vv_clock v)"
    unfolding wf_node_def wf_store_def by blast
qed

text \<open>
  The responders of a read that found a winner: each of them that is not removed and holds a version
  was seen, so the winner is not older than any of them holds.
\<close>

definition responders :: "world \<Rightarrow> key \<Rightarrow> vector_clock \<Rightarrow> node_id set \<Rightarrow> bool" where
  "responders w k c Q \<longleftrightarrow> (\<forall>q \<in> Q. \<exists>nd. nodes w q = Some nd \<and>
     (\<forall>h. isSelfRemoved nd = Some False \<longrightarrow> nd_kv nd k = Some h \<longrightarrow>
        compareVectorClocks c (vv_clock h) \<noteq> DOMINATED))"

lemma found_in_results:
  "r \<in> set results \<Longrightarrow> rr_found r \<Longrightarrow>
   \<lparr>vv_value = rr_value r, vv_clock = rr_clock r\<rparr> \<in> set (found_versions results)"
  by (auto simp: found_versions_def)

lemma found_versions_answer:
  assumes "v \<in> set (found_versions results)" and "collected w self k ids results w1"
  shows "\<exists>q \<in> rr_peer_id ` set results. \<exists>nd. nodes w q = Some nd \<and> nd_kv nd k = Some v"
proof -
  obtain r where r: "r \<in> set results" "rr_found r" "v = \<lparr>vv_value = rr_value r, vv_clock = rr_clock r\<rparr>"
    using assms(1) by (auto simp: found_versions_def)
  then have "answers w k r" using assms(2) by (simp add: collected_def)
  with r show ?thesis by (auto simp: answers_def)
qed

lemma winner_facts:
  assumes "wf_world T w" and "collected w self k ids results w1"
    and "resolveGetResult (found_versions results) = Some r"
  shows "winner r \<in> set (found_versions results)" and "wf_clock (vv_clock (winner r))"
    and "responders w k (vv_clock (winner r)) (rr_peer_id ` set results)"
proof -
  have wf: "wf_versions (found_versions results)" using collected_versions [OF assms(2,1)] .
  have win: "winner r \<in> set (computeFrontier (found_versions results))"
    using resolveGetResult_winner [OF wf assms(3)] .
  show mem: "winner r \<in> set (found_versions results)" using win frontier_subset [OF wf] by blast
  show wfw: "wf_clock (vv_clock (winner r))" using wf mem by (rule wf_versions_mem)
  show "responders w k (vv_clock (winner r)) (rr_peer_id ` set results)"
    unfolding responders_def
  proof (rule ballI, elim imageE)
    fix q x assume x: "x \<in> set results" and q: "q = rr_peer_id x"
    have a: "answers w k x" using assms(2) x by (simp add: collected_def)
    then obtain nd where nd: "nodes w q = Some nd" using q by (auto simp: answers_def)
    moreover have "compareVectorClocks (vv_clock (winner r)) (vv_clock h) \<noteq> DOMINATED"
      if "isSelfRemoved nd = Some False" "nd_kv nd k = Some h" for h
    proof -
      have "rr_found x" "h = \<lparr>vv_value = rr_value x, vv_clock = rr_clock x\<rparr>"
        using a nd that q by (auto simp: answers_def)
      then have h: "h \<in> set (found_versions results)" using found_in_results [OF x] by simp
      from frontier_undominated [OF wf win h]
      show ?thesis by (simp add: vc.cmp_DOMINATED wfw wf_versions_mem [OF wf h])
    qed
    ultimately show "\<exists>nd. nodes w q = Some nd \<and>
        (\<forall>h. isSelfRemoved nd = Some False \<longrightarrow> nd_kv nd k = Some h \<longrightarrow>
           compareVectorClocks (vv_clock (winner r)) (vv_clock h) \<noteq> DOMINATED)" by blast
  qed
qed

lemma card_peers: "collected w self k ids results w1 \<Longrightarrow> card (rr_peer_id ` set results) = length results"
  using distinct_card [of "map rr_peer_id results"] by (simp add: collected_def)

lemma Get_responders:
  assumes "Get E self k w = (Some resp, w')" and "wf_world T w" and "nodes w self = Some nd"
  shows "\<exists>Q \<subseteq> set (map ple_node_id (preferenceListForKey nd k (nd_N nd))).
    card Q = ge_responses resp \<and>
    (ge_found resp \<longrightarrow> nd_R nd \<le> int (card Q) \<and> wf_clock (ge_context resp) \<and>
       responders w k (ge_context resp) Q \<and>
       (\<exists>q \<in> Q. \<exists>n. nodes w q = Some n \<and>
          nd_kv n k = Some \<lparr>vv_value = ge_value resp, vv_clock = ge_context resp\<rparr>)) \<and>
    (\<not> ge_found resp \<and> nd_R nd \<le> int (ge_responses resp) \<longrightarrow>
       (\<forall>q \<in> Q. \<exists>n. nodes w q = Some n \<and> (nd_kv n k = None \<or> isSelfRemoved n = Some True)))"
  using assms(1,2)
proof (cases rule: Get_SomeE)
  case refused
  have "0 < nd_R nd"
    using wf_worldD [OF assms(2,3)] by (simp add: wf_node_def wf_member_def valid_quorum_def)
  with refused show ?thesis by (intro exI [of _ "{}"]) (simp add: get_refused_def)
next
  case (few nd' results)
  then show ?thesis
    using card_peers [OF few(2)] assms(3)
    by (intro exI [of _ "rr_peer_id ` set results"]) (auto simp: get_refused_def collected_def)
next
  case (absent nd' results)
  have "\<exists>n. nodes w q = Some n \<and> (nd_kv n k = None \<or> isSelfRemoved n = Some True)"
    if "q \<in> rr_peer_id ` set results" for q
  proof -
    obtain r where r: "r \<in> set results" "q = rr_peer_id r" using \<open>q \<in> _\<close> by blast
    moreover have "\<not> rr_found r" using absent(5) found_in_results [OF r(1)] by auto
    ultimately show ?thesis using absent(2) by (auto simp: collected_def answers_def)
  qed
  then show ?thesis
    using card_peers [OF absent(2)] assms(3) absent(1,2,4)
    by (intro exI [of _ "rr_peer_id ` set results"]) (auto simp: get_refused_def collected_def)
next
  case (found nd' results w1 r)
  note win = winner_facts [OF assms(2) found(3,5)]
  from found_versions_answer [OF win(1) found(3)] win(2,3)
  show ?thesis
    using card_peers [OF found(3)] assms(3) found(1,3,4,6)
    by (intro exI [of _ "rr_peer_id ` set results"]) (auto simp: collected_def)
qed


subsection \<open>Read repair brings the responders together\<close>

definition repairable :: "world \<Rightarrow> key \<Rightarrow> VersionedValue \<Rightarrow> node_id \<Rightarrow> bool" where
  "repairable w k win q \<longleftrightarrow> (\<exists>n. nodes w q = Some n \<and> isSelfRemoved n = Some False \<and> wf_store (nd_kv n) \<and>
     (\<forall>h. nd_kv n k = Some h \<longrightarrow> \<not> vv_counters win < vv_counters h))"

definition repaired :: "world \<Rightarrow> key \<Rightarrow> VersionedValue \<Rightarrow> node_id \<Rightarrow> bool" where
  "repaired w k win q \<longleftrightarrow> (\<exists>n h. nodes w q = Some n \<and> nd_kv n k = Some h \<and>
     wf_clock (vv_clock h) \<and> vv_counters h = vv_counters win)"

lemma store_repairs:
  assumes "nodes w p = Some n" and "repairable w k win p" and "wf_clock (vv_clock win)"
  shows "repaired (set_node p (snd (storeReplicatedWrite k win n)) w) k win p"
    and "repairable w k win q \<Longrightarrow> repairable (set_node p (snd (storeReplicatedWrite k win n)) w) k win q"
    and "repaired w k win q \<Longrightarrow> repaired (set_node p (snd (storeReplicatedWrite k win n)) w) k win q"
proof -
  let ?n = "snd (storeReplicatedWrite k win n)"
  have n: "isSelfRemoved n = Some False" "wf_store (nd_kv n)"
    "\<And>h. nd_kv n k = Some h \<Longrightarrow> \<not> vv_counters win < vv_counters h"
    using assms(1,2) by (auto simp: repairable_def)
  obtain h where h: "nd_kv ?n k = Some h" "vv_counters h = vv_counters win"
    using kv.store_undominated [OF n(2) assms(3) n(3)] by blast
  have wf: "wf_store (nd_kv ?n)" by (rule kv.inv_store [OF n(2) assms(3)])
  have up: "isSelfRemoved ?n = Some False"
    using n(1) same_member_store [of n k win] by (simp add: isSelfRemoved_same)
  show p: "repaired (set_node p ?n w) k win p"
    using h wf by (auto simp: repaired_def wf_store_def)
  show "repairable w k win q \<Longrightarrow> repairable (set_node p ?n w) k win q"
    using h wf up by (cases "q = p") (auto simp: repairable_def)
  show "repaired w k win q \<Longrightarrow> repaired (set_node p ?n w) k win q"
    using p by (cases "q = p") (auto simp: repaired_def)
qed

lemma repair_facts_frame [simp]:
  "repairable (advance w) k win q = repairable w k win q"
  "repaired (advance w) k win q = repaired w k win q"
  by (simp_all add: repairable_def repaired_def)

lemma repair_step_delivered:
  assumes "repair_step E self k win p u w = (u', w')" and "fate_at E (tick w) = Delivered"
    and "repairable w k win p"
  shows "\<exists>n. nodes (advance w) p = Some n \<and>
    w' = set_node p (snd (storeReplicatedWrite k win n)) (advance w)"
proof -
  obtain n where n: "nodes w p = Some n" "isSelfRemoved n = Some False"
    using assms(3) by (auto simp: repairable_def)
  then have "ReplicateWrite (repair_request k win) now n =
      Some (\<lparr>rwr_success = True, rwr_outcome = fst (storeReplicatedWrite k win n)\<rparr>,
        snd (storeReplicatedWrite k win n))" for now
    by (simp add: ReplicateWrite_def repair_request_def split: prod.split)
  with n assms(1,2) show ?thesis
    by (auto simp: repair_step_def rpc_def Let_def)
qed

lemma repairReplicas_converge:
  assumes "\<forall>t. fate_at E t = Delivered" and "wf_clock (vv_clock win)" and "set peers \<subseteq> Q"
    and "\<forall>q \<in> Q. repairable w k win q" and "\<forall>q \<in> Q. q \<in> set peers \<or> repaired w k win q"
  shows "\<forall>q \<in> Q. repaired (repairReplicas E self k win peers w) k win q"
proof -
  define P where "P M (u :: unit) w \<longleftrightarrow> set_mset M \<subseteq> Q \<and>
    (\<forall>q \<in> Q. repairable w k win q \<and> (q \<in># M \<or> repaired w k win q))" for M u w
  obtain w' where run: "run_once E (repair_step E self k win) peers () w = ((), w')"
    by (cases "run_once E (repair_step E self k win) peers () w") simp
  have "P (mset peers) () w" using assms(3-5) by (auto simp: P_def)
  then have "P {#} () w'"
  proof (rule run_once_invariant [where P = P, OF run])
    fix p M u w u' w' assume pM: "p \<in># M" and P: "P M u w"
      and step: "repair_step E self k win p u w = (u', w')"
    have pQ: "p \<in> Q" using pM P by (auto simp: P_def)
    then have rp: "repairable w k win p" using P by (simp add: P_def)
    obtain n where n: "nodes (advance w) p = Some n"
      "w' = set_node p (snd (storeReplicatedWrite k win n)) (advance w)"
      using repair_step_delivered [OF step _ rp] assms(1) by blast
    have rp': "repairable (advance w) k win p" using rp by simp
    note keep = store_repairs [OF n(1) rp' assms(2), folded n(2)]
    have "q \<in># M - {#p#} \<or> repaired w' k win q" if "q \<in> Q" for q
      using P keep(1) keep(3) [of q] that by (cases "q = p") (auto simp: P_def in_diff_count)
    moreover have "set_mset (M - {#p#}) \<subseteq> Q" using P by (auto simp: P_def dest: in_diffD)
    ultimately show "P (M - {#p#}) u' w'" using P keep(2) by (simp add: P_def)
  qed
  then show ?thesis by (simp add: P_def repairReplicas_def run)
qed

lemma repair_start:
  assumes "wf_world T w" and "collected w self k ids results w1"
    and "resolveGetResult (found_versions results) = Some r"
    and "\<forall>a n. nodes w a = Some n \<longrightarrow> isSelfRemoved n = Some False" and "q \<in> rr_peer_id ` set results"
  shows "repairable w1 k (winner r) q"
    and "x \<in> set results \<Longrightarrow> \<not> stale (winner r) x \<Longrightarrow> repaired w1 k (winner r) (rr_peer_id x)"
proof -
  note win = winner_facts [OF assms(1-3)]
  have sd: "same_data w w1" using assms(2) by (simp add: collected_def)
  obtain n where n: "nodes w q = Some n"
    "\<forall>h. nd_kv n k = Some h \<longrightarrow> compareVectorClocks (vv_clock (winner r)) (vv_clock h) \<noteq> DOMINATED"
    using win(3) assms(4,5) unfolding responders_def by blast
  have wf: "wf_store (nd_kv n)" using wf_worldD [OF assms(1) n(1)] by (simp add: wf_node_def)
  obtain n1 where n1: "nodes w1 q = Some n1" "same_node_data n n1"
    using same_data_node [OF sd n(1)] by blast
  have "\<not> vv_counters (winner r) < vv_counters h" if "nd_kv n k = Some h" for h
    using n(2) that wf win(2) by (auto simp: vc.cmp_DOMINATED wf_store_def)
  with n1 n(1) wf assms(4) show "repairable w1 k (winner r) q"
    by (auto simp: repairable_def same_node_data_def isSelfRemoved_same)
  assume x: "x \<in> set results" and fresh: "\<not> stale (winner r) x"
  have "answers w k x" using assms(2) x by (simp add: collected_def)
  with fresh obtain m where m: "nodes w (rr_peer_id x) = Some m"
    "nd_kv m k = Some \<lparr>vv_value = rr_value x, vv_clock = rr_clock x\<rparr>"
    "compareVectorClocks (rr_clock x) (vv_clock (winner r)) = EQUAL"
    by (auto simp: answers_def stale_def)
  have wfx: "wf_clock (rr_clock x)"
    using wf_worldD [OF assms(1) m(1)] m(2) by (fastforce simp: wf_node_def wf_store_def)
  then have "counter_of (rr_clock x) = vv_counters (winner r)"
    using m(3) win(2) by (simp add: vc.cmp_EQUAL)
  moreover obtain m1 where "nodes w1 (rr_peer_id x) = Some m1" "same_node_data m m1"
    using same_data_node [OF sd m(1)] by blast
  ultimately show "repaired w1 k (winner r) (rr_peer_id x)"
    using m(2) wfx by (auto simp: repaired_def same_node_data_def)
qed


definition stale_peers :: "node_id \<Rightarrow> VersionedValue \<Rightarrow> ReplicaResult list \<Rightarrow> node_id list" where
  "stale_peers self win results =
     map rr_peer_id (filter (\<lambda>r. rr_peer_id r \<noteq> self) (filter (stale win) results))"

definition queue_repair :: "node_id \<Rightarrow> key \<Rightarrow> VersionedValue \<Rightarrow> node_id list \<Rightarrow> world \<Rightarrow> world" where
  "queue_repair self k win peers w =
     (if peers = [] then w else w\<lparr>jobs := jobs w @
        [\<lparr>job_node = self, job_key = k, job_winner = win, job_peers = peers\<rparr>]\<rparr>)"

lemma repair_facts_jobs [simp]:
  "repairable (w\<lparr>jobs := js\<rparr>) k win q = repairable w k win q"
  "repaired (w\<lparr>jobs := js\<rparr>) k win q = repaired w k win q"
  by (simp_all add: repairable_def repaired_def)

lemma start_repair_state:
  assumes "wf_world T w" and "collected w self k ids results w1"
    and "resolveGetResult (found_versions results) = Some r"
    and "\<forall>a n. nodes w a = Some n \<longrightarrow> isSelfRemoved n = Some False"
  shows "\<exists>w2. start_repair self k (winner r) results w1 =
      queue_repair self k (winner r) (stale_peers self (winner r) results) w2 \<and> jobs w2 = jobs w \<and>
    (\<forall>q \<in> rr_peer_id ` set results. repairable w2 k (winner r) q) \<and>
    (\<forall>q \<in> rr_peer_id ` set results.
       q \<in> set (stale_peers self (winner r) results) \<or> repaired w2 k (winner r) q)"
proof -
  let ?Q = "rr_peer_id ` set results" and ?win = "winner r"
  let ?needs = "\<exists>x \<in> set (filter (stale ?win) results). rr_peer_id x = self"
  let ?w2 = "if ?needs then update_node self (\<lambda>nd. snd (storeReplicatedWrite k ?win nd)) w1 else w1"
  note start = repair_start [OF assms]
  have wfw: "wf_clock (vv_clock ?win)" using winner_facts [OF assms(1-3)] by blast
  have all: "(q \<in> ?Q \<longrightarrow> repairable ?w2 k ?win q) \<and> (repaired w1 k ?win q \<longrightarrow> repaired ?w2 k ?win q) \<and>
      (?needs \<longrightarrow> repaired ?w2 k ?win self)" for q
  proof (cases ?needs)
    case True
    then have "self \<in> ?Q" by force
    then have rp: "repairable w1 k ?win self" by (rule start(1))
    then obtain n where n: "nodes w1 self = Some n" by (auto simp: repairable_def)
    then have w2: "?w2 = set_node self (snd (storeReplicatedWrite k ?win n)) w1"
      using True by (simp add: update_node_def)
    show ?thesis unfolding w2 using store_repairs [OF n rp wfw] start(1) [of q] by blast
  next
    case False
    with start(1) [of q] show ?thesis by auto
  qed
  have "q \<in> set (stale_peers self ?win results) \<or> repaired ?w2 k ?win q" if q: "q \<in> ?Q" for q
  proof -
    obtain x where x: "x \<in> set results" "q = rr_peer_id x" using q by blast
    show ?thesis
    proof (cases "stale ?win x")
      case False
      then have "repaired w1 k ?win q" using start(2) [OF q x(1)] x(2) by simp
      with all show ?thesis by blast
    next
      case True
      show ?thesis
      proof (cases "q = self")
        case True
        then have ?needs using x \<open>stale ?win x\<close> by auto
        with all True show ?thesis by blast
      next
        case False
        with x \<open>stale ?win x\<close> show ?thesis by (auto simp: stale_peers_def)
      qed
    qed
  qed
  moreover have "start_repair self k ?win results w1 =
      queue_repair self k ?win (stale_peers self ?win results) ?w2"
    by (simp add: start_repair_def queue_repair_def stale_peers_def Let_def)
  moreover have "jobs ?w2 = jobs w" using assms(2) by (simp add: collected_def same_data_def)
  ultimately show ?thesis using all by blast
qed

lemma drop_nth_snoc [simp]: "drop_nth (length xs) (xs @ [x]) = xs"
  by (induction xs) auto

lemma run_queued_repair:
  assumes "\<forall>t. fate_at E t = Delivered" and "wf_clock (vv_clock win)" and "set peers \<subseteq> Q"
    and "\<forall>q \<in> Q. repairable w k win q" and "\<forall>q \<in> Q. q \<in> set peers \<or> repaired w k win q"
  shows "\<forall>q \<in> Q. repaired (run_job E (length (jobs w)) (queue_repair self k win peers w)) k win q"
proof (cases "peers = []")
  case True
  with assms(5) show ?thesis by (simp add: run_job_def queue_repair_def)
next
  case False
  then show ?thesis
    using repairReplicas_converge [of E win peers Q "w\<lparr>jobs := jobs w\<rparr>" k self] assms
    by (simp add: run_job_def queue_repair_def Let_def)
qed

subsection \<open>Properties\<close>

lemma quorum_read:
  assumes "wf_world T w" and "nodes w self = Some nd" and "Get E self k w = (Some resp, w')"
    and "A \<subseteq> set (map ple_node_id (preferenceListForKey nd k (nd_N nd)))"
    and "nd_N nd < int (card A) + nd_R nd" and "nd_R nd \<le> int (ge_responses resp)"
    and "\<forall>a \<in> A. \<exists>n h. nodes w a = Some n \<and> isSelfRemoved n = Some False \<and> nd_kv n k = Some h \<and>
           counter_of c \<le> vv_counters h"
  shows "ge_found resp \<and> \<not> counter_of (ge_context resp) < counter_of c"
proof -
  let ?ids = "map ple_node_id (preferenceListForKey nd k (nd_N nd))"
  obtain Q where Q: "Q \<subseteq> set ?ids" "card Q = ge_responses resp"
    "ge_found resp \<longrightarrow> wf_clock (ge_context resp) \<and> responders w k (ge_context resp) Q"
    "\<not> ge_found resp \<longrightarrow>
       (\<forall>q \<in> Q. \<exists>n. nodes w q = Some n \<and> (nd_kv n k = None \<or> isSelfRemoved n = Some True))"
    using Get_responders [OF assms(3,1,2)] assms(6) by blast
  have "card (set ?ids) \<le> length ?ids" by (rule card_length)
  also have "int (length ?ids) \<le> nd_N nd"
  proof -
    have "0 \<le> nd_N nd"
      using wf_worldD [OF assms(1,2)] by (simp add: wf_node_def wf_member_def valid_quorum_def)
    then show ?thesis by (simp add: preferenceListForKey_def Let_def preference_length)
  qed
  finally have "card (set ?ids) < card A + card Q" using assms(5,6) Q(2) by linarith
  then obtain a where a: "a \<in> A" "a \<in> Q"
    using quorum_overlap [OF _ assms(4) Q(1)] by auto
  with assms(7) obtain n h where n: "nodes w a = Some n" "isSelfRemoved n = Some False"
    "nd_kv n k = Some h" "counter_of c \<le> vv_counters h" by blast
  then have found: "ge_found resp" using Q(4) a(2) by fastforce
  then have "compareVectorClocks (ge_context resp) (vv_clock h) \<noteq> DOMINATED"
    using Q(3) a(2) n unfolding responders_def by fastforce
  moreover have "wf_clock (vv_clock h)"
    using wf_worldD [OF assms(1) n(1)] n(3) by (auto simp: wf_node_def wf_store_def)
  ultimately have "\<not> counter_of (ge_context resp) < vv_counters h"
    using Q(3) found by (simp add: vc.cmp_DOMINATED)
  with n(4) found show ?thesis using less_le_trans by blast
qed

text \<open>A read at \<open>A\<close>, which holds nothing, while \<open>B\<close> and \<open>C\<close> hold a version.\<close>

definition demo_version :: VersionedValue where
  "demo_version = vv ''x'' (clk [(''B'', 1)] 5 ''B'')"

definition demo_read_world :: world where
  "demo_read_world = demo_world (demo_node ''A'' [] Map.empty Map.empty)
     (demo_node ''B'' [] [''k'' \<mapsto> demo_version] Map.empty)
     (demo_node ''C'' [] [''k'' \<mapsto> demo_version] Map.empty)"

lemma wf_demo_read_world: "wf_world demo_T demo_read_world"
  unfolding demo_read_world_def
  by (rule wf_demo_world; (rule wf_demo_node)?)
    (simp_all add: wf_store_def wf_hint_table_def demo_version_def wf_clock_def)

lemmas read_eval = Get_def demo_eval local_result_def localGet_def run_once.simps next_thread_def
  read_step_def rpc_def ReplicateRead_def found_versions_def resolveGetResult_def computeFrontier_def

lemma demo_read: "fst (Get calm ''A'' ''k'' demo_read_world) =
    Some \<lparr>ge_found = True, ge_value = ''x'', ge_responses = 3, ge_context = clk [(''B'', 1)] 5 ''B''\<rparr>"
  by (simp add: demo_read_world_def demo_version_def read_eval compareVectorClocks_def)

text \<open>
C8. What a read returns: its answer counts distinct nodes of the preference list.  A found value is a
version one of these nodes holds, at least \<open>R\<close> nodes answered, and no answering node that is in
the cluster holds a version causally newer than the returned context.  An answer that names at least
\<open>R\<close> responses and no value comes from nodes that hold nothing for the key or are removed.
\<close>
theorem Get_sound:
  assumes "wf_world T w" and "nodes w self = Some nd" and "Get E self k w = (Some resp, w')"
  shows "\<exists>Q \<subseteq> set (map ple_node_id (preferenceListForKey nd k (nd_N nd))).
    card Q = ge_responses resp \<and>
    (ge_found resp \<longrightarrow> nd_R nd \<le> int (card Q) \<and>
       (\<exists>q \<in> Q. \<exists>n. nodes w q = Some n \<and>
          nd_kv n k = Some \<lparr>vv_value = ge_value resp, vv_clock = ge_context resp\<rparr>) \<and>
       (\<forall>q \<in> Q. \<exists>n. nodes w q = Some n \<and>
          (\<forall>h. isSelfRemoved n = Some False \<longrightarrow> nd_kv n k = Some h \<longrightarrow>
             compareVectorClocks (ge_context resp) (vv_clock h) \<noteq> DOMINATED))) \<and>
    (\<not> ge_found resp \<and> nd_R nd \<le> int (ge_responses resp) \<longrightarrow>
       (\<forall>q \<in> Q. \<exists>n. nodes w q = Some n \<and> (nd_kv n k = None \<or> isSelfRemoved n = Some True)))"
  using Get_responders [OF assms(3,1,2)] unfolding responders_def by blast

theorem Get_sound_witness:
  "\<exists>Q \<subseteq> {''A'', ''B'', ''C''}. card Q = 3 \<and>
    (\<exists>q \<in> Q. \<exists>n. nodes demo_read_world q = Some n \<and>
       nd_kv n ''k'' = Some (vv ''x'' (clk [(''B'', 1)] 5 ''B'')))"
proof -
  obtain w' where get: "Get calm ''A'' ''k'' demo_read_world = (Some \<lparr>ge_found = True, ge_value = ''x'',
      ge_responses = 3, ge_context = clk [(''B'', 1)] 5 ''B''\<rparr>, w')"
    using demo_read by (metis prod.collapse)
  have A: "nodes demo_read_world ''A'' = Some (demo_node ''A'' [] Map.empty Map.empty)"
    by (simp add: demo_read_world_def)
  from Get_sound [OF wf_demo_read_world A get] show ?thesis
    by (simp add: demo_preference) blast
qed

text \<open>
Quorum reads see quorum writes: if a version is held (or superseded) on a set of nodes of the
preference list, none of them removed, and this set and the read quorum \<open>R\<close> together outnumber
\<open>N\<close>, then a read that gets \<open>R\<close> responses finds a value, and its context is not causally older
than that version.
\<close>
theorem quorum_read_sees_write:
  assumes "wf_world T w" and "nodes w self = Some nd" and "Get E self k w = (Some resp, w')"
    and "A \<subseteq> set (map ple_node_id (preferenceListForKey nd k (nd_N nd)))"
    and "nd_N nd < int (card A) + nd_R nd" and "nd_R nd \<le> int (ge_responses resp)"
    and "\<forall>a \<in> A. \<exists>n h. nodes w a = Some n \<and> isSelfRemoved n = Some False \<and> nd_kv n k = Some h \<and>
           counter_of c \<le> vv_counters h"
  shows "ge_found resp \<and> \<not> counter_of (ge_context resp) < counter_of c"
  using assms by (rule quorum_read)

theorem quorum_read_sees_write_witness:
  "\<exists>resp w'. Get calm ''A'' ''k'' demo_read_world = (Some resp, w') \<and> ge_found resp \<and>
     \<not> counter_of (ge_context resp) < counter_of (clk [(''B'', 1)] 5 ''B'')"
proof -
  obtain resp w' where get: "Get calm ''A'' ''k'' demo_read_world = (Some resp, w')"
    and r: "ge_responses resp = 3"
    using demo_read by (metis GetResponse.select_convs(3) prod.collapse)
  have A: "nodes demo_read_world ''A'' = Some (demo_node ''A'' [] Map.empty Map.empty)"
    by (simp add: demo_read_world_def)
  have "\<forall>a \<in> {''B'', ''C''}. \<exists>n h. nodes demo_read_world a = Some n \<and> isSelfRemoved n = Some False \<and>
      nd_kv n ''k'' = Some h \<and> counter_of (clk [(''B'', 1)] 5 ''B'') \<le> vv_counters h"
    by (simp add: demo_read_world_def demo_version_def demo_up)
  from quorum_read_sees_write [OF wf_demo_read_world A get _ _ _ this] r
  have "ge_found resp \<and> \<not> counter_of (ge_context resp) < counter_of (clk [(''B'', 1)] 5 ''B'')"
    by (simp add: demo_preference)
  with get show ?thesis by blast
qed

lemma read_step_found:
  assumes "read_step E self k p res x = (res', x')" and "r \<in> set res'" and "rr_found r"
  shows "r \<in> set res \<or> (\<exists>n. nodes x (rr_peer_id r) = Some n \<and> isSelfRemoved n = Some False)"
proof -
  obtain a w1 where a: "rpc E p (\<lambda>now nd. ReplicateRead k nd) x = (a, w1)" by fastforce
  show ?thesis
  proof (cases a)
    case None
    with assms a show ?thesis by (simp add: read_step_def)
  next
    case (Some y)
    with a obtain n n' where "nodes x p = Some n" "ReplicateRead k n = Some (y, n')"
      using rpc_SomeD by fastforce
    with assms a Some show ?thesis
      by (auto simp: read_step_def ReplicateRead_def split: option.splits bool.splits if_splits)
  qed
qed

text \<open>When the calls are delivered, every listed node that runs and can handle the call answers.\<close>

lemma reads_complete:
  assumes "run_once E (read_step E self k) pool rs w = (results, w')" and "\<forall>t. fate_at E t = Delivered"
    and "\<forall>p \<in> set pool. \<forall>n. nodes w p = Some n \<longrightarrow> isSelfRemoved n \<noteq> None"
  shows "\<forall>p \<in> set pool. nodes w p \<noteq> None \<longrightarrow> p \<in> rr_peer_id ` set results"
    and "set rs \<subseteq> set results"
    and "\<forall>r \<in> set results. rr_found r \<longrightarrow>
      r \<in> set rs \<or> (\<exists>n. nodes w (rr_peer_id r) = Some n \<and> isSelfRemoved n = Some False)"
proof -
  define P where "P M res x \<longleftrightarrow> same_data w x \<and> set rs \<subseteq> set res \<and>
    (\<forall>r \<in> set res. rr_found r \<longrightarrow> r \<in> set rs \<or> (\<exists>n. nodes w (rr_peer_id r) = Some n \<and> isSelfRemoved n = Some False)) \<and>
    (\<forall>p \<in> set pool. nodes w p \<noteq> None \<longrightarrow> p \<in># M \<or> p \<in> rr_peer_id ` set res)" for M res x
  have "P {#} results w'"
  proof (rule run_once_invariant [where P = P, OF assms(1)])
    fix p M res x res' x'
    assume p: "p \<in># M" "set_mset M \<subseteq> set pool" and inv: "P M res x" and step: "read_step E self k p res x = (res', x')"
    obtain r x1 where r: "rpc E p (\<lambda>now nd. ReplicateRead k nd) x = (r, x1)" by fastforce
    have sd: "same_data w x'" using inv read_step_same_data [OF step] same_data_trans by (auto simp: P_def)
    have sub: "set res \<subseteq> set res'" using step r by (auto simp: read_step_def split: option.splits)
    have "p \<in> rr_peer_id ` set res'" if runs: "nodes w p \<noteq> None"
    proof -
      obtain n where n: "nodes w p = Some n" using runs by blast
      have "same_data w x" using inv by (simp add: P_def)
      from same_data_node [OF this n] obtain m where m: "nodes x p = Some m" "same_node_data n m" by blast
      have "p \<in> set pool" using p by blast
      then have "isSelfRemoved n \<noteq> None" using assms(3) n by blast
      moreover have "isSelfRemoved m = isSelfRemoved n"
        using m(2) by (simp add: same_node_data_def isSelfRemoved_same)
      ultimately have "isSelfRemoved m \<noteq> None" by simp
      then have "\<exists>y. ReplicateRead k m = Some (y, m)"
        by (auto simp: ReplicateRead_def split: option.split bool.split)
      then obtain y where "ReplicateRead k m = Some (y, m)" by blast
      then show ?thesis using step r m(1) assms(2) by (auto simp: rpc_def Let_def read_step_def)
    qed
    moreover have "q \<in># M \<Longrightarrow> q \<noteq> p \<Longrightarrow> q \<in># M - {#p#}" for q by (simp add: in_diff_count)
    ultimately have answered: "\<forall>q \<in> set pool. nodes w q \<noteq> None \<longrightarrow> q \<in># M - {#p#} \<or> q \<in> rr_peer_id ` set res'"
      using inv image_mono [OF sub, of rr_peer_id] unfolding P_def by (metis subset_iff)
    have "r \<in> set rs \<or> (\<exists>n. nodes w (rr_peer_id r) = Some n \<and> isSelfRemoved n = Some False)"
      if found: "r \<in> set res'" "rr_found r" for r
    proof -
      have "\<exists>n. nodes w a = Some n \<and> isSelfRemoved n = Some False"
        if "nodes x a = Some m" "isSelfRemoved m = Some False" for a m
      proof -
        have "rel_option same_node_data (nodes w a) (nodes x a)" using inv by (simp add: P_def same_data_def)
        with that show ?thesis
          by (cases "nodes w a") (auto simp: same_node_data_def dest: isSelfRemoved_same)
      qed
      with read_step_found [OF step found] inv found(2) show ?thesis unfolding P_def by blast
    qed
    then show "P (M - {#p#}) res' x'" using inv sd sub answered unfolding P_def by blast
  qed (auto simp: P_def)
  then show "\<forall>p \<in> set pool. nodes w p \<noteq> None \<longrightarrow> p \<in> rr_peer_id ` set results" "set rs \<subseteq> set results"
    "\<forall>r \<in> set results. rr_found r \<longrightarrow>
      r \<in> set rs \<or> (\<exists>n. nodes w (rr_peer_id r) = Some n \<and> isSelfRemoved n = Some False)"
    by (simp_all add: P_def)
qed

text \<open>
C37. A removed node's refusal counts as an answer: a removed node refuses a read with an ok status and
\<open>found = false\<close>, which the reader cannot tell from a missing key.  So if every other node of the
reader's list that runs is removed, whatever they store, the reader has no copy of its own, and \<open>R\<close>
of the listed nodes run, then a read whose calls are delivered does not fail but answers that the key does
not exist, with as many responses as listed nodes run.
\<close>
theorem removed_replica_counts_towards_R:
  assumes "wf_world T w" and "nodes w self = Some nd" and "isSelfRemoved nd = Some False" and "nd_kv nd k = None"
    and "\<forall>t. fate_at E t = Delivered"
    and "\<forall>p \<in> set (map ple_node_id (preferenceListForKey nd k (nd_N nd))) - {self}. \<forall>n.
           nodes w p = Some n \<longrightarrow> isSelfRemoved n = Some True"
    and "nd_R nd \<le> int (card {p \<in> set (map ple_node_id (preferenceListForKey nd k (nd_N nd))). nodes w p \<noteq> None})"
  shows "\<exists>w'. Get E self k w =
    (Some \<lparr>ge_found = False, ge_value = [],
       ge_responses = card {p \<in> set (map ple_node_id (preferenceListForKey nd k (nd_N nd))). nodes w p \<noteq> None},
       ge_context = empty_clock\<rparr>, w')"
proof -
  let ?ids = "map ple_node_id (preferenceListForKey nd k (nd_N nd))"
  let ?run = "{p \<in> set ?ids. nodes w p \<noteq> None}"
  obtain results w1 where run: "run_once E (read_step E self k) (filter (\<lambda>p. p \<noteq> self) ?ids)
      (if self \<in> set ?ids then [local_result nd k] else []) w = (results, w1)"
    by (cases "run_once E (read_step E self k) (filter (\<lambda>p. p \<noteq> self) ?ids)
      (if self \<in> set ?ids then [local_result nd k] else []) w")
  have id: "nd_id nd = self" using wf_worldD [OF assms(1,2)] by simp
  have dist: "distinct ?ids" unfolding preferenceListForKey_def Let_def by (rule preference_ids_distinct)
  have col: "collected w self k ?ids results w1" by (rule run_reads_collected [OF run dist assms(2) id])
  have peers: "\<forall>p \<in> set (filter (\<lambda>p. p \<noteq> self) ?ids). \<forall>n. nodes w p = Some n \<longrightarrow> isSelfRemoved n \<noteq> None"
    using assms(6) by auto
  note complete = reads_complete [OF run assms(5) peers]
  have loc: "rr_peer_id (local_result nd k) = self" "\<not> rr_found (local_result nd k)"
    using id assms(4) by (simp_all add: local_result_def localGet_def)
  have own: "self \<in> rr_peer_id ` set results" if "self \<in> set ?ids"
    using complete(2) that imageI [of "local_result nd k" "set results" rr_peer_id] unfolding loc(1) by simp
  have "p \<in> rr_peer_id ` set results" if p: "p \<in> set ?ids" "nodes w p \<noteq> None" for p
  proof (cases "p = self")
    case False
    with p(1) have "p \<in> set (filter (\<lambda>p. p \<noteq> self) ?ids)" by simp
    then show ?thesis using complete(1) p(2) by blast
  qed (use own p(1) in blast)
  then have "?run \<subseteq> rr_peer_id ` set results" by (intro subsetI, elim CollectE conjE)
  moreover have "rr_peer_id ` set results \<subseteq> ?run"
  proof (intro image_subsetI CollectI conjI)
    fix r assume r: "r \<in> set results"
    show "rr_peer_id r \<in> set ?ids" using col r unfolding collected_def by blast
    have "answers w k r" using col r unfolding collected_def by blast
    then show "nodes w (rr_peer_id r) \<noteq> None" by (auto simp only: answers_def)
  qed
  ultimately have "rr_peer_id ` set results = ?run" by (rule equalityI [rotated])
  with card_peers [OF col] have len: "length results = card ?run" by (simp only:)
  have "\<not> rr_found r" if r: "r \<in> set results" for r
  proof
    assume found: "rr_found r"
    then have "r \<noteq> local_result nd k" using loc(2) by auto
    then have "r \<notin> set (if self \<in> set ?ids then [local_result nd k] else [])" by simp
    then obtain n where n: "nodes w (rr_peer_id r) = Some n" "isSelfRemoved n = Some False"
      using complete(3) r found by blast
    have "answers w k r" "rr_peer_id r \<in> set ?ids" using r col by (auto simp: collected_def)
    moreover have "rr_peer_id r \<noteq> self"
      using calculation(1) found assms(2,4) by (auto simp: answers_def)
    ultimately show False using assms(6) n by auto
  qed
  then have none: "found_versions results = []" by (auto simp: found_versions_def)
  have "card ?run \<le> length ?ids"
    using order_trans [OF card_mono [of "set ?ids" ?run] card_length] by auto
  then have "\<not> int (length (preferenceListForKey nd k (nd_N nd))) < nd_R nd" using assms(7) by simp
  then show ?thesis
    using assms(2,3,7) run len none by (simp add: Get_def Let_def get_refused_def)
qed

text \<open>In the witness \<open>B\<close> and \<open>C\<close> hold a value and have learnt that they are removed.\<close>

theorem removed_replica_counts_towards_R_witness:
  "\<exists>w'. Get calm ''A'' ''k''
     (demo_world (demo_node ''A'' [] Map.empty Map.empty)
        (snd (RemoveNode ''B'' 7 (demo_node ''B'' [] [''k'' \<mapsto> demo_version] Map.empty)))
        (snd (RemoveNode ''C'' 7 (demo_node ''C'' [] [''k'' \<mapsto> demo_version] Map.empty)))) =
   (Some \<lparr>ge_found = False, ge_value = [], ge_responses = 3, ge_context = empty_clock\<rparr>, w')"
proof -
  let ?A = "demo_node ''A'' [] Map.empty Map.empty"
  let ?R = "\<lambda>n. snd (RemoveNode n 7 (demo_node n [] [''k'' \<mapsto> demo_version] Map.empty))"
  let ?w = "demo_world ?A (?R ''B'') (?R ''C'')"
  have wf: "wf_node demo_T (?R n)" if "n \<in> {''B'', ''C''}" for n
    using that by (intro wf_RemoveNode tokens_disjoint_demo wf_demo_node)
      (auto simp: wf_store_def wf_hint_table_def demo_version_def wf_clock_def)
  have id: "nd_id (?R n) = n" for n by (simp add: RemoveNode_def split: option.split)
  have removed: "isSelfRemoved (?R n) = Some True" if "n \<in> {''B'', ''C''}" for n
    using that by (auto simp: RemoveNode_def demo_lookup demo_entry_def isSelfRemoved_def alist_simps)
  have "wf_node demo_T ?A" by (rule wf_demo_node) (simp_all add: wf_store_def wf_hint_table_def)
  then have w: "wf_world demo_T ?w" using wf id by (intro wf_demo_world) auto
  have run: "{p \<in> set (map ple_node_id (preferenceListForKey ?A ''k'' (nd_N ?A))). nodes ?w p \<noteq> None} = {''A'', ''B'', ''C''}"
    by (auto simp: demo_preference)
  have A: "nodes ?w ''A'' = Some ?A" "isSelfRemoved ?A = Some False" by (simp_all add: demo_up)
  have others: "\<forall>p \<in> set (map ple_node_id (preferenceListForKey ?A ''k'' (nd_N ?A))) - {''A''}. \<forall>n.
      nodes ?w p = Some n \<longrightarrow> isSelfRemoved n = Some True"
    using removed by (auto simp: demo_preference)
  have "card {''A'', ''B'', ''C''} = 3" by simp
  with removed_replica_counts_towards_R [OF w A _ _ others, unfolded run, of calm] show ?thesis by simp
qed

end
