(* ===== verification/Consistency.thy ===== *)
theory Consistency
  imports Put_Invariants Read_Path
begin

text \<open>
  Properties of the write and the read path together.
\<close>

lemma natural_list_keeps:
  assumes "\<forall>x \<in> set pref. hint_for_node_id x = None"
    and "\<forall>x \<in> set pref. hint_for_node_id x = None \<longrightarrow> keeps_at w k c (ple_node_id x)"
    and "\<forall>x \<in> set pref. up w (ple_node_id x)"
  shows "\<forall>a \<in> set (map ple_node_id pref). \<exists>n h. nodes w a = Some n \<and> isSelfRemoved n = Some False \<and>
    nd_kv n k = Some h \<and> counter_of c \<le> vv_counters h"
  using assms by (fastforce simp: keeps_at_def node_keeps_def up_def)

text \<open>A delivered write to natural owners is held by all of them.\<close>

lemma delivered_put_keeps:
  assumes "wf_world T w" and "nodes w self = Some nd" and "isSelfRemoved nd = Some False"
    and "wf_clock (pq_context req)"
    and "find (\<lambda>e. ple_node_id e = self) (preferenceListForKey nd (pq_key req) (nd_N nd)) = Some e"
    and "\<forall>t. fate_at E t = Delivered"
    and "\<forall>x \<in> set (preferenceListForKey nd (pq_key req) (nd_N nd)). up w (ple_node_id x)"
    and "\<forall>x \<in> set (preferenceListForKey nd (pq_key req) (nd_N nd)). hint_for_node_id x = None"
    and "nd_W nd \<le> int (length (preferenceListForKey nd (pq_key req) (nd_N nd)))"
    and "Put E self req w = (Some put, w')"
  shows "pr_success put" and "wf_world T w'"
    and "\<forall>a \<in> set (map ple_node_id (preferenceListForKey nd (pq_key req) (nd_N nd))).
      \<exists>n h. nodes w' a = Some n \<and> isSelfRemoved n = Some False \<and> nd_kv n (pq_key req) = Some h \<and>
        counter_of (pr_context put) \<le> vv_counters h"
    and "card (set (map ple_node_id (preferenceListForKey nd (pq_key req) (nd_N nd)))) =
      length (preferenceListForKey nd (pq_key req) (nd_N nd))"
proof -
  let ?pref = "preferenceListForKey nd (pq_key req) (nd_N nd)"
  have c: "wf_clock_opt (Some (pq_context req))" using assms(4) by simp
  have W: "0 \<le> nd_W nd"
    using wf_worldD [OF assms(1,2)] by (simp add: wf_node_def wf_member_def valid_quorum_def)
  note put = coordinatePut_delivered
    [OF Put_coordinates_obtain [OF assms(2,3,5,10)] assms(1,2) c assms(5-7) W assms(9)]
  then show "pr_success put" by blast
  have w': "wf_world T w'" "same_members w w'"
    using wf_Put [OF assms(10,1,4)] by auto
  then show "wf_world T w'" by blast
  have "\<forall>x \<in> set ?pref. up w' (ple_node_id x)" using w'(2) assms(7) up_same by blast
  with natural_list_keeps [OF assms(8)] put
  show "\<forall>a \<in> set (map ple_node_id ?pref). \<exists>n h. nodes w' a = Some n \<and> isSelfRemoved n = Some False \<and>
      nd_kv n (pq_key req) = Some h \<and> counter_of (pr_context put) \<le> vv_counters h" by blast
  show "card (set (map ple_node_id ?pref)) = length ?pref"
    using distinct_card [of "map ple_node_id ?pref"] preference_ids_distinct
    by (simp add: preferenceListForKey_def Let_def)
qed

text \<open>
Read your writes: if all entries of the coordinator's list for the key are natural owners that run
and are not removed, the write's calls are delivered, and \<open>R\<close> together with the length of the list
exceeds \<open>N\<close>, then a later read through any node whose own list for the key contains these nodes and
that gets \<open>R\<close> responses, whichever of its calls fail and in whatever order they run, finds a value
whose context is not causally older than the context that the write returned.
\<close>
theorem read_your_writes:
  assumes "wf_world T w" and "nodes w self = Some nd" and "isSelfRemoved nd = Some False"
    and "wf_clock (pq_context req)"
    and "find (\<lambda>e. ple_node_id e = self) (preferenceListForKey nd (pq_key req) (nd_N nd)) = Some e"
    and "\<forall>t. fate_at E t = Delivered"
    and "\<forall>x \<in> set (preferenceListForKey nd (pq_key req) (nd_N nd)). up w (ple_node_id x)"
    and "\<forall>x \<in> set (preferenceListForKey nd (pq_key req) (nd_N nd)). hint_for_node_id x = None"
    and "nd_W nd \<le> int (length (preferenceListForKey nd (pq_key req) (nd_N nd)))"
    and "Put E self req w = (Some put, w')"
    and "nodes w' reader = Some rd" and "nd_N rd < int (length (preferenceListForKey nd (pq_key req) (nd_N nd))) + nd_R rd"
    and "set (map ple_node_id (preferenceListForKey nd (pq_key req) (nd_N nd))) \<subseteq>
         set (map ple_node_id (preferenceListForKey rd (pq_key req) (nd_N rd)))"
    and "Get F reader (pq_key req) w' = (Some got, w'')" and "nd_R rd \<le> int (ge_responses got)"
  shows "pr_success put \<and> ge_found got \<and> \<not> counter_of (ge_context got) < counter_of (pr_context put)"
proof -
  note put = delivered_put_keeps [OF assms(1-10)]
  from quorum_read [OF put(2) assms(11,14,13) _ assms(15) put(3)] assms(12) put(1,4)
  show ?thesis by simp
qed

lemma demo_clock: "buildNewClock (Some empty_clock) None ''A'' 0 = clk [(''A'', 1)] 0 ''A''"
  by (simp add: buildNewClock_def mergeClocks_def empty_clock_def value_or_empty_def counter_of_def
      count_in_def)

lemma demo_put:
  "\<exists>w'. Put calm ''A'' demo_request demo_write_world =
     (Some \<lparr>pr_success = True, pr_acks = 3, pr_context = clk [(''A'', 1)] 0 ''A''\<rparr>, w') \<and>
   nodes w' = [''A'' \<mapsto> demo_node ''A'' [] [''k'' \<mapsto> vv ''v'' (clk [(''A'', 1)] 0 ''A'')] Map.empty,
     ''B'' \<mapsto> demo_node ''B'' [] [''k'' \<mapsto> vv ''v'' (clk [(''A'', 1)] 0 ''A'')] Map.empty,
     ''C'' \<mapsto> demo_node ''C'' [] [''k'' \<mapsto> vv ''v'' (clk [(''A'', 1)] 0 ''A'')] Map.empty]"
  by (simp add: Put.simps demo_request_def demo_write_world_def demo_eval coordinatePut_def local_write_def
      Let_def commitCoordinatedWrite_def run_writes.simps next_thread_def task_step_def rpc_def
      initial_task_def task_request_def ReplicateWrite_def storeReplicatedWrite_def demo_clock)


theorem read_your_writes_witness:
  "\<exists>put w' got w''. Put calm ''A'' demo_request demo_write_world = (Some put, w') \<and>
     Get calm ''B'' ''k'' w' = (Some got, w'') \<and> pr_success put \<and> ge_found got \<and>
     \<not> counter_of (ge_context got) < counter_of (pr_context put)"
proof -
  let ?A = "demo_node ''A'' [] Map.empty Map.empty" and ?v = "vv ''v'' (clk [(''A'', 1)] 0 ''A'')"
  let ?B = "demo_node ''B'' [] [''k'' \<mapsto> ?v] Map.empty"
  obtain put w' where put: "Put calm ''A'' demo_request demo_write_world = (Some put, w')"
    and w': "nodes w' = [''A'' \<mapsto> demo_node ''A'' [] [''k'' \<mapsto> ?v] Map.empty, ''B'' \<mapsto> ?B,
      ''C'' \<mapsto> demo_node ''C'' [] [''k'' \<mapsto> ?v] Map.empty]"
    using demo_put by blast
  have "fst (Get calm ''B'' ''k'' w') = Some \<lparr>ge_found = True, ge_value = ''v'', ge_responses = 3,
      ge_context = clk [(''A'', 1)] 0 ''A''\<rparr>"
    by (simp add: w' read_eval compareVectorClocks_def)
  then obtain got w'' where get: "Get calm ''B'' ''k'' w' = (Some got, w'')" "ge_responses got = 3"
    by (cases "Get calm ''B'' ''k'' w'") auto
  have up: "isSelfRemoved ?A = Some False" by (simp add: demo_up)
  have wfc: "wf_clock (pq_context demo_request)" by (simp add: demo_request_def wf_intros)
  have f: "find (\<lambda>e. ple_node_id e = ''A'') (preferenceListForKey ?A (pq_key demo_request) (nd_N ?A)) =
      Some (natural_entry ''A'')"
    using demo_find_A by (simp add: demo_request_def)
  have ups: "\<forall>x \<in> set (preferenceListForKey ?A (pq_key demo_request) (nd_N ?A)).
      up demo_write_world (ple_node_id x)"
    by (simp add: demo_request_def demo_preference up_def demo_write_world_def demo_up)
  have B: "nodes w' ''B'' = Some ?B" by (simp add: w')
  have "pr_success put \<and> ge_found got \<and> \<not> counter_of (ge_context got) < counter_of (pr_context put)"
    by (rule read_your_writes [OF wf_demo_write_world demo_write_A up wfc f _ ups _ _ put B, of calm])
      (use get in \<open>simp_all add: demo_request_def demo_preference\<close>)
  with put get show ?thesis by blast
qed

end
