(* ===== verification/Handoff.thy ===== *)
theory Handoff
  imports Write_Path
begin

text \<open>
  Hinted handoff, \<^verbatim>\<open>src/src/node_reachability.cpp\<close>: probing the unreachable peers and
  delivering the hints held for those that answer.
\<close>

subsection \<open>deliverHints\<close>

text \<open>Erasing a delivered hint, under the hint mutex: only if the held one still has the delivered clock.\<close>

definition drop_hint :: "node_id \<Rightarrow> key \<Rightarrow> HeldHint \<Rightarrow> node \<Rightarrow> node" where
  "drop_hint t k hint nd =
     (case nd_hints nd t of
        None \<Rightarrow> nd
      | Some hs \<Rightarrow>
          (case map_of hs k of
             None \<Rightarrow> nd
           | Some held \<Rightarrow>
               if compareVectorClocks (hint_clock held) (hint_clock hint) = EQUAL
               then nd\<lparr>nd_hints := (nd_hints nd)(t \<mapsto> AList.delete k hs)\<rparr> else nd))"

definition hint_request :: "HeldHint \<Rightarrow> ReplicateWriteRequest" where
  "hint_request h = \<lparr>rw_key = hint_key h, rw_value = hint_value h, rw_clock = hint_clock h, rw_hint_for = None\<rparr>"

text \<open>One thread of the fan-out; its item is an entry of the copied map.\<close>

definition deliver_step :: "env \<Rightarrow> node_id \<Rightarrow> node_id \<Rightarrow> key \<times> HeldHint \<Rightarrow> unit \<Rightarrow> world \<Rightarrow> unit \<times> world" where
  "deliver_step E self t kh u w =
     (case rpc E t (ReplicateWrite (hint_request (snd kh))) w of
        (Some resp, w1) \<Rightarrow>
          ((), if rwr_success resp then update_node self (drop_hint t (fst kh) (snd kh)) w1 else w1)
      | (None, w1) \<Rightarrow> ((), update_node self (markUnreachable t) w1))"

definition deliverHints :: "env \<Rightarrow> node_id \<Rightarrow> node_id \<Rightarrow> world \<Rightarrow> world" where
  "deliverHints E self t w =
     (case nodes w self of
        None \<Rightarrow> w
      | Some nd \<Rightarrow>
          (case nd_hints nd t of
             None \<Rightarrow> w
           | Some hints_copy \<Rightarrow> snd (run_once E (deliver_step E self t) hints_copy () w)))"

subsection \<open>reachabilityRound\<close>

definition pingPeer :: "env \<Rightarrow> node_id \<Rightarrow> world \<Rightarrow> bool \<times> world" where
  "pingPeer E p w =
     (case rpc E p (\<lambda>now nd. Some (Ping nd, nd)) w of (r, w') \<Rightarrow> (r \<noteq> None, w'))"

text \<open>
  The probes run as a pool; the answers are collected in its results.  The round then takes the peers
  in the order of its snapshot.  A probe changes no node, so it makes no difference that in the code a
  late probe can overlap with the deliveries to an earlier peer.
\<close>

definition probe_step :: "env \<Rightarrow> node_id \<Rightarrow> node_id list \<Rightarrow> world \<Rightarrow> node_id list \<times> world" where
  "probe_step E p answered w =
     (case pingPeer E p w of (ok, w') \<Rightarrow> (if ok then p # answered else answered, w'))"

fun settle_peers :: "env \<Rightarrow> node_id \<Rightarrow> node_id list \<Rightarrow> node_id list \<Rightarrow> world \<Rightarrow> world" where
  "settle_peers E self [] answered w = w"
| "settle_peers E self (p # ps) answered w =
     settle_peers E self ps answered
       (if p \<in> set answered then deliverHints E self p (update_node self (markReachable p) w) else w)"

definition reachabilityRound :: "env \<Rightarrow> node_id \<Rightarrow> world \<Rightarrow> world" where
  "reachabilityRound E self w =
     (case nodes w self of
        None \<Rightarrow> w
      | Some nd \<Rightarrow>
          (let peers = unreachableSnapshot nd
           in if peers = [] then w
              else (case run_once E (probe_step E) peers [] w of
                      (answered, w1) \<Rightarrow> settle_peers E self peers answered w1)))"

subsection \<open>One delivery\<close>

definition holds_hint :: "world \<Rightarrow> node_id \<Rightarrow> node_id \<Rightarrow> key \<Rightarrow> HeldHint \<Rightarrow> bool" where
  "holds_hint w self t k h \<longleftrightarrow> (\<exists>n. nodes w self = Some n \<and> hint_at t k n = Some h)"

lemma hint_at_drop:
  "wf_hint_table (nd_hints nd) \<Longrightarrow> hint_at u l (drop_hint t k h nd) =
   (if u = t \<and> l = k \<and> (\<exists>g. hint_at t k nd = Some g \<and>
          compareVectorClocks (hint_clock g) (hint_clock h) = EQUAL)
    then None else hint_at u l nd)"
  by (auto simp: drop_hint_def hint_at_def alist_simps split: option.splits)

lemma drop_hint_frame [simp]:
  "nd_kv (drop_hint t k h nd) = nd_kv nd" "nd_id (drop_hint t k h nd) = nd_id nd"
  "nd_table (drop_hint t k h nd) = nd_table nd" "nd_ring (drop_hint t k h nd) = nd_ring nd"
  "nd_unreachable (drop_hint t k h nd) = nd_unreachable nd"
  "nd_N (drop_hint t k h nd) = nd_N nd" "nd_W (drop_hint t k h nd) = nd_W nd"
  "nd_R (drop_hint t k h nd) = nd_R nd"
  by (simp_all add: drop_hint_def split: option.split)

lemma wf_hints_delete: "wf_hints hs \<Longrightarrow> wf_hints (AList.delete k hs)"
proof -
  have "set (AList.delete k hs) \<subseteq> set hs" by (auto simp: AList.delete_eq)
  then show "wf_hints hs \<Longrightarrow> ?thesis" by (auto simp: wf_hints_def distinct_keys_delete)
qed

lemma wf_drop_hint [wf_intros]:
  assumes "wf_node T nd"
  shows "wf_node T (drop_hint t k h nd)"
proof -
  have "wf_hint_table (nd_hints (drop_hint t k h nd))"
    using assms
    by (auto simp: drop_hint_def wf_node_def wf_hint_table_def wf_hints_delete split: option.splits)
  with assms show ?thesis by (simp add: wf_node_def wf_member_def)
qed

lemma same_member_drop: "same_member nd (drop_hint t k h nd)"
  by (simp add: drop_hint_def split: option.split)

lemma wf_mark_hints [simp]:
  "nd_hints (markUnreachable p nd) = nd_hints nd" "nd_hints (markReachable p nd) = nd_hints nd"
  "nd_kv (markUnreachable p nd) = nd_kv nd" "nd_kv (markReachable p nd) = nd_kv nd"
  by (simp_all add: markUnreachable_def markReachable_def)

text \<open>What the target does with a delivered hint.\<close>

lemma deliver_rpc:
  assumes "rpc E t (ReplicateWrite (hint_request h)) w = (resp, w1)" and "wf_world T w" and "wf_clock (hint_clock h)"
  shows "wf_world T w1" and "same_members w w1"
    and "holds_hint w1 a u l g = holds_hint w a u l g"
    and "l \<noteq> hint_key h \<Longrightarrow> keeps_at w l c t \<Longrightarrow> keeps_at w1 l c t"
    and "resp = Some r \<Longrightarrow> rwr_success r \<Longrightarrow> keeps_at w1 (hint_key h) (hint_clock h) t"
    and "b \<noteq> t \<Longrightarrow> nodes w1 b = nodes w b"
proof -
  show "b \<noteq> t \<Longrightarrow> nodes w1 b = nodes w b"
    using assms(1) by (auto simp: rpc_def Let_def split: option.splits if_splits)
  let ?v = "\<lparr>vv_value = hint_value h, vv_clock = hint_clock h\<rparr>"
  have step: "nd' = nd \<and> \<not> rwr_success x \<or> nd' = snd (storeReplicatedWrite (hint_key h) ?v nd)"
    if "ReplicateWrite (hint_request h) now nd = Some (x, nd')" for now nd x nd'
    using that by (auto simp: ReplicateWrite_def hint_request_def Let_def
        split: option.splits bool.splits prod.splits)
  show "wf_world T w1"
    using assms(1,2)
  proof (rule wf_rpc)
    fix now nd r nd' assume nd: "wf_node T nd" "ReplicateWrite (hint_request h) now nd = Some (r, nd')"
    then show "wf_node T nd' \<and> nd_id nd' = nd_id nd"
      using wf_ReplicateWrite [OF nd(1) _ nd(2)] same_member_ReplicateWrite [OF nd(2)] assms(3)
      by (simp add: hint_request_def same_member_def)
  qed
  show "same_members w w1"
    using assms(1) by (rule same_members_rpc) (rule same_member_ReplicateWrite)
  have "(holds_hint w1 a u l g = holds_hint w a u l g) \<and>
      (l \<noteq> hint_key h \<longrightarrow> keeps_at w l c t \<longrightarrow> keeps_at w1 l c t) \<and>
      (resp = Some r \<and> rwr_success r \<longrightarrow> keeps_at w1 (hint_key h) (hint_clock h) t)"
    using assms(1)
  proof (cases rule: rpc_cases)
    case failed
    then show ?thesis by (simp add: holds_hint_def keeps_at_def)
  next
    case (handled nd x nd')
    have wf: "wf_store (nd_kv nd)" using wf_worldD [OF assms(2) handled(1)] by (simp add: wf_node_def)
    note cases = step [OF handled(2)]
    have fr: "nd_hints nd' = nd_hints nd" "l \<noteq> hint_key h \<Longrightarrow> nd_kv nd' l = nd_kv nd l" for l
      using cases storeReplicatedWrite_frame [of "hint_key h" ?v nd]
      by (cases "storeReplicatedWrite (hint_key h) ?v nd"; auto)+
    have "rwr_success x \<Longrightarrow> node_keeps nd' (hint_key h) (hint_clock h)"
      using cases kv.store_covers [OF wf, of ?v "hint_key h"] assms(3) by (auto simp: node_keeps_def)
    then show ?thesis
      using handled fr by (auto simp: holds_hint_def keeps_at_def node_keeps_def hint_at_def)
  qed
  then show "holds_hint w1 a u l g = holds_hint w a u l g"
    "l \<noteq> hint_key h \<Longrightarrow> keeps_at w l c t \<Longrightarrow> keeps_at w1 l c t"
    "resp = Some r \<Longrightarrow> rwr_success r \<Longrightarrow> keeps_at w1 (hint_key h) (hint_clock h) t" by auto
qed


lemma holds_hint_update:
  "(\<And>n. hint_at u l (f n) = hint_at u l n) \<Longrightarrow>
   holds_hint (update_node a f w) b u l g = holds_hint w b u l g"
  by (cases "b = a") (auto simp: holds_hint_def nodes_update)

lemma keeps_at_update:
  "(\<And>n. nd_kv (f n) = nd_kv n) \<Longrightarrow> keeps_at (update_node a f w) l c b = keeps_at w l c b"
  by (cases "b = a") (auto simp: keeps_at_def node_keeps_def nodes_update)

lemma holds_hint_drop:
  assumes "wf_world T w" and "u \<noteq> t \<or> l \<noteq> k"
  shows "holds_hint (update_node a (drop_hint t k h) w) b u l g = holds_hint w b u l g"
proof (cases "b = a")
  case True
  then show ?thesis
    using wf_worldD [OF assms(1)] assms(2)
    by (fastforce simp: holds_hint_def nodes_update hint_at_drop wf_node_def)
qed (simp add: holds_hint_def nodes_update)

text \<open>A thread of the delivery, on the invariant that every hint of the copy is still held or delivered.\<close>

lemma deliver_step_facts:
  assumes "deliver_step E self t kh () w = (u, w')" and "wf_world T w" and "wf_clock (hint_clock (snd kh))"
    and "hint_key (snd kh) = fst kh"
  shows "wf_world T w'" and "same_members w w'"
    and "v \<noteq> t \<or> l \<noteq> fst kh \<Longrightarrow> holds_hint w' a v l g = holds_hint w a v l g"
    and "l \<noteq> fst kh \<Longrightarrow> keeps_at w l c t \<Longrightarrow> keeps_at w' l c t"
    and "holds_hint w self t (fst kh) (snd kh) \<Longrightarrow>
      holds_hint w' self t (fst kh) (snd kh) \<or> keeps_at w' (fst kh) (hint_clock (snd kh)) t"
    and "b \<noteq> t \<Longrightarrow> keeps_at w' l c b = keeps_at w l c b"
proof -
  obtain resp w1 where r: "rpc E t (ReplicateWrite (hint_request (snd kh))) w = (resp, w1)"
    by (cases "rpc E t (ReplicateWrite (hint_request (snd kh))) w")
  note rpc = deliver_rpc [OF r assms(2,3)]
  have cases: "w' = w1 \<or> w' = update_node self (markUnreachable t) w1 \<or>
      (\<exists>x. resp = Some x \<and> rwr_success x) \<and> w' = update_node self (drop_hint t (fst kh) (snd kh)) w1"
    using assms(1) r by (auto simp: deliver_step_def split: option.splits if_splits)
  show "wf_world T w'"
    using cases rpc(1) wf_update_node [of T w1 self "drop_hint t (fst kh) (snd kh)"]
    by (auto simp: wf_intros)
  have "same_members w1 w'"
    using cases same_members_update [of "drop_hint t (fst kh) (snd kh)" w1 self] same_member_drop
      same_members_update [of "markUnreachable t" w1 self] by auto
  then show "same_members w w'" by (rule same_members_trans [OF rpc(2)])
  have kept: "keeps_at w' l c b = keeps_at w1 l c b" for l c b
    using cases by (auto simp: keeps_at_update)
  show "b \<noteq> t \<Longrightarrow> keeps_at w' l c b = keeps_at w l c b"
    unfolding kept using rpc(6) by (simp add: keeps_at_def)
  have marked: "holds_hint (update_node self (markUnreachable t) w1) a v l g = holds_hint w1 a v l g"
    for a v l g by (rule holds_hint_update) simp
  have held: "v \<noteq> t \<or> l \<noteq> fst kh \<Longrightarrow> holds_hint w' a v l g = holds_hint w1 a v l g" for a v l g
    using cases holds_hint_drop [OF rpc(1)] marked by metis
  show "v \<noteq> t \<or> l \<noteq> fst kh \<Longrightarrow> holds_hint w' a v l g = holds_hint w a v l g"
    using rpc(3) held by blast
  show "l \<noteq> fst kh \<Longrightarrow> keeps_at w l c t \<Longrightarrow> keeps_at w' l c t"
    using rpc(4) kept assms(4) by simp
  show "holds_hint w self t (fst kh) (snd kh) \<Longrightarrow>
      holds_hint w' self t (fst kh) (snd kh) \<or> keeps_at w' (fst kh) (hint_clock (snd kh)) t"
    using cases rpc(3) [of self t "fst kh" "snd kh"] rpc(5) marked kept assms(4) by metis
qed

definition delivery_invariant :: "(node_id \<Rightarrow> u64 set) \<Rightarrow> world \<Rightarrow> node_id \<Rightarrow> node_id
    \<Rightarrow> (key \<times> HeldHint) list \<Rightarrow> (key \<times> HeldHint) multiset \<Rightarrow> world \<Rightarrow> bool" where
  "delivery_invariant T w0 self t hs M w \<longleftrightarrow> wf_world T w \<and> same_members w0 w \<and> set_mset M \<subseteq> set hs \<and>
     (\<forall>kh \<in> set hs. (kh \<in># M \<longrightarrow> holds_hint w self t (fst kh) (snd kh)) \<and>
        (holds_hint w self t (fst kh) (snd kh) \<or> keeps_at w (fst kh) (hint_clock (snd kh)) t)) \<and>
     (\<forall>a v l g. v \<noteq> t \<longrightarrow> holds_hint w a v l g = holds_hint w0 a v l g) \<and>
     (\<forall>b l c. b \<noteq> t \<longrightarrow> keeps_at w l c b = keeps_at w0 l c b)"

lemma delivery_invariant_step:
  assumes "kh \<in># M" and "delivery_invariant T w0 self t hs M w" and "wf_hints hs" and "count M kh = 1"
    and "deliver_step E self t kh () w = (u, w')"
  shows "delivery_invariant T w0 self t hs (M - {#kh#}) w'"
proof -
  have M: "set_mset M \<subseteq> set hs" and wf: "wf_world T w" and sm: "same_members w0 w"
    using assms(2) by (auto simp: delivery_invariant_def)
  then have "kh \<in> set hs" using assms(1) by blast
  then have kh: "hint_key (snd kh) = fst kh" "wf_clock (hint_clock (snd kh))"
    using assms(3) by (auto simp: wf_hints_def)
  have keys: "x \<in> set hs \<Longrightarrow> x \<noteq> kh \<Longrightarrow> fst x \<noteq> fst kh" for x
    using assms(3) \<open>kh \<in> set hs\<close> by (auto simp: wf_hints_def distinct_map inj_on_def)
  note facts = deliver_step_facts [OF assms(5) wf kh(2,1)]
  have here: "holds_hint w self t (fst kh) (snd kh)"
    using assms(1,2) \<open>kh \<in> set hs\<close> by (auto simp: delivery_invariant_def)
  have sub: "set_mset (M - {#kh#}) \<subseteq> set hs" using M by (auto dest: in_diffD)
  have out: "kh \<notin># M - {#kh#}" using assms(4) by (simp add: not_in_iff)
  have hs: "\<forall>x \<in> set hs. (x \<in># M - {#kh#} \<longrightarrow> holds_hint w' self t (fst x) (snd x)) \<and>
      (holds_hint w' self t (fst x) (snd x) \<or> keeps_at w' (fst x) (hint_clock (snd x)) t)"
  proof
    fix x assume x: "x \<in> set hs"
    show "(x \<in># M - {#kh#} \<longrightarrow> holds_hint w' self t (fst x) (snd x)) \<and>
      (holds_hint w' self t (fst x) (snd x) \<or> keeps_at w' (fst x) (hint_clock (snd x)) t)"
  proof (cases "x = kh")
    case True
    with out here facts(5) show ?thesis by simp
  next
    case False
    then have k: "fst x \<noteq> fst kh" using keys x by blast
    have inv: "(x \<in># M \<longrightarrow> holds_hint w self t (fst x) (snd x)) \<and>
        (holds_hint w self t (fst x) (snd x) \<or> keeps_at w (fst x) (hint_clock (snd x)) t)"
      using assms(2) x by (simp add: delivery_invariant_def)
    then show ?thesis using facts(3) [of t "fst x" self "snd x"] facts(4) [OF k] k in_diffD by metis
  qed
  qed
  have hints: "\<forall>a v l g. v \<noteq> t \<longrightarrow> holds_hint w' a v l g = holds_hint w0 a v l g"
    using assms(2) facts(3) unfolding delivery_invariant_def by metis
  have keeps: "\<forall>b l c. b \<noteq> t \<longrightarrow> keeps_at w' l c b = keeps_at w0 l c b"
    using assms(2) facts(6) unfolding delivery_invariant_def by metis
  have mem: "same_members w0 w'" by (rule same_members_trans [OF sm facts(2)])
  show ?thesis
    unfolding delivery_invariant_def
    by (intro conjI) (rule facts(1) mem sub hs hints keeps)+
qed

lemma wf_hints_distinct: "wf_hints hs \<Longrightarrow> distinct hs"
  by (simp add: wf_hints_def distinct_map)

text \<open>All threads run once, so every hint of the copy is taken once.\<close>

lemma deliverHints_safe:
  assumes "wf_world T w" and "nodes w self = Some nd"
  shows "wf_world T (deliverHints E self t w)" and "same_members w (deliverHints E self t w)"
    and "holds_hint w self t k h \<Longrightarrow> holds_hint (deliverHints E self t w) self t k h \<or>
      keeps_at (deliverHints E self t w) k (hint_clock h) t"
    and "v \<noteq> t \<Longrightarrow> holds_hint (deliverHints E self t w) a v l g = holds_hint w a v l g"
    and "b \<noteq> t \<Longrightarrow> keeps_at (deliverHints E self t w) l c b = keeps_at w l c b"
proof -
  let ?w = "deliverHints E self t w"
  have "wf_world T ?w \<and> same_members w ?w \<and> (holds_hint w self t k h \<longrightarrow>
      holds_hint ?w self t k h \<or> keeps_at ?w k (hint_clock h) t) \<and>
      (v \<noteq> t \<longrightarrow> holds_hint ?w a v l g = holds_hint w a v l g) \<and>
      (b \<noteq> t \<longrightarrow> keeps_at ?w l c b = keeps_at w l c b)"
  proof (cases "nd_hints nd t")
    case None
    with assms show ?thesis by (simp add: deliverHints_def)
  next
    case (Some hs)
    have wfh: "wf_hints hs" using wf_worldD [OF assms] Some by (auto simp: wf_node_def wf_hint_table_def)
    define P where "P M (u :: unit) x \<longleftrightarrow> delivery_invariant T w self t hs M x \<and> (\<forall>kh. count M kh \<le> 1)"
      for M u x
    obtain w' where run: "run_once E (deliver_step E self t) hs () w = ((), w')"
      by (cases "run_once E (deliver_step E self t) hs () w") simp
    have "holds_hint w self t (fst kh) (snd kh)" if "kh \<in> set hs" for kh
      using that assms(2) Some wfh by (auto simp: holds_hint_def hint_at_def wf_hints_def)
    then have "P (mset hs) () w"
      using assms(1) wf_hints_distinct [OF wfh]
      by (auto simp: P_def delivery_invariant_def distinct_count_atmost_1)
    then have "P {#} () w'"
    proof (rule run_once_invariant [where P = P, OF run])
      fix kh M u x u' x'
      assume mem: "kh \<in># M" and inv: "P M u x" and step: "deliver_step E self t kh u x = (u', x')"
      have le: "count M y \<le> 1" for y using inv unfolding P_def by blast
      have one: "count M kh = 1" using mem le [of kh] by (metis count_greater_eq_one_iff le_antisym)
      have le': "count (M - {#kh#}) y \<le> 1" for y using le [of y] by simp
      have "delivery_invariant T w self t hs (M - {#kh#}) x'"
        by (rule delivery_invariant_step [OF mem _ wfh one]) (use inv step in \<open>simp_all add: P_def\<close>)
      with le' show "P (M - {#kh#}) u' x'" unfolding P_def by blast
    qed
    moreover have "?w = w'" using assms(2) Some run by (simp add: deliverHints_def)
    moreover have "holds_hint w self t k h \<longleftrightarrow> (k, h) \<in> set hs"
      using assms(2) Some wfh by (auto simp: holds_hint_def hint_at_def wf_hints_def)
    ultimately show ?thesis by (force simp: P_def delivery_invariant_def)
  qed
  then show "wf_world T ?w" "same_members w ?w"
    "holds_hint w self t k h \<Longrightarrow> holds_hint ?w self t k h \<or> keeps_at ?w k (hint_clock h) t"
    "v \<noteq> t \<Longrightarrow> holds_hint ?w a v l g = holds_hint w a v l g"
    "b \<noteq> t \<Longrightarrow> keeps_at ?w l c b = keeps_at w l c b" by auto
qed


subsection \<open>Deliveries that succeed\<close>

lemma deliver_step_delivered:
  assumes "deliver_step E self t (k, h) () w = (u, w')" and "wf_world T w" and "wf_clock (hint_clock h)"
    and "hint_key h = k" and "fate_at E (tick w) = Delivered" and "up w t"
    and "holds_hint w self t k h"
  shows "\<not> holds_hint w' self t k g" and "keeps_at w' k (hint_clock h) t"
proof -
  obtain resp w1 where r: "rpc E t (ReplicateWrite (hint_request h)) w = (resp, w1)"
    by (cases "rpc E t (ReplicateWrite (hint_request h)) w")
  obtain nd where nd: "nodes w t = Some nd" "isSelfRemoved nd = Some False"
    using assms(6) by (auto simp: up_def)
  obtain x nd' where x: "ReplicateWrite (hint_request h) (clock_at E (tick w)) nd = Some (x, nd')"
    "rwr_success x"
    using ReplicateWrite_up [OF nd(2)] by blast
  have resp: "resp = Some x" using r nd x(1) assms(5) by (auto simp: rpc_def Let_def)
  note rpc = deliver_rpc [OF r assms(2,3)]
  have w': "w' = update_node self (drop_hint t k h) w1"
    using assms(1) r resp x(2) by (simp add: deliver_step_def)
  show "keeps_at w' k (hint_clock h) t"
    using rpc(5) [OF resp x(2)] assms(4) by (simp add: w' keeps_at_update)
  have held: "holds_hint w1 self t k h" using rpc(3) assms(7) by blast
  then obtain n where n: "nodes w1 self = Some n" "hint_at t k n = Some h" by (auto simp: holds_hint_def)
  have "wf_hint_table (nd_hints n)" using wf_worldD [OF rpc(1) n(1)] by (simp add: wf_node_def)
  then have "hint_at t k (drop_hint t k h n) = None"
    using n(2) assms(3) by (simp add: hint_at_drop vc.cmp_refl)
  then show "\<not> holds_hint w' self t k g"
    using n(1) by (simp add: w' holds_hint_def nodes_update)
qed

definition drained :: "world \<Rightarrow> node_id \<Rightarrow> node_id \<Rightarrow> (key \<times> HeldHint) list \<Rightarrow> (key \<times> HeldHint) multiset
    \<Rightarrow> world \<Rightarrow> bool" where
  "drained w0 self t hs M w \<longleftrightarrow>
     (\<forall>kh \<in> set hs. kh \<in># M \<or> (\<forall>g. \<not> holds_hint w self t (fst kh) g) \<and>
        keeps_at w (fst kh) (hint_clock (snd kh)) t) \<and>
     (\<forall>l g. holds_hint w self t l g \<longrightarrow> holds_hint w0 self t l g)"

lemma drained_step:
  assumes "kh \<in># M" and "delivery_invariant T w0 self t hs M w" and "drained w0 self t hs M w"
    and "wf_hints hs" and "deliver_step E self t kh () w = (u, w')"
    and "fate_at E (tick w) = Delivered" and "up w0 t"
  shows "drained w0 self t hs (M - {#kh#}) w'"
proof -
  have M: "kh \<in> set hs" "wf_world T w" "same_members w0 w" "holds_hint w self t (fst kh) (snd kh)"
    using assms(1,2) by (auto simp: delivery_invariant_def)
  then have kh: "hint_key (snd kh) = fst kh" "wf_clock (hint_clock (snd kh))"
    using assms(4) by (auto simp: wf_hints_def)
  have keys: "x \<in> set hs \<Longrightarrow> x \<noteq> kh \<Longrightarrow> fst x \<noteq> fst kh" for x
    using assms(4) M(1) by (auto simp: wf_hints_def distinct_map inj_on_def)
  have step: "deliver_step E self t (fst kh, snd kh) () w = (u, w')" using assms(5) by simp
  have up: "up w t" using up_same [OF M(3) assms(7)] .
  note fin = deliver_step_delivered [OF step M(2) kh(2,1) assms(6) up M(4)]
  note facts = deliver_step_facts [OF assms(5) M(2) kh(2,1)]
  have "x \<in># M - {#kh#} \<or> (\<forall>g. \<not> holds_hint w' self t (fst x) g) \<and>
      keeps_at w' (fst x) (hint_clock (snd x)) t" if x: "x \<in> set hs" for x
  proof (cases "x = kh")
    case True
    with fin show ?thesis by simp
  next
    case False
    then have k: "fst x \<noteq> fst kh" using keys x by blast
    have "x \<in># M \<Longrightarrow> x \<in># M - {#kh#}" using False by (simp add: in_diff_count)
    then show ?thesis
      using assms(3) x facts(3) [of t "fst x" self] facts(4) [OF k] k unfolding drained_def by blast
  qed
  moreover have "holds_hint w0 self t l g" if "holds_hint w' self t l g" for l g
    using that assms(3) facts(3) [of t l self g] fin(1) unfolding drained_def by (cases "l = fst kh") auto
  ultimately show ?thesis unfolding drained_def by blast
qed

lemma deliverHints_delivered:
  assumes "wf_world T w" and "nodes w self = Some nd" and "\<forall>i. fate_at E i = Delivered" and "up w t"
  shows "\<not> holds_hint (deliverHints E self t w) self t k g"
    and "holds_hint w self t k h \<Longrightarrow> keeps_at (deliverHints E self t w) k (hint_clock h) t"
proof -
  let ?w = "deliverHints E self t w"
  have "\<not> holds_hint ?w self t k g \<and> (holds_hint w self t k h \<longrightarrow> keeps_at ?w k (hint_clock h) t)"
  proof (cases "nd_hints nd t")
    case None
    with assms(2) show ?thesis by (simp add: deliverHints_def holds_hint_def hint_at_def)
  next
    case (Some hs)
    have wfh: "wf_hints hs" using wf_worldD [OF assms(1,2)] Some by (auto simp: wf_node_def wf_hint_table_def)
    have mem: "holds_hint w self t l f \<longleftrightarrow> (l, f) \<in> set hs" for l f
      using assms(2) Some wfh by (auto simp: holds_hint_def hint_at_def wf_hints_def)
    define P where "P M (u :: unit) x \<longleftrightarrow> delivery_invariant T w self t hs M x \<and>
        (\<forall>kh. count M kh \<le> 1) \<and> drained w self t hs M x" for M u x
    obtain w' where run: "run_once E (deliver_step E self t) hs () w = ((), w')"
      by (cases "run_once E (deliver_step E self t) hs () w") simp
    have "P (mset hs) () w"
      using assms(1) wf_hints_distinct [OF wfh] mem
      by (auto simp: P_def delivery_invariant_def drained_def distinct_count_atmost_1)
    then have "P {#} () w'"
    proof (rule run_once_invariant [where P = P, OF run])
      fix kh M u x u' x'
      assume km: "kh \<in># M" and inv: "P M u x" and step: "deliver_step E self t kh u x = (u', x')"
      have le: "count M y \<le> 1" for y using inv unfolding P_def by blast
      have one: "count M kh = 1" using km le [of kh] by (metis count_greater_eq_one_iff le_antisym)
      have le': "count (M - {#kh#}) y \<le> 1" for y using le [of y] by simp
      have i: "delivery_invariant T w self t hs M x" "drained w self t hs M x"
        using inv unfolding P_def by blast+
      have step': "deliver_step E self t kh () x = (u', x')" using step by simp
      from delivery_invariant_step [OF km i(1) wfh one step']
        drained_step [OF km i wfh step' assms(3) [rule_format] assms(4)] le'
      show "P (M - {#kh#}) u' x'" unfolding P_def by blast
    qed
    moreover have "?w = w'" using assms(2) Some run by (simp add: deliverHints_def)
    ultimately show ?thesis using mem by (force simp: P_def drained_def)
  qed
  then show "\<not> holds_hint ?w self t k g"
    "holds_hint w self t k h \<Longrightarrow> keeps_at ?w k (hint_clock h) t" by auto
qed


subsection \<open>A round\<close>

lemma pingPeer_world:
  assumes "pingPeer E p w = (ok, w')"
  shows "nodes w' = nodes w" and "jobs w' = jobs w"
    and "fate_at E (tick w) = Delivered \<Longrightarrow> nodes w p \<noteq> None \<Longrightarrow> ok"
  using assms by (auto simp: pingPeer_def rpc_def Let_def split: option.splits if_splits)

lemma probes:
  assumes "run_once E (probe_step E) peers ans w = (answered, w')"
  shows "nodes w' = nodes w" and "jobs w' = jobs w"
    and "\<forall>i. fate_at E i = Delivered \<Longrightarrow> \<forall>p \<in> set peers. nodes w p \<noteq> None \<Longrightarrow> set peers \<subseteq> set answered"
proof -
  have "(\<lambda>M ans x. nodes x = nodes w \<and> jobs x = jobs w) {#} answered w'"
    by (rule run_once_invariant [OF assms])
      (auto simp: probe_step_def dest: pingPeer_world split: prod.splits)
  then show "nodes w' = nodes w" "jobs w' = jobs w" by auto
  assume fate: "\<forall>i. fate_at E i = Delivered" and run: "\<forall>p \<in> set peers. nodes w p \<noteq> None"
  have "(\<lambda>M ans x. nodes x = nodes w \<and> (\<forall>p \<in> set peers. p \<in># M \<or> p \<in> set ans)) {#} answered w'"
  proof (rule run_once_invariant [OF assms])
    fix p M ans x ans' x'
    assume p: "p \<in># M" "set_mset M \<subseteq> set peers"
      and inv: "nodes x = nodes w \<and> (\<forall>p \<in> set peers. p \<in># M \<or> p \<in> set ans)"
      and step: "probe_step E p ans x = (ans', x')"
    obtain ok x1 where ping: "pingPeer E p x = (ok, x1)" by (cases "pingPeer E p x")
    have ok: "ok" using pingPeer_world(3) [OF ping] fate run p inv by auto
    then have "ans' = p # ans" "x' = x1" using step ping by (auto simp: probe_step_def)
    moreover have "nodes x1 = nodes x" using pingPeer_world(1) [OF ping] .
    moreover have "q \<in># M \<Longrightarrow> q \<noteq> p \<Longrightarrow> q \<in># M - {#p#}" for q by (simp add: in_diff_count)
    ultimately show "nodes x' = nodes w \<and> (\<forall>q \<in> set peers. q \<in># M - {#p#} \<or> q \<in> set ans')"
      using inv by auto
  qed simp
  then show "set peers \<subseteq> set answered" by auto
qed

lemma wf_same_nodes: "nodes w' = nodes w \<Longrightarrow> jobs w' = jobs w \<Longrightarrow> wf_world T w' = wf_world T w"
  by (simp add: wf_world_def)

lemma same_members_same_nodes: "nodes w' = nodes w \<Longrightarrow> same_members w w'"
  by (simp add: same_members_def option.rel_refl)

lemma markReachable_world:
  assumes "wf_world T w"
  shows "wf_world T (update_node a (markReachable p) w)" and "same_members w (update_node a (markReachable p) w)"
    and "holds_hint (update_node a (markReachable p) w) b v l g = holds_hint w b v l g"
    and "keeps_at (update_node a (markReachable p) w) l c b = keeps_at w l c b"
proof -
  show "wf_world T (update_node a (markReachable p) w)"
    using assms by (rule wf_update_node) (simp_all add: wf_intros, simp add: markReachable_def)
  show "same_members w (update_node a (markReachable p) w)" by (rule same_members_update) simp
  show "holds_hint (update_node a (markReachable p) w) b v l g = holds_hint w b v l g"
    by (rule holds_hint_update) (simp add: hint_at_def)
  show "keeps_at (update_node a (markReachable p) w) l c b = keeps_at w l c b"
    by (rule keeps_at_update) simp
qed

text \<open>
  A round loses no hint: what was held for a peer is still held, or the peer holds the version or a
  newer one; a peer that is not in the snapshot is not touched.
\<close>

lemma settle_peers_safe:
  assumes "wf_world T w" and "nodes w self \<noteq> None" and "distinct ps"
  shows "wf_world T (settle_peers E self ps ans w) \<and> same_members w (settle_peers E self ps ans w) \<and>
    (t \<notin> set ps \<longrightarrow> (\<forall>l c. keeps_at (settle_peers E self ps ans w) l c t = keeps_at w l c t) \<and>
       (\<forall>a l g. holds_hint (settle_peers E self ps ans w) a t l g = holds_hint w a t l g)) \<and>
    (holds_hint w self t k h \<longrightarrow> holds_hint (settle_peers E self ps ans w) self t k h \<or>
       keeps_at (settle_peers E self ps ans w) k (hint_clock h) t)"
  using assms
proof (induction ps arbitrary: w)
  case (Cons p ps)
  let ?m = "update_node self (markReachable p) w"
  let ?w1 = "if p \<in> set ans then deliverHints E self p ?m else w"
  obtain nd where nd: "nodes ?m self = Some nd" using Cons.prems(2) by (auto simp: nodes_update)
  note mr = markReachable_world [OF Cons.prems(1), of self p]
  note dh = deliverHints_safe [OF mr(1) nd, where E = E and t = p]
  have wf1: "wf_world T ?w1" and sm1: "same_members w ?w1"
    using Cons.prems(1) dh(1,2) same_members_trans [OF mr(2)] by auto
  have run1: "nodes ?w1 self \<noteq> None"
    using same_members_node [OF sm1] Cons.prems(2) by fastforce
  have kept: "t \<noteq> p \<Longrightarrow> keeps_at ?w1 l c t = keeps_at w l c t"
    and held: "t \<noteq> p \<Longrightarrow> holds_hint ?w1 a t l g = holds_hint w a t l g" for l c a g
    using dh(4) [where v = t] dh(5) [where b = t] mr(3,4) by auto
  have safe: "holds_hint w self t k h \<Longrightarrow> holds_hint ?w1 self t k h \<or> keeps_at ?w1 k (hint_clock h) t"
    using dh(3) [of k h] mr(3) [of self t k h] held [of self k h] by (cases "t = p") auto
  have IH: "wf_world T (settle_peers E self ps ans ?w1) \<and> same_members ?w1 (settle_peers E self ps ans ?w1) \<and>
    (t \<notin> set ps \<longrightarrow> (\<forall>l c. keeps_at (settle_peers E self ps ans ?w1) l c t = keeps_at ?w1 l c t) \<and>
       (\<forall>a l g. holds_hint (settle_peers E self ps ans ?w1) a t l g = holds_hint ?w1 a t l g)) \<and>
    (holds_hint ?w1 self t k h \<longrightarrow> holds_hint (settle_peers E self ps ans ?w1) self t k h \<or>
       keeps_at (settle_peers E self ps ans ?w1) k (hint_clock h) t)"
    using Cons.IH [OF wf1 run1] Cons.prems(3) by simp
  have eq: "settle_peers E self (p # ps) ans w = settle_peers E self ps ans ?w1" by simp
  have "holds_hint w self t k h \<longrightarrow> holds_hint (settle_peers E self ps ans ?w1) self t k h \<or>
       keeps_at (settle_peers E self ps ans ?w1) k (hint_clock h) t"
  proof (cases "t = p")
    case True
    then have "t \<notin> set ps" using Cons.prems(3) by simp
    then show ?thesis using IH safe by blast
  next
    case False
    then show ?thesis using IH held by blast
  qed
  moreover have "same_members w (settle_peers E self ps ans ?w1)"
    using IH sm1 same_members_trans by blast
  ultimately show ?case unfolding eq using IH kept held by auto
qed simp

lemma reachabilityRound_safe:
  assumes "wf_world T w" and "nodes w self = Some nd"
  shows "wf_world T (reachabilityRound E self w)" and "same_members w (reachabilityRound E self w)"
    and "holds_hint w self t k h \<Longrightarrow> holds_hint (reachabilityRound E self w) self t k h \<or>
      keeps_at (reachabilityRound E self w) k (hint_clock h) t"
proof -
  let ?r = "reachabilityRound E self w"
  have "wf_world T ?r \<and> same_members w ?r \<and>
    (holds_hint w self t k h \<longrightarrow> holds_hint ?r self t k h \<or> keeps_at ?r k (hint_clock h) t)"
  proof (cases "nd_unreachable nd = []")
    case True
    with assms show ?thesis by (simp add: reachabilityRound_def unreachableSnapshot_def)
  next
    case False
    let ?ps = "nd_unreachable nd"
    obtain ans w1 where run: "run_once E (probe_step E) ?ps [] w = (ans, w1)"
      by (cases "run_once E (probe_step E) ?ps [] w")
    have r: "?r = settle_peers E self ?ps ans w1"
      using assms(2) False run by (simp add: reachabilityRound_def unreachableSnapshot_def Let_def)
    note pr = probes(1,2) [OF run]
    have dist: "distinct ?ps" using wf_worldD [OF assms] by (simp add: wf_node_def wf_member_def)
    have w1: "wf_world T w1" "nodes w1 self \<noteq> None" "same_members w w1"
      "holds_hint w1 self t k h = holds_hint w self t k h"
      using assms pr wf_same_nodes [OF pr] same_members_same_nodes [OF pr(1)]
      by (auto simp: holds_hint_def)
    have "wf_world T ?r" "same_members w1 ?r"
      "holds_hint w1 self t k h \<Longrightarrow> holds_hint ?r self t k h \<or> keeps_at ?r k (hint_clock h) t"
      using settle_peers_safe [OF w1(1,2) dist, where E = E and ans = ans] unfolding r by auto
    then show ?thesis using w1(4) same_members_trans [OF w1(3)] by simp
  qed
  then show "wf_world T ?r" "same_members w ?r"
    "holds_hint w self t k h \<Longrightarrow> holds_hint ?r self t k h \<or> keeps_at ?r k (hint_clock h) t" by auto
qed


definition unreachable_at :: "world \<Rightarrow> node_id \<Rightarrow> node_id set" where
  "unreachable_at w a = (case nodes w a of None \<Rightarrow> {} | Some n \<Rightarrow> set (nd_unreachable n))"

lemma deliver_step_reaches:
  assumes "deliver_step E self t kh () w = (u, w')" and "fate_at E (tick w) = Delivered" and "up w t"
  shows "same_members w w'" and "unreachable_at w' self = unreachable_at w self"
proof -
  obtain nd where nd: "nodes w t = Some nd" "isSelfRemoved nd = Some False"
    using assms(3) by (auto simp: up_def)
  let ?h = "snd kh" and ?v = "\<lparr>vv_value = hint_value (snd kh), vv_clock = hint_clock (snd kh)\<rparr>"
  let ?w1 = "set_node t (snd (storeReplicatedWrite (hint_key ?h) ?v nd)) (advance w)"
  have w': "w' = update_node self (drop_hint t (fst kh) ?h) ?w1"
    using assms(1,2) nd
    by (auto simp: deliver_step_def rpc_def Let_def ReplicateWrite_def hint_request_def split: prod.splits)
  have "same_members (advance w) ?w1"
    by (rule same_members_set_node) (use nd same_member_store in simp_all)
  moreover have "same_members ?w1 w'"
    unfolding w' by (rule same_members_update) (rule same_member_drop)
  ultimately show "same_members w w'" using same_members_trans same_members_advance by blast
  have "nd_unreachable (snd (storeReplicatedWrite (hint_key ?h) ?v nd)) = nd_unreachable nd"
    using storeReplicatedWrite_frame [of "hint_key ?h" ?v nd]
    by (cases "storeReplicatedWrite (hint_key ?h) ?v nd") auto
  then show "unreachable_at w' self = unreachable_at w self"
    unfolding w' using nd(1) by (simp add: unreachable_at_def nodes_update split: option.split)
qed

lemma deliverHints_unreachable:
  assumes "nodes w self = Some nd" and "\<forall>i. fate_at E i = Delivered" and "up w t"
  shows "unreachable_at (deliverHints E self t w) self = unreachable_at w self"
proof (cases "nd_hints nd t")
  case (Some hs)
  obtain w' where run: "run_once E (deliver_step E self t) hs () w = ((), w')"
    by (cases "run_once E (deliver_step E self t) hs () w") simp
  have "same_members w w' \<and> unreachable_at w' self = unreachable_at w self"
  proof (rule run_once_keeps [OF run])
    fix kh u x u' x'
    assume inv: "same_members w x \<and> unreachable_at x self = unreachable_at w self"
      and "deliver_step E self t kh u x = (u', x')"
    then have step: "deliver_step E self t kh () x = (u', x')" by simp
    have "up x t" using inv up_same assms(3) by blast
    from deliver_step_reaches [OF step assms(2) [rule_format] this] inv
    show "same_members w x' \<and> unreachable_at x' self = unreachable_at w self"
      using same_members_trans by blast
  qed simp
  with assms(1) Some run show ?thesis by (simp add: deliverHints_def)
qed (use assms(1) in \<open>simp add: deliverHints_def\<close>)

lemma settle_peers_delivered:
  assumes "wf_world T w" and "nodes w self \<noteq> None" and "distinct ps" and "\<forall>i. fate_at E i = Delivered"
    and "\<forall>p \<in> set ps. up w p" and "set ps \<subseteq> set ans"
  shows "unreachable_at (settle_peers E self ps ans w) self = unreachable_at w self - set ps \<and>
    (t \<in> set ps \<longrightarrow> (\<forall>k g. \<not> holds_hint (settle_peers E self ps ans w) self t k g) \<and>
       (\<forall>k h. holds_hint w self t k h \<longrightarrow> keeps_at (settle_peers E self ps ans w) k (hint_clock h) t))"
  using assms
proof (induction ps arbitrary: w)
  case (Cons p ps)
  let ?m = "update_node self (markReachable p) w"
  let ?w1 = "deliverHints E self p ?m"
  obtain nd where nd: "nodes ?m self = Some nd" using Cons.prems(2) by (auto simp: nodes_update)
  note mr = markReachable_world [OF Cons.prems(1), of self p]
  note dh = deliverHints_safe [OF mr(1) nd, where E = E and t = p]
  have sm1: "same_members w ?w1" using dh(2) same_members_trans [OF mr(2)] by blast
  have run1: "nodes ?w1 self \<noteq> None"
    using same_members_node [OF sm1] Cons.prems(2) by fastforce
  have ups: "\<forall>q \<in> set ps. up ?w1 q" using Cons.prems(5) up_same [OF sm1] by simp
  have upm: "up ?m p" using Cons.prems(5) up_same [OF mr(2)] by simp
  note dd = deliverHints_delivered [OF mr(1) nd Cons.prems(4) upm]
  let ?r = "settle_peers E self ps ans ?w1"
  have eq: "settle_peers E self (p # ps) ans w = ?r" using Cons.prems(6) by simp
  have IH: "unreachable_at ?r self = unreachable_at ?w1 self - set ps \<and>
    (t \<in> set ps \<longrightarrow> (\<forall>k g. \<not> holds_hint ?r self t k g) \<and>
       (\<forall>k h. holds_hint ?w1 self t k h \<longrightarrow> keeps_at ?r k (hint_clock h) t))"
    by (rule Cons.IH [OF dh(1) run1 _ Cons.prems(4) ups]) (use Cons.prems(3,6) in simp_all)
  have "unreachable_at ?w1 self = unreachable_at w self - {p}"
    using deliverHints_unreachable [OF nd Cons.prems(4) upm] Cons.prems(2)
    by (auto simp: unreachable_at_def nodes_update)
  then have un: "unreachable_at ?r self = unreachable_at w self - set (p # ps)" using IH by auto
  have hints: "(\<forall>k g. \<not> holds_hint ?r self t k g) \<and>
       (\<forall>k h. holds_hint w self t k h \<longrightarrow> keeps_at ?r k (hint_clock h) t)" if t: "t \<in> set (p # ps)"
  proof (cases "t = p")
    case True
    then have "t \<notin> set ps" using Cons.prems(3) by simp
    then have "keeps_at ?r l c t = keeps_at ?w1 l c t" "holds_hint ?r self t l g = holds_hint ?w1 self t l g"
      for l c g
      using settle_peers_safe [OF dh(1) run1, of ps E ans t] Cons.prems(3) by simp_all
    then show ?thesis using dd mr(3) True by simp
  next
    case False
    then have "t \<in> set ps" using t by simp
    then show ?thesis using IH dh(4) [OF False, of self] mr(3) by simp
  qed
  show ?case unfolding eq using un hints by blast
qed (simp add: unreachable_at_def)

subsection \<open>A hint to deliver\<close>

definition demo_hint :: HeldHint where
  "demo_hint = \<lparr>hint_key = ''k'', hint_value = ''v'', hint_clock = clk [(''A'', 1)] 3 ''A'',
     hint_created_at = 4\<rparr>"

definition demo_handoff_world :: world where
  "demo_handoff_world = demo_world4 (demo_node ''A'' [] Map.empty Map.empty)
     (demo_node ''B'' [] Map.empty Map.empty) (demo_node ''C'' [] Map.empty Map.empty)
     (demo_node ''D'' [''B''] Map.empty [''B'' \<mapsto> [(''k'', demo_hint)]])"

lemma wf_demo_handoff_world: "wf_world demo_T demo_handoff_world"
  unfolding demo_handoff_world_def
  by (rule wf_demo_world4; (rule wf_demo_node)?)
    (simp_all add: wf_store_def wf_hint_table_def wf_hints_def demo_hint_def wf_clock_def)

lemma demo_handoff_D: "nodes demo_handoff_world ''D'' =
    Some (demo_node ''D'' [''B''] Map.empty [''B'' \<mapsto> [(''k'', demo_hint)]])"
  by (simp add: demo_handoff_world_def)

lemma reachabilityRound_delivered:
  assumes "wf_world T w" and "nodes w self = Some nd" and "\<forall>i. fate_at E i = Delivered"
    and "\<forall>p \<in> set (nd_unreachable nd). up w p"
  shows "\<exists>nd'. nodes (reachabilityRound E self w) self = Some nd' \<and> nd_unreachable nd' = [] \<and>
    (\<forall>p \<in> set (nd_unreachable nd). \<forall>k. hint_at p k nd' = None \<and>
       (\<forall>h. hint_at p k nd = Some h \<longrightarrow> keeps_at (reachabilityRound E self w) k (hint_clock h) p))"
proof -
  let ?r = "reachabilityRound E self w"
  obtain nd' where nd': "nodes ?r self = Some nd'"
    using same_members_node [OF reachabilityRound_safe(2) [OF assms(1,2)] assms(2)] by blast
  show ?thesis
  proof (cases "nd_unreachable nd = []")
    case True
    with assms(2) nd' show ?thesis by (simp add: reachabilityRound_def unreachableSnapshot_def)
  next
    case False
    let ?ps = "nd_unreachable nd"
    obtain ans w1 where run: "run_once E (probe_step E) ?ps [] w = (ans, w1)"
      by (cases "run_once E (probe_step E) ?ps [] w")
    have r: "?r = settle_peers E self ?ps ans w1"
      using assms(2) False run by (simp add: reachabilityRound_def unreachableSnapshot_def Let_def)
    note pr = probes(1,2) [OF run]
    have dist: "distinct ?ps" using wf_worldD [OF assms(1,2)] by (simp add: wf_node_def wf_member_def)
    have ans: "set ?ps \<subseteq> set ans"
      using probes(3) [OF run assms(3)] assms(4) by (auto simp: up_def)
    have w1: "wf_world T w1" "nodes w1 self \<noteq> None" "\<forall>p \<in> set ?ps. up w1 p"
      "unreachable_at w1 self = set ?ps"
      using assms(1,2,4) pr wf_same_nodes [OF pr] by (auto simp: up_def unreachable_at_def)
    have held: "holds_hint w1 self p k h \<longleftrightarrow> hint_at p k nd = Some h" for p k h
      using assms(2) pr by (simp add: holds_hint_def)
    note settled = settle_peers_delivered [OF w1(1,2) dist assms(3) w1(3) ans]
    have "unreachable_at ?r self = {}" using settled w1(4) unfolding r by simp
    then have "nd_unreachable nd' = []" using nd' by (simp add: unreachable_at_def)
    moreover have "hint_at p k nd' = None \<and> (\<forall>h. hint_at p k nd = Some h \<longrightarrow> keeps_at ?r k (hint_clock h) p)"
      if p: "p \<in> set ?ps" for p k
    proof -
      have none: "\<not> holds_hint ?r self p k g" for g using settled p unfolding r by blast
      have "hint_at p k nd' = None"
        using none nd' by (cases "hint_at p k nd'") (auto simp: holds_hint_def)
      moreover have "\<forall>h. holds_hint w1 self p k h \<longrightarrow> keeps_at ?r k (hint_clock h) p"
        using settled p unfolding r by blast
      ultimately show ?thesis by (simp add: held)
    qed
    ultimately show ?thesis using nd' by blast
  qed
qed

end
