(* ===== verification/Gossip.thy ===== *)
theory Gossip
  imports Scenario
begin

text \<open>
  The gossip between processes, \<^verbatim>\<open>src/src/node_membership.cpp\<close>: the call
  (\<open>SendGossip\<close>), one round of the loop (\<open>gossipRound\<close>) and joining a cluster through its seeds
  (\<open>bootstrapFromSeed\<close>).  The pauses between rounds and between passes are not modelled.
\<close>

definition SendGossip :: "env \<Rightarrow> node_id \<Rightarrow> string \<Rightarrow> MembershipTable \<Rightarrow> world \<Rightarrow> GossipResponse option \<times> world" where
  "SendGossip E self peer tbl w =
     (case rpc E peer (\<lambda>now nd. Some (GossipExchange \<lparr>gq_sender = self, gq_table = tbl\<rparr> nd)) w of
        (Some resp, w1) \<Rightarrow> (Some resp, w1)
      | (None, w1) \<Rightarrow> (None, update_node self (markUnreachable peer) w1))"

definition apply_response :: "node_id \<Rightarrow> GossipResponse \<Rightarrow> world \<Rightarrow> world" where
  "apply_response self resp w = update_node self (\<lambda>nd. snd (applyGossip (gr_table resp) nd)) w"

definition gossipRound :: "env \<Rightarrow> node_id \<Rightarrow> world \<Rightarrow> world" where
  "gossipRound E self w =
     (case nodes w self of
        None \<Rightarrow> w
      | Some nd \<Rightarrow>
          (case selectGossipTarget self (nd_table nd) (choice_at E (tick w)) of
             None \<Rightarrow> w
           | Some peer \<Rightarrow>
               (case SendGossip E self peer (nd_table nd) (advance w) of
                  (None, w1) \<Rightarrow> w1
                | (Some resp, w1) \<Rightarrow> apply_response self resp w1)))"

text \<open>One pass over the seeds, each with a fresh snapshot of the table, and the three passes.\<close>

fun try_seeds :: "env \<Rightarrow> node_id \<Rightarrow> string list \<Rightarrow> world \<Rightarrow> bool \<times> world" where
  "try_seeds E self [] w = (False, w)"
| "try_seeds E self (seed # seeds) w =
     (case nodes w self of
        None \<Rightarrow> (False, w)
      | Some nd \<Rightarrow>
          (case SendGossip E self seed (nd_table nd) w of
             (Some resp, w1) \<Rightarrow> (True, apply_response self resp w1)
           | (None, w1) \<Rightarrow> try_seeds E self seeds w1))"

fun bootstrap_passes :: "nat \<Rightarrow> env \<Rightarrow> node_id \<Rightarrow> string list \<Rightarrow> world \<Rightarrow> bool \<times> world" where
  "bootstrap_passes 0 E self seeds w = (False, w)"
| "bootstrap_passes (Suc n) E self seeds w =
     (case try_seeds E self seeds w of
        (True, w1) \<Rightarrow> (True, w1)
      | (False, w1) \<Rightarrow> bootstrap_passes n E self seeds w1)"

definition bootstrapFromSeed :: "env \<Rightarrow> node_id \<Rightarrow> string list \<Rightarrow> world \<Rightarrow> bool \<times> world" where
  "bootstrapFromSeed E self seeds w = bootstrap_passes 3 E self seeds w"

subsection \<open>Tables determine rings\<close>

lemma ring_ok_unique:
  assumes "ring_ok t r" and "ring_ok u s" and "map_of t = map_of u"
  shows "r = s"
proof -
  have "owns t = owns u" by (simp add: owns_def fun_eq_iff assms(3))
  then have "map_of r k = Some n \<longleftrightarrow> map_of s k = Some n" for k n
    using assms(1,2) by (simp add: ring_ok_def)
  then have "map_of r = map_of s" by (metis not_None_eq ext)
  with assms(1,2) show ?thesis unfolding ring_ok_def by (intro ascending_eqI) simp_all
qed

subsection \<open>Well-formedness\<close>

lemma applyGossip_frame:
  "nd_id (snd (applyGossip inc nd)) = nd_id nd" "nd_kv (snd (applyGossip inc nd)) = nd_kv nd"
  "nd_hints (snd (applyGossip inc nd)) = nd_hints nd"
  by (simp_all add: applyGossip_def split: prod.split)

lemma SendGossip_wf:
  assumes "SendGossip E self peer tbl w = (resp, w')" and "wf_world T w" and "tokens_disjoint T"
    and "table_ok T tbl"
  shows "wf_world T w'" and "resp = Some r \<Longrightarrow> table_ok T (gr_table r)"
proof -
  let ?h = "\<lambda>now nd. Some (GossipExchange \<lparr>gq_sender = self, gq_table = tbl\<rparr> nd)"
  obtain r' w1 where r: "rpc E peer ?h w = (r', w1)" by (cases "rpc E peer ?h w")
  have "wf_world T w1"
    using r assms(2)
  proof (rule wf_rpc)
    fix now nd r nd' assume "wf_node T nd" "?h now nd = Some (r, nd')"
    then show "wf_node T nd' \<and> nd_id nd' = nd_id nd"
      using wf_GossipExchange(1) [of T nd "\<lparr>gq_sender = self, gq_table = tbl\<rparr>"] assms(3,4)
      by (auto simp: GossipExchange_def applyGossip_frame split: prod.splits)
         (metis applyGossip_frame(1) snd_conv)
  qed
  then show "wf_world T w'" using assms(1) r by (auto simp: SendGossip_def wf_intros split: option.splits)
  assume "resp = Some r"
  then have "rpc E peer ?h w = (Some r, w1)" using assms(1) r by (auto simp: SendGossip_def split: option.splits)
  from rpc_SomeD [OF this] obtain nd nd' where
    nd: "nodes w peer = Some nd" "GossipExchange \<lparr>gq_sender = self, gq_table = tbl\<rparr> nd = (r, nd')" by auto
  have "wf_node T nd" using wf_worldD [OF assms(2) nd(1)] by simp
  from wf_GossipExchange(2) [OF this assms(3), of "\<lparr>gq_sender = self, gq_table = tbl\<rparr>"] assms(4) nd(2)
  show "table_ok T (gr_table r)" by simp
qed

lemma wf_apply_response:
  assumes "wf_world T w" and "tokens_disjoint T" and "table_ok T (gr_table r)"
  shows "wf_world T (apply_response self r w)"
  unfolding apply_response_def using assms
  by (intro wf_update_node) (auto simp: wf_applyGossip applyGossip_frame)

lemma wf_gossipRound:
  assumes "wf_world T w" and "tokens_disjoint T"
  shows "wf_world T (gossipRound E self w)"
proof (cases "nodes w self")
  case None
  with assms show ?thesis by (simp add: gossipRound_def)
next
  case (Some nd)
  have tbl: "table_ok T (nd_table nd)"
    using wf_worldD [OF assms(1) Some] by (simp add: wf_node_def wf_member_def)
  show ?thesis
  proof (cases "selectGossipTarget self (nd_table nd) (choice_at E (tick w))")
    case None
    with Some assms(1) show ?thesis by (simp add: gossipRound_def)
  next
    case sel: (Some peer)
    obtain resp w1 where s: "SendGossip E self peer (nd_table nd) (advance w) = (resp, w1)"
      by (cases "SendGossip E self peer (nd_table nd) (advance w)")
    note wf = SendGossip_wf [OF s wf_advance [OF assms(1)] assms(2) tbl]
    show ?thesis
      using Some sel s wf wf_apply_response [OF wf(1) assms(2)]
      by (cases resp) (simp_all add: gossipRound_def)
  qed
qed

lemma wf_try_seeds:
  assumes "try_seeds E self seeds w = (ok, w')" and "wf_world T w" and "tokens_disjoint T"
  shows "wf_world T w'"
  using assms(1,2)
proof (induction seeds arbitrary: w)
  case (Cons seed seeds)
  show ?case
  proof (cases "nodes w self")
    case None
    with Cons.prems show ?thesis by simp
  next
    case (Some nd)
    have tbl: "table_ok T (nd_table nd)"
      using wf_worldD [OF Cons.prems(2) Some] by (simp add: wf_node_def wf_member_def)
    obtain resp w1 where s: "SendGossip E self seed (nd_table nd) w = (resp, w1)"
      by (cases "SendGossip E self seed (nd_table nd) w")
    note wf = SendGossip_wf [OF s Cons.prems(2) assms(3) tbl]
    show ?thesis
      using Cons.IH [OF _ wf(1)] Cons.prems(1) Some s wf wf_apply_response [OF wf(1) assms(3)]
      by (cases resp) auto
  qed
qed simp

lemma wf_bootstrapFromSeed:
  assumes "bootstrapFromSeed E self seeds w = (ok, w')" and "wf_world T w" and "tokens_disjoint T"
  shows "wf_world T w'"
proof -
  have "bootstrap_passes n E self seeds w = (ok, w') \<Longrightarrow> wf_world T w \<Longrightarrow> wf_world T w'" for n w
  proof (induction n arbitrary: w)
    case (Suc n)
    obtain b w1 where t: "try_seeds E self seeds w = (b, w1)" by (cases "try_seeds E self seeds w")
    have "wf_world T w1" by (rule wf_try_seeds [OF t Suc.prems(2) assms(3)])
    with Suc t show ?case by (cases b) auto
  qed simp
  with assms(1,2) show ?thesis by (simp add: bootstrapFromSeed_def)
qed


subsection \<open>A delivered exchange\<close>

lemma SendGossip_delivered:
  assumes "nodes w peer = Some pd" and "fate_at E (tick w) = Delivered"
  shows "SendGossip E self peer tbl w =
    (Some \<lparr>gr_responder = nd_id pd, gr_table = fst (applyGossip tbl pd)\<rparr>,
     set_node peer (snd (applyGossip tbl pd)) (advance w))"
  using assms by (simp add: SendGossip_def rpc_def GossipExchange_def split: prod.split)

lemma applyGossip_slot:
  "distinct_keys inc \<Longrightarrow> map_of (nd_table (snd (applyGossip inc nd))) n =
   lww_join incoming_wins (map_of (nd_table nd) n) (map_of inc n)"
  by (simp add: applyGossip_table applyGossip_fst mergeInto_slot)

text \<open>The state of both nodes after the exchange, for an initiator whose table is the one it sent.\<close>

lemma exchange_joins:
  assumes "wf_node T nd" and "wf_node T pd" and "tokens_disjoint T"
    and "stamps_identify [nd_table nd, nd_table pd]"
  shows "map_of (nd_table (snd (applyGossip (nd_table nd) pd))) =
      (\<lambda>n. lww_join incoming_wins (map_of (nd_table nd) n) (map_of (nd_table pd) n))"
    and "map_of (nd_table (snd (applyGossip (fst (applyGossip (nd_table nd) pd)) nd))) =
      (\<lambda>n. lww_join incoming_wins (map_of (nd_table nd) n) (map_of (nd_table pd) n))"
    and "nd_ring (snd (applyGossip (fst (applyGossip (nd_table nd) pd)) nd)) =
      nd_ring (snd (applyGossip (nd_table nd) pd))"
proof -
  let ?p = "snd (applyGossip (nd_table nd) pd)"
  let ?s = "snd (applyGossip (fst (applyGossip (nd_table nd) pd)) nd)"
  have t: "table_ok T (nd_table nd)" "table_ok T (nd_table pd)"
    "distinct_keys (nd_table nd)" "distinct_keys (nd_table pd)"
    using assms(1,2) by (auto simp: wf_node_def wf_member_def table_ok_def)
  note comm = stamps_identify_comm [OF assms(4), of "nd_table nd" "nd_table pd"]
  have slot: "map_of (nd_table ?p) n = lww_join incoming_wins (map_of (nd_table pd) n) (map_of (nd_table nd) n)"
    for n using t(3) by (rule applyGossip_slot)
  then show p: "map_of (nd_table ?p) =
      (\<lambda>n. lww_join incoming_wins (map_of (nd_table nd) n) (map_of (nd_table pd) n))"
    using comm by (simp add: fun_eq_iff)
  have "distinct_keys (nd_table ?p)"
    using wf_applyGossip(1) [OF assms(2,3) t(1)] by (simp add: wf_node_def wf_member_def table_ok_def)
  then have "map_of (nd_table ?s) n = lww_join incoming_wins (map_of (nd_table nd) n) (map_of (nd_table ?p) n)"
    for n using applyGossip_slot [of "fst (applyGossip (nd_table nd) pd)" nd n]
    by (simp add: applyGossip_table)
  moreover have "lww_join incoming_wins x (lww_join incoming_wins x y) = lww_join incoming_wins x y" for x y
    using mlww.join_assoc [of x x y] by simp
  ultimately show s: "map_of (nd_table ?s) =
      (\<lambda>n. lww_join incoming_wins (map_of (nd_table nd) n) (map_of (nd_table pd) n))"
    by (simp add: p fun_eq_iff)
  have wfp: "wf_node T ?p" by (rule wf_applyGossip(1) [OF assms(2,3) t(1)])
  have wfs: "wf_node T ?s"
    by (rule wf_applyGossip(1) [OF assms(1,3)]) (rule wf_applyGossip(2) [OF assms(2,3) t(1)])
  show "nd_ring ?s = nd_ring ?p"
    by (rule ring_ok_unique [of "nd_table ?s" _ "nd_table ?p"])
      (use wfp wfs p s in \<open>simp_all add: wf_node_def wf_member_def\<close>)
qed

subsection \<open>Properties\<close>

text \<open>
A gossip round whose calls are delivered brings the two nodes together: afterwards both tables are
the join of the two earlier ones, entry by entry the one with the greater stamp, and both rings are
identical, so both nodes compute the same preference list for every key and the same reachable set.
Their keys, hints and the other nodes are untouched.  (No two different entries for a node may carry
the same stamp.)
\<close>
theorem gossipRound_synchronises:
  assumes "wf_world T w" and "tokens_disjoint T" and "nodes w self = Some nd" and "nodes w peer = Some pd"
    and "self \<noteq> peer" and "selectGossipTarget self (nd_table nd) (choice_at E (tick w)) = Some peer"
    and "fate_at E (tick w + 1) = Delivered" and "stamps_identify [nd_table nd, nd_table pd]"
  shows "\<exists>nd' pd'. nodes (gossipRound E self w) = (nodes w)(self \<mapsto> nd', peer \<mapsto> pd') \<and>
    map_of (nd_table nd') = (\<lambda>n. lww_join incoming_wins (map_of (nd_table nd) n) (map_of (nd_table pd) n)) \<and>
    map_of (nd_table pd') = map_of (nd_table nd') \<and> nd_ring pd' = nd_ring nd' \<and>
    (\<forall>k N reachable. preferenceList (nd_ring pd') (key_hash k) N reachable =
       preferenceList (nd_ring nd') (key_hash k) N reachable) \<and>
    nd_kv nd' = nd_kv nd \<and> nd_hints nd' = nd_hints nd \<and> nd_kv pd' = nd_kv pd \<and> nd_hints pd' = nd_hints pd"
proof -
  let ?p = "snd (applyGossip (nd_table nd) pd)"
  let ?s = "snd (applyGossip (fst (applyGossip (nd_table nd) pd)) nd)"
  have wf: "wf_node T nd" "wf_node T pd" using wf_worldD [OF assms(1)] assms(3,4) by auto
  have send: "SendGossip E self peer (nd_table nd) (advance w) =
      (Some \<lparr>gr_responder = nd_id pd, gr_table = fst (applyGossip (nd_table nd) pd)\<rparr>,
       set_node peer ?p (advance (advance w)))"
    by (rule SendGossip_delivered) (use assms(4,7) in simp_all)
  have "nodes (gossipRound E self w) = (nodes w)(self \<mapsto> ?s, peer \<mapsto> ?p)"
    using assms(3,5,6) send
    by (auto simp: gossipRound_def apply_response_def nodes_update fun_eq_iff)
  with exchange_joins [OF wf assms(2,8)] show ?thesis
    by (intro exI [of _ ?s] exI [of _ ?p]) (simp add: applyGossip_frame)
qed


text \<open>Two nodes without tokens: \<open>A\<close> knows \<open>B\<close>, \<open>B\<close> only knows itself.\<close>

definition bare_entry :: "node_id \<Rightarrow> MembershipEntry" where
  "bare_entry n = \<lparr>me_writer_id = n, address = n, status = UP, tokens = [], me_last_updated = 1\<rparr>"

definition bare_node :: "node_id \<Rightarrow> node_id list \<Rightarrow> node" where
  "bare_node n ms = \<lparr>nd_id = n, nd_vnodes = 0, nd_table = map (\<lambda>m. (m, bare_entry m)) ms, nd_ring = [],
     nd_unreachable = [], nd_kv = Map.empty, nd_hints = Map.empty, nd_N = 3, nd_W = 2, nd_R = 2\<rparr>"

definition bare_world :: world where
  "bare_world = \<lparr>nodes = [''A'' \<mapsto> bare_node ''A'' [''A'', ''B''], ''B'' \<mapsto> bare_node ''B'' [''B'']],
     jobs = [], tick = 0\<rparr>"

lemma bare_lookup: "map_of (map (\<lambda>m. (m, bare_entry m)) ms) n = (if n \<in> set ms then Some (bare_entry n) else None)"
  by (induction ms) auto

lemma wf_bare_node:
  assumes "n \<in> set ms" and "distinct ms"
  shows "wf_node (\<lambda>_. {}) (bare_node n ms)"
proof -
  have "table_ok (\<lambda>_. {}) (map (\<lambda>m. (m, bare_entry m)) ms)"
    using assms(2) by (simp add: table_ok_def bare_lookup entry_ok_def comp_def)
      (simp add: bare_entry_def)
  moreover have "ring_ok (map (\<lambda>m. (m, bare_entry m)) ms) []"
    by (rule ring_okI) (simp_all add: owns_def bare_lookup, simp add: bare_entry_def)
  ultimately show ?thesis
    using assms(1)
    by (auto simp: wf_node_def wf_member_def bare_node_def wf_store_def wf_hint_table_def image_image
        valid_quorum_def)
qed

lemma wf_bare_world: "wf_world (\<lambda>_. {}) bare_world"
  using wf_bare_node [of "''A''" "[''A'', ''B'']"] wf_bare_node [of "''B''" "[''B'']"]
  by (auto simp: wf_world_def bare_world_def bare_node_def)

lemma bare_disjoint: "tokens_disjoint (\<lambda>_. {})"
  by (simp add: tokens_disjoint_def)

lemma bare_nodes: "nodes bare_world ''A'' = Some (bare_node ''A'' [''A'', ''B''])"
  "nodes bare_world ''B'' = Some (bare_node ''B'' [''B''])"
  by (simp_all add: bare_world_def)

theorem gossipRound_synchronises_witness:
  "\<exists>b. nodes (gossipRound calm ''A'' bare_world) ''B'' = Some b \<and>
     map_of (nd_table b) ''A'' = Some (bare_entry ''A'')"
proof -
  have "selectGossipTarget ''A'' (nd_table (bare_node ''A'' [''A'', ''B''])) (choice_at calm (tick bare_world)) =
      Some ''B''"
    by (simp add: selectGossipTarget_def gossip_candidates_def bare_node_def bare_entry_def)
  moreover have "stamps_identify [nd_table (bare_node ''A'' [''A'', ''B'']), nd_table (bare_node ''B'' [''B''])]"
    by (auto simp: stamps_identify_def bare_node_def split: if_splits)
  ultimately have "\<exists>nd' pd'. nodes (gossipRound calm ''A'' bare_world) =
      (nodes bare_world)(''A'' \<mapsto> nd', ''B'' \<mapsto> pd') \<and>
      map_of (nd_table pd') ''A'' = lww_join incoming_wins
        (map_of (nd_table (bare_node ''A'' [''A'', ''B''])) ''A'') (map_of (nd_table (bare_node ''B'' [''B''])) ''A'')"
    using gossipRound_synchronises [OF wf_bare_world bare_disjoint bare_nodes, of calm] by fastforce
  then show ?thesis by (auto simp: bare_node_def)
qed

lemma SendGossip_cases:
  assumes "SendGossip E self peer tbl w = (resp, w')" and "nodes w self = Some nd" and "self \<noteq> peer"
    and "wf_world T w" and "tokens_disjoint T" and "table_ok T tbl"
  obtains (failed) nd' where "resp = None" "nodes w' self = Some nd'" "nd_table nd' = nd_table nd"
      "nd_ring nd' = nd_ring nd" "set (nd_unreachable nd') = insert peer (set (nd_unreachable nd))"
      "dom (nodes w') = dom (nodes w)"
  | (answered) r pd where "resp = Some r" "nodes w' self = Some nd" "nodes w' peer = Some pd"
      "gr_table r = nd_table pd" "distinct_keys (nd_table pd)"
proof (cases resp)
  case None
  then obtain w1 where w1: "rpc E peer (\<lambda>now nd. Some (GossipExchange \<lparr>gq_sender = self, gq_table = tbl\<rparr> nd)) w
      = (None, w1)" "w' = update_node self (markUnreachable peer) w1"
    using assms(1) by (auto simp: SendGossip_def split: option.splits prod.splits)
  have "nodes w1 self = Some nd" "dom (nodes w1) = dom (nodes w)"
    using w1(1) assms(2,3) by (auto simp: rpc_def Let_def split: option.splits if_splits)
  then show ?thesis
    using None w1(2) by (intro failed [of "markUnreachable peer nd"])
      (auto simp: nodes_update markUnreachable_def update_node_def split: option.split)
next
  case (Some r)
  then have "rpc E peer (\<lambda>now nd. Some (GossipExchange \<lparr>gq_sender = self, gq_table = tbl\<rparr> nd)) w = (Some r, w')"
    using assms(1) by (auto simp: SendGossip_def split: option.splits prod.splits)
  from rpc_SomeD [OF this] obtain p pd where
    p: "nodes w peer = Some p" "GossipExchange \<lparr>gq_sender = self, gq_table = tbl\<rparr> p = (r, pd)"
    "w' = set_node peer pd (advance w)" by auto
  have gossip: "gr_table r = nd_table pd" "pd = snd (applyGossip tbl p)"
    using p(2) by (auto simp: GossipExchange_def applyGossip_def split: prod.splits)
  have "wf_node T p" using wf_worldD [OF assms(4) p(1)] by simp
  then have "wf_node T pd" unfolding gossip(2) using assms(5,6) by (rule wf_applyGossip(1))
  then have "distinct_keys (nd_table pd)" by (simp add: wf_node_def wf_member_def table_ok_def)
  then show ?thesis
    using Some p(3) assms(2,3) gossip(1) by (intro answered) simp_all
qed

text \<open>A pass over the seeds, and then all passes.\<close>

definition joined :: "node \<Rightarrow> node \<Rightarrow> node \<Rightarrow> bool" where
  "joined nd nd' pd \<longleftrightarrow> map_of (nd_table nd') =
     (\<lambda>n. lww_join incoming_wins (map_of (nd_table nd) n) (map_of (nd_table pd) n))"

definition seeds_tried :: "node_id list \<Rightarrow> node \<Rightarrow> node \<Rightarrow> bool" where
  "seeds_tried seeds nd nd' \<longleftrightarrow> nd_table nd' = nd_table nd \<and> nd_ring nd' = nd_ring nd \<and>
     set (nd_unreachable nd) \<union> set seeds \<subseteq> set (nd_unreachable nd')"

lemma joined_cong: "nd_table m = nd_table nd \<Longrightarrow> joined m = joined nd"
  by (simp add: joined_def fun_eq_iff)

lemma seeds_tried_trans: "seeds_tried ss a b \<Longrightarrow> seeds_tried ts b c \<Longrightarrow> seeds_tried (ss @ ts) a c"
  by (auto simp: seeds_tried_def)

lemma seeds_tried_table: "seeds_tried ss a b \<Longrightarrow> nd_table b = nd_table a"
  by (simp add: seeds_tried_def)

lemma try_seeds_outcome:
  assumes "try_seeds E self seeds w = (ok, w')" and "nodes w self = Some nd" and "self \<notin> set seeds"
    and "wf_world T w" and "tokens_disjoint T"
  shows "\<exists>nd'. nodes w' self = Some nd' \<and>
    (ok \<longrightarrow> (\<exists>s \<in> set seeds. \<exists>pd. nodes w' s = Some pd \<and> joined nd nd' pd)) \<and>
    (\<not> ok \<longrightarrow> seeds_tried seeds nd nd' \<and> dom (nodes w') = dom (nodes w) \<and>
       \<not> ((\<forall>i. fate_at E i = Delivered) \<and> (\<exists>s \<in> set seeds. nodes w s \<noteq> None)))"
  using assms(1-4)
proof (induction seeds arbitrary: w nd)
  case Nil
  then show ?case by (simp add: seeds_tried_def)
next
  case (Cons s seeds)
  obtain resp w1 where s: "SendGossip E self s (nd_table nd) w = (resp, w1)"
    by (cases "SendGossip E self s (nd_table nd) w")
  have tbl: "table_ok T (nd_table nd)"
    using wf_worldD [OF Cons.prems(4,2)] by (simp add: wf_node_def wf_member_def)
  have ne: "self \<noteq> s" "self \<notin> set seeds" using Cons.prems(3) by auto
  from s Cons.prems(2) ne(1) Cons.prems(4) assms(5) tbl show ?case
  proof (cases rule: SendGossip_cases)
    case (failed nd1)
    have wf1: "wf_world T w1" using SendGossip_wf(1) [OF s Cons.prems(4) assms(5) tbl] .
    have lost: "\<not> ((\<forall>i. fate_at E i = Delivered) \<and> nodes w s \<noteq> None)"
      using SendGossip_delivered [of w s _ E self "nd_table nd"] s failed(1) by auto
    have "try_seeds E self seeds w1 = (ok, w')" using Cons.prems(1,2) s failed(1) by simp
    from Cons.IH [OF this failed(2) ne(2) wf1] obtain nd' where nd': "nodes w' self = Some nd'"
      "ok \<longrightarrow> (\<exists>s \<in> set seeds. \<exists>pd. nodes w' s = Some pd \<and> joined nd1 nd' pd)"
      "\<not> ok \<longrightarrow> seeds_tried seeds nd1 nd' \<and> dom (nodes w') = dom (nodes w1) \<and>
         \<not> ((\<forall>i. fate_at E i = Delivered) \<and> (\<exists>s \<in> set seeds. nodes w1 s \<noteq> None))" by blast
    have same: "nodes w1 a = None \<longleftrightarrow> nodes w a = None" for a using failed(6) by (metis domIff)
    have "seeds_tried [s] nd nd1" using failed(3-5) by (auto simp: seeds_tried_def)
    then have "seeds_tried seeds nd1 nd' \<Longrightarrow> seeds_tried (s # seeds) nd nd'"
      using seeds_tried_trans [of "[s]" nd nd1 seeds nd'] by simp
    then show ?thesis
      using nd' failed(6) lost unfolding joined_cong [OF failed(3)] same
      by (intro exI [of _ nd']) (simp, blast)
  next
    case (answered r pd)
    let ?nd = "snd (applyGossip (gr_table r) nd)"
    have "joined nd ?nd pd"
      using answered(4,5) by (simp add: joined_def fun_eq_iff applyGossip_slot)
    then show ?thesis
      using Cons.prems(1,2) s answered ne(1)
      by (auto simp: apply_response_def nodes_update)
  qed
qed

text \<open>
C32. What joining through the seeds means: \<open>bootstrapFromSeed\<close> always returns.  If it reports success,
some seed answered, and the new node's table is the join of its own and that seed's table, which
already contains the new node's entries; if it reports failure, the node's table and ring are as
before and every seed is marked unreachable.  With delivered calls it fails only if no seed runs.
\<close>
theorem bootstrapFromSeed_correct:
  assumes "bootstrapFromSeed E self seeds w = (ok, w')" and "nodes w self = Some nd" and "self \<notin> set seeds"
    and "wf_world T w" and "tokens_disjoint T"
  shows "\<exists>nd'. nodes w' self = Some nd' \<and>
    (ok \<longrightarrow> (\<exists>s \<in> set seeds. \<exists>pd. nodes w' s = Some pd \<and> map_of (nd_table nd') =
       (\<lambda>n. lww_join incoming_wins (map_of (nd_table nd) n) (map_of (nd_table pd) n)))) \<and>
    (\<not> ok \<longrightarrow> nd_table nd' = nd_table nd \<and> nd_ring nd' = nd_ring nd \<and>
       set seeds \<subseteq> set (nd_unreachable nd') \<and>
       \<not> ((\<forall>i. fate_at E i = Delivered) \<and> (\<exists>s \<in> set seeds. nodes w s \<noteq> None)))"
proof -
  have passes: "\<exists>nd'. nodes w' self = Some nd' \<and>
    (ok \<longrightarrow> (\<exists>s \<in> set seeds. \<exists>pd. nodes w' s = Some pd \<and> joined nd nd' pd)) \<and>
    (\<not> ok \<longrightarrow> seeds_tried seeds nd nd' \<and>
       \<not> ((\<forall>i. fate_at E i = Delivered) \<and> (\<exists>s \<in> set seeds. nodes w s \<noteq> None)))"
    if "bootstrap_passes (Suc n) E self seeds w = (ok, w')" "nodes w self = Some nd" "wf_world T w" for n w nd
    using that
  proof (induction n arbitrary: w nd)
    case 0
    obtain b w1 where t: "try_seeds E self seeds w = (b, w1)" by (cases "try_seeds E self seeds w")
    with 0 have "ok = b" "w' = w1" by (auto split: bool.splits)
    with try_seeds_outcome [OF t 0(2) assms(3) 0(3) assms(5)] show ?case by blast
  next
    case (Suc n)
    obtain b w1 where t: "try_seeds E self seeds w = (b, w1)" by (cases "try_seeds E self seeds w")
    have wf1: "wf_world T w1" by (rule wf_try_seeds [OF t Suc.prems(3) assms(5)])
    note out = try_seeds_outcome [OF t Suc.prems(2) assms(3) Suc.prems(3) assms(5)]
    show ?case
    proof (cases b)
      case True
      with Suc.prems(1) t have "ok" "w' = w1" by auto
      with out True show ?thesis by blast
    next
      case False
      then obtain nd1 where nd1: "nodes w1 self = Some nd1" "seeds_tried seeds nd nd1"
        "\<not> ((\<forall>i. fate_at E i = Delivered) \<and> (\<exists>s \<in> set seeds. nodes w s \<noteq> None))"
        using out by blast
      have "bootstrap_passes (Suc n) E self seeds w1 = (ok, w')"
        using Suc.prems(1) t False by simp
      from Suc.IH [OF this nd1(1) wf1] obtain nd' where nd': "nodes w' self = Some nd'"
        "ok \<longrightarrow> (\<exists>s \<in> set seeds. \<exists>pd. nodes w' s = Some pd \<and> joined nd nd' pd)"
        "\<not> ok \<longrightarrow> seeds_tried seeds nd1 nd'"
        unfolding joined_cong [OF seeds_tried_table [OF nd1(2)]] by blast
      have "\<not> ok \<longrightarrow> seeds_tried seeds nd nd'"
        using seeds_tried_trans [OF nd1(2)] nd'(3) by (auto simp: seeds_tried_def)
      with nd' nd1(3) show ?thesis by blast
    qed
  qed
  have "bootstrap_passes (Suc 2) E self seeds w = (ok, w')"
    using assms(1) by (simp add: bootstrapFromSeed_def numeral_3_eq_3 numeral_2_eq_2)
  from passes [OF this assms(2,4)] show ?thesis by (auto simp: joined_def seeds_tried_def)
qed

theorem bootstrapFromSeed_correct_witness:
  "\<exists>w' nd'. bootstrapFromSeed calm ''B'' [''X'', ''A''] bare_world = (True, w') \<and> nodes w' ''B'' = Some nd' \<and>
     (\<exists>s pd. s \<in> {''X'', ''A''} \<and> nodes w' s = Some pd \<and> map_of (nd_table nd') =
       (\<lambda>n. lww_join incoming_wins (map_of (nd_table (bare_node ''B'' [''B''])) n) (map_of (nd_table pd) n)))"
proof -
  obtain ok w' where b: "bootstrapFromSeed calm ''B'' [''X'', ''A''] bare_world = (ok, w')"
    by (cases "bootstrapFromSeed calm ''B'' [''X'', ''A''] bare_world")
  have run: "(\<forall>i. fate_at calm i = Delivered) \<and> (\<exists>s \<in> set [''X'', ''A'']. nodes bare_world s \<noteq> None)"
    by (simp add: bare_nodes)
  have "''B'' \<notin> set [''X'', ''A'']" by simp
  from bootstrapFromSeed_correct [OF b bare_nodes(2) this wf_bare_world bare_disjoint] run
  have "ok \<and> (\<exists>nd'. nodes w' ''B'' = Some nd' \<and> (\<exists>s \<in> set [''X'', ''A'']. \<exists>pd. nodes w' s = Some pd \<and>
      map_of (nd_table nd') = (\<lambda>n. lww_join incoming_wins (map_of (nd_table (bare_node ''B'' [''B''])) n)
        (map_of (nd_table pd) n))))" by blast
  with b show ?thesis by auto
qed

end
