(* ===== verification/Cluster_Steps.thy ===== *)
theory Cluster_Steps
  imports Consistency Handoff Gossip
begin

text \<open>
  The cluster as a transition system: processes start and crash, clients write, read and remove nodes,
  the background loops take their rounds, and detached repair jobs run, in any order.  Every reachable
  world is well-formed, so the properties that assume it hold wherever the program can get to.
\<close>

subsection \<open>Every operation keeps the world well-formed\<close>

lemma wf_read_step:
  assumes "read_step E self k p res w = (res', w')" and "wf_world T w"
  shows "wf_world T w'"
proof -
  obtain resp w1 where r: "rpc E p (\<lambda>now nd. ReplicateRead k nd) w = (resp, w1)"
    by (cases "rpc E p (\<lambda>now nd. ReplicateRead k nd) w")
  have "wf_world T w1"
    using r assms(2) by (rule wf_rpc) (use ReplicateRead_state in blast)
  then show ?thesis
    using assms(1) r by (auto simp: read_step_def wf_intros split: option.splits)
qed

lemma wf_run_reads:
  "run_once E (read_step E self k) pool res w = (res', w') \<Longrightarrow> wf_world T w \<Longrightarrow> wf_world T w'"
  by (rule run_once_keeps [where Q = "wf_world T"]) (auto intro: wf_read_step)

lemma wf_store_world:
  assumes "wf_world T w" and "wf_clock (vv_clock v)"
  shows "wf_world T (update_node a (\<lambda>nd. snd (storeReplicatedWrite k v nd)) w)"
    and "same_members w (update_node a (\<lambda>nd. snd (storeReplicatedWrite k v nd)) w)"
proof -
  show "wf_world T (update_node a (\<lambda>nd. snd (storeReplicatedWrite k v nd)) w)"
    using assms(1)
  proof (rule wf_update_node)
    fix nd assume "wf_node T nd" "nd_id nd = a"
    then show "wf_node T (snd (storeReplicatedWrite k v nd)) \<and> nd_id (snd (storeReplicatedWrite k v nd)) = a"
      using wf_storeReplicatedWrite assms(2) same_member_store [of nd k v] by (simp add: same_member_def)
  qed
  show "same_members w (update_node a (\<lambda>nd. snd (storeReplicatedWrite k v nd)) w)"
    by (rule same_members_update) (rule same_member_store)
qed

lemma wf_start_repair:
  assumes "wf_world T w" and "wf_clock (vv_clock win)"
  shows "wf_world T (start_repair self k win results w)"
proof -
  have queue: "wf_world T (x\<lparr>jobs := jobs x @ [\<lparr>job_node = self, job_key = k, job_winner = win, job_peers = ps\<rparr>]\<rparr>)"
    if "wf_world T x" for x ps
    using that assms(2) by (auto simp: wf_world_def wf_job_def)
  show ?thesis
    using assms wf_store_world(1) [OF assms, of self k] queue by (simp add: start_repair_def Let_def)
qed

lemma Get_reads:
  assumes "nodes w self = Some nd" and "Get E self k w = (r, w')" and "wf_world T w"
  shows "w' = w \<or> (\<exists>results w1. run_once E (read_step E self k)
      (filter (\<lambda>p. p \<noteq> self) (map ple_node_id (preferenceListForKey nd k (nd_N nd))))
      (if self \<in> set (map ple_node_id (preferenceListForKey nd k (nd_N nd))) then [local_result nd k] else []) w
        = (results, w1) \<and>
      (w' = w1 \<or> (\<exists>res. resolveGetResult (found_versions results) = Some res \<and>
         w' = start_repair self k (winner res) results w1)))"
  using assms(1,2)
  by (simp add: Get_def Let_def split: option.splits bool.splits if_splits prod.splits)

lemma wf_Get:
  assumes "Get E self k w = (r, w')" and "wf_world T w"
  shows "wf_world T w'"
proof (cases "nodes w self")
  case None
  with assms show ?thesis by (simp add: Get_def)
next
  case (Some nd)
  let ?ids = "map ple_node_id (preferenceListForKey nd k (nd_N nd))"
  show ?thesis
  proof (cases "w' = w")
    case True
    with assms(2) show ?thesis by simp
  next
    case False
    then obtain results w1 where run: "run_once E (read_step E self k) (filter (\<lambda>p. p \<noteq> self) ?ids)
        (if self \<in> set ?ids then [local_result nd k] else []) w = (results, w1)"
      and w': "w' = w1 \<or> (\<exists>res. resolveGetResult (found_versions results) = Some res \<and>
         w' = start_repair self k (winner res) results w1)"
      using Get_reads [OF Some assms] by blast
    have wf1: "wf_world T w1" using run assms(2) by (rule wf_run_reads)
    have "distinct ?ids"
      unfolding preferenceListForKey_def Let_def by (rule preference_ids_distinct)
    from run_reads_collected [OF run this Some] have col: "collected w self k ?ids results w1"
      using wf_worldD [OF assms(2) Some] by simp
    show ?thesis
      using w' wf1 wf_start_repair [OF wf1 winner_facts(2) [OF assms(2) col]] by auto
  qed
qed

lemma wf_repair_step:
  assumes "repair_step E self k win p u w = (u', w')" and "wf_world T w" and "wf_clock (vv_clock win)"
  shows "wf_world T w'"
proof -
  obtain resp w1 where r: "rpc E p (ReplicateWrite (repair_request k win)) w = (resp, w1)"
    by (cases "rpc E p (ReplicateWrite (repair_request k win)) w")
  have "wf_world T w1"
    using r assms(2)
  proof (rule wf_rpc)
    fix now nd r nd' assume nd: "wf_node T nd" "ReplicateWrite (repair_request k win) now nd = Some (r, nd')"
    then show "wf_node T nd' \<and> nd_id nd' = nd_id nd"
      using wf_ReplicateWrite [OF nd(1) _ nd(2)] same_member_ReplicateWrite [OF nd(2)] assms(3)
      by (simp add: repair_request_def same_member_def)
  qed
  then show ?thesis
    using assms(1) r by (auto simp: repair_step_def wf_intros split: option.splits)
qed

lemma wf_run_job:
  assumes "wf_world T w"
  shows "wf_world T (run_job E i w)"
proof (cases "i < length (jobs w)")
  case True
  let ?j = "jobs w ! i" and ?w = "w\<lparr>jobs := drop_nth i (jobs w)\<rparr>"
  have wf: "wf_world T ?w" using assms set_drop_nth_subset [of i "jobs w"] by (auto simp: wf_world_def)
  have "wf_clock (vv_clock (job_winner ?j))" using assms True by (simp add: wf_world_def wf_job_def)
  moreover obtain w' where run: "run_once E (repair_step E (job_node ?j) (job_key ?j) (job_winner ?j))
      (job_peers ?j) () ?w = ((), w')"
    by (cases "run_once E (repair_step E (job_node ?j) (job_key ?j) (job_winner ?j)) (job_peers ?j) () ?w") simp
  ultimately have "wf_world T w'"
    by (intro run_once_keeps [where Q = "wf_world T", OF run wf]) (auto intro: wf_repair_step)
  with True run show ?thesis by (simp add: run_job_def repairReplicas_def Let_def)
qed (use assms in \<open>simp add: run_job_def\<close>)

subsection \<open>No handler throws in a well-formed world\<close>

lemma Put_answers:
  assumes "wf_world T w" and "nodes w self = Some nd"
  shows "\<exists>resp w'. Put E self req w = (Some resp, w')"
  using Put_total [OF assms(2)] isSelfRemoved_total wf_worldD [OF assms] by (metis wf_node_def)

lemma Get_answers:
  assumes "wf_world T w" and "nodes w self = Some nd"
  shows "\<exists>resp w'. Get E self k w = (Some resp, w')"
proof -
  let ?ids = "map ple_node_id (preferenceListForKey nd k (nd_N nd))"
  obtain b where b: "isSelfRemoved nd = Some b"
    using isSelfRemoved_total wf_worldD [OF assms] by (metis wf_node_def)
  obtain results w1 where run: "run_once E (read_step E self k) (filter (\<lambda>p. p \<noteq> self) ?ids)
      (if self \<in> set ?ids then [local_result nd k] else []) w = (results, w1)" by fastforce
  have "distinct ?ids"
    unfolding preferenceListForKey_def Let_def by (rule preference_ids_distinct)
  from run_reads_collected [OF run this assms(2)] have "collected w self k ?ids results w1"
    using wf_worldD [OF assms] by simp
  then have "wf_versions (found_versions results)" using assms(1) by (rule collected_versions)
  then have "found_versions results \<noteq> [] \<longrightarrow> resolveGetResult (found_versions results) \<noteq> None"
    using resolveGetResult_total by fastforce
  with run b assms(2) show ?thesis
    by (cases b) (auto simp: Get_def Let_def split: option.split)
qed

end
