(* ===== verification/Drift_Client.thy ===== *)
theory Drift_Client
  imports Cluster_Steps
begin

text \<open>
  The client library of \<^verbatim>\<open>src/src/driftclient.hpp\<close>.  A client holds a list of seed nodes, the
  number of calls it has made, from which the first seed of the next call follows, and per key the last
  clock it has seen.  A call whose transport fails goes on to the next seed; any response ends it.

  A call of the client has the same fates as a call between servers.  A deadline that expires while the
  server still works is the fate \<open>ReplyLost\<close>.
\<close>

record PutResult =
  pu_success :: bool
  pu_acks :: nat
  pu_context :: vector_clock

record GetResult =
  gt_found :: bool
  gt_value :: string
  gt_responses :: nat
  gt_context :: vector_clock

record DriftClient =
  dc_seeds :: "node_id list"
  dc_calls :: u64
  dc_context :: "key \<rightharpoonup> vector_clock"

subsection \<open>Calls\<close>

text \<open>One call to a handler that is a whole operation of the cluster.\<close>

definition dial :: "env \<Rightarrow> (node_id \<Rightarrow> world \<Rightarrow> 'r option \<times> world) \<Rightarrow> node_id \<Rightarrow> world \<Rightarrow> 'r option \<times> world" where
  "dial E handler addr w =
     (if fate_at E (tick w) = RequestLost then (None, advance w)
      else (case handler addr (advance w) of
              (None, w1) \<Rightarrow> (None, w1)
            | (Some resp, w1) \<Rightarrow> (if fate_at E (tick w) = ReplyLost then None else Some resp, w1)))"

definition pingAddr :: "env \<Rightarrow> node_id \<Rightarrow> world \<Rightarrow> bool \<times> world" where
  "pingAddr E addr w = (case rpc E addr (\<lambda>now nd. Some (Ping nd, nd)) w of (r, w') \<Rightarrow> (r \<noteq> None, w'))"

fun first_alive :: "env \<Rightarrow> node_id list \<Rightarrow> world \<Rightarrow> bool \<times> world" where
  "first_alive E [] w = (False, w)"
| "first_alive E (addr # addrs) w =
     (case pingAddr E addr w of (True, w1) \<Rightarrow> (True, w1) | (False, w1) \<Rightarrow> first_alive E addrs w1)"

definition connect :: "env \<Rightarrow> node_id list \<Rightarrow> world \<Rightarrow> DriftClient option \<times> world" where
  "connect E seed_nodes w =
     (if seed_nodes = [] then (None, w)
      else (case first_alive E seed_nodes w of
              (True, w1) \<Rightarrow> (Some \<lparr>dc_seeds = seed_nodes, dc_calls = 0, dc_context = Map.empty\<rparr>, w1)
            | (False, w1) \<Rightarrow> (None, w1)))"

subsection \<open>Rotation and failover\<close>

text \<open>\<open>nextStart\<close> returns the index of the first seed and counts the call, modulo \<open>2^64\<close>.\<close>

definition nextStart :: "DriftClient \<Rightarrow> nat \<times> DriftClient" where
  "nextStart c = (unat (dc_calls c) mod length (dc_seeds c), c\<lparr>dc_calls := dc_calls c + 1\<rparr>)"

definition attempt_order :: "nat \<Rightarrow> node_id list \<Rightarrow> node_id list" where
  "attempt_order start seeds = map (\<lambda>attempt. seeds ! ((start + attempt) mod length seeds)) [0..<length seeds]"

text \<open>The loop over the attempts, without what it does with the response.\<close>

fun attempt_seeds :: "(node_id \<Rightarrow> world \<Rightarrow> 'r option \<times> world) \<Rightarrow> node_id list \<Rightarrow> world \<Rightarrow> 'r option \<times> world" where
  "attempt_seeds call [] w = (None, w)"
| "attempt_seeds call (addr # addrs) w =
     (case call addr w of (Some resp, w1) \<Rightarrow> (Some resp, w1) | (None, w1) \<Rightarrow> attempt_seeds call addrs w1)"

subsection \<open>put and get\<close>

definition client_request :: "DriftClient \<Rightarrow> key \<Rightarrow> string \<Rightarrow> PutRequest" where
  "client_request c k v =
     \<lparr>pq_key = k, pq_value = v,
      pq_context = (case dc_context c k of Some cached \<Rightarrow> cached | None \<Rightarrow> empty_clock),
      pq_forwarded = False\<rparr>"

definition remember_put :: "key \<Rightarrow> PutResponse \<Rightarrow> DriftClient \<Rightarrow> DriftClient" where
  "remember_put k resp c =
     (if length (counters (pr_context resp)) > 0
      then c\<lparr>dc_context := (dc_context c)(k \<mapsto> pr_context resp)\<rparr> else c)"

definition client_put :: "env \<Rightarrow> key \<Rightarrow> string \<Rightarrow> DriftClient \<Rightarrow> world \<Rightarrow> PutResult \<times> DriftClient \<times> world" where
  "client_put E k v c w =
     (let req = client_request c k v;
          (start, c1) = nextStart c
      in case attempt_seeds (dial E (\<lambda>addr. Put E addr req)) (attempt_order start (dc_seeds c)) w of
           (None, w1) \<Rightarrow> (\<lparr>pu_success = False, pu_acks = 0, pu_context = empty_clock\<rparr>, c1, w1)
         | (Some resp, w1) \<Rightarrow>
             (\<lparr>pu_success = pr_success resp, pu_acks = pr_acks resp, pu_context = pr_context resp\<rparr>,
              remember_put k resp c1, w1))"

definition remember_get :: "key \<Rightarrow> GetResponse \<Rightarrow> DriftClient \<Rightarrow> DriftClient" where
  "remember_get k resp c =
     (if ge_found resp then c\<lparr>dc_context := (dc_context c)(k \<mapsto> ge_context resp)\<rparr> else c)"

definition client_get :: "env \<Rightarrow> key \<Rightarrow> DriftClient \<Rightarrow> world \<Rightarrow> GetResult \<times> DriftClient \<times> world" where
  "client_get E k c w =
     (let (start, c1) = nextStart c
      in case attempt_seeds (dial E (\<lambda>addr. Get E addr k)) (attempt_order start (dc_seeds c)) w of
           (None, w1) \<Rightarrow>
             (\<lparr>gt_found = False, gt_value = [], gt_responses = 0, gt_context = empty_clock\<rparr>, c1, w1)
         | (Some resp, w1) \<Rightarrow>
             (\<lparr>gt_found = ge_found resp, gt_value = ge_value resp, gt_responses = ge_responses resp,
               gt_context = ge_context resp\<rparr>, remember_get k resp c1, w1))"

subsection \<open>What a failover keeps\<close>

text \<open>
  The interface between the client and the operations it calls: whatever every call keeps of the world
  and guarantees of its answer, the loop over the seeds keeps and guarantees.
\<close>

locale failover =
  fixes call :: "node_id \<Rightarrow> world \<Rightarrow> 'r option \<times> world"
    and inv :: "world \<Rightarrow> bool" and good :: "'r \<Rightarrow> bool"
  assumes call_keeps: "call a w = (r, w') \<Longrightarrow> inv w \<Longrightarrow> inv w'"
    and call_answer: "call a w = (Some x, w') \<Longrightarrow> inv w \<Longrightarrow> good x"
begin

lemma dial_keeps:
  assumes "dial E call a w = (r, w')" and "inv (advance w)" and "\<And>x. inv (advance x) = inv x"
  shows "inv w'" and "r = Some x \<Longrightarrow> good x"
proof -
  obtain s w1 where c: "call a (advance w) = (s, w1)" by (cases "call a (advance w)")
  have "inv w1" using c assms(2) by (rule call_keeps)
  then show "inv w'" using assms c by (auto simp: dial_def split: if_splits option.splits)
  show "good x" if "r = Some x"
  proof -
    have "s = Some x" using assms(1) c that by (auto simp: dial_def split: if_splits option.splits)
    with c have "call a (advance w) = (Some x, w1)" by simp
    then show ?thesis using assms(2) by (rule call_answer)
  qed
qed

lemma attempts_keep:
  assumes "attempt_seeds (dial E call) addrs w = (r, w')" and "inv w" and "\<And>x. inv (advance x) = inv x"
  shows "inv w' \<and> (\<forall>x. r = Some x \<longrightarrow> good x)"
  using assms(1,2)
proof (induction addrs arbitrary: w)
  case (Cons a addrs)
  obtain s w1 where d: "dial E call a w = (s, w1)" by (cases "dial E call a w")
  have inv: "inv (advance w)" using Cons.prems(2) assms(3) by simp
  note keep = dial_keeps [OF d inv assms(3)]
  show ?case
  proof (cases s)
    case None
    with Cons.prems(1) d have "attempt_seeds (dial E call) addrs w1 = (r, w')" by simp
    with keep(1) show ?thesis using Cons.IH by blast
  next
    case (Some x)
    with Cons.prems(1) d keep show ?thesis by auto
  qed
qed simp

end

text \<open>The two operations of a server that the client calls provide the interface.\<close>

lemma Get_clock:
  assumes "Get E a k w = (Some resp, w')" and "wf_world T w" and "ge_found resp"
  shows "wf_clock (ge_context resp)"
proof (cases "nodes w a")
  case None
  with assms(1) show ?thesis by (simp add: Get_def)
next
  case (Some nd)
  with Get_responders [OF assms(1,2) Some] assms(3) show ?thesis by blast
qed

interpretation puts: failover "\<lambda>addr. Put E addr req" "\<lambda>w. wf_world T w \<and> wf_clock (pq_context req)"
    "\<lambda>resp. resp = put_refused \<or> built_on (pq_context req) resp"
  for E req T
  by unfold_locales (use wf_Put(1) in blast, elim conjE, rule wf_Put(3) [OF _ _ _ refl])

interpretation gets: failover "\<lambda>addr. Get E addr k" "wf_world T" "\<lambda>resp. ge_found resp \<longrightarrow> wf_clock (ge_context resp)"
  for E k T
  by unfold_locales (use wf_Get Get_clock in blast)+

subsection \<open>The order of the attempts\<close>

lemma attempt_order_rotate: "seeds \<noteq> [] \<Longrightarrow> attempt_order start seeds = rotate start seeds"
  by (rule nth_equalityI) (simp_all add: attempt_order_def nth_rotate)

lemma mset_rotate1: "mset (rotate1 xs) = mset xs"
  by (cases xs) simp_all

lemma attempt_order_perm: "mset (attempt_order start seeds) = mset seeds"
proof (cases "seeds = []")
  case False
  have "mset (rotate start seeds) = mset seeds"
    by (induction start) (simp_all add: mset_rotate1)
  with False show ?thesis by (simp add: attempt_order_rotate)
qed (simp add: attempt_order_def)

text \<open>A server that does not run costs one failed call.\<close>

lemma attempt_first_running:
  assumes "\<forall>t. fate_at E t = Delivered" and "i < length addrs"
    and "\<forall>j < i. \<forall>x. call (addrs ! j) ((advance ^^ Suc j) w) = (None, (advance ^^ Suc j) w)"
    and "call (addrs ! i) ((advance ^^ Suc i) w) = (Some resp, w')"
  shows "attempt_seeds (dial E call) addrs w = (Some resp, w')"
  using assms(2-)
proof (induction addrs arbitrary: i w)
  case (Cons a addrs)
  show ?case
  proof (cases i)
    case 0
    with Cons.prems assms(1) show ?thesis by (simp add: dial_def)
  next
    case (Suc j)
    have "call a (advance w) = (None, advance w)" using Cons.prems(2) Suc by force
    then have "dial E call a w = (None, advance w)" using assms(1) by (simp add: dial_def)
    moreover have "attempt_seeds (dial E call) addrs (advance w) = (Some resp, w')"
    proof (rule Cons.IH [of j])
      show "j < length addrs" using Cons.prems(1) Suc by simp
      show "\<forall>l < j. \<forall>x. call (addrs ! l) ((advance ^^ Suc l) (advance w)) = (None, (advance ^^ Suc l) (advance w))"
        using Cons.prems(2) Suc
        by (metis Suc_less_eq funpow_Suc_right comp_apply nth_Cons_Suc)
      show "call (addrs ! j) ((advance ^^ Suc j) (advance w)) = (Some resp, w')"
        using Cons.prems(3) Suc by (metis funpow_Suc_right comp_apply nth_Cons_Suc)
    qed
    ultimately show ?thesis by simp
  qed
qed simp

lemma nodes_advances [simp]: "nodes ((advance ^^ n) w) = nodes w"
  by (induction n) simp_all

lemma wf_advances: "wf_world T w \<Longrightarrow> wf_world T ((advance ^^ n) w)"
  by (induction n) (simp_all add: wf_advance)

subsection \<open>Properties\<close>

definition wf_client :: "DriftClient \<Rightarrow> bool" where
  "wf_client c \<longleftrightarrow> dc_seeds c \<noteq> [] \<and> (\<forall>k ctx. dc_context c k = Some ctx \<longrightarrow> wf_clock ctx)"

lemma remember_put_simps:
  "dc_seeds (remember_put k x c) = dc_seeds c" "dc_calls (remember_put k x c) = dc_calls c"
  "dc_context (remember_put k x c) =
     (if counters (pr_context x) = [] then dc_context c else (dc_context c)(k \<mapsto> pr_context x))"
  by (simp_all add: remember_put_def)

lemma wf_client_request: "wf_client c \<Longrightarrow> wf_clock (pq_context (client_request c k v))"
  by (auto simp: client_request_def wf_client_def wf_intros split: option.split)

lemma built_on_newer:
  assumes "built_on ctx resp" and "wf_clock ctx"
  shows "wf_clock (pr_context resp)"
    and "counter_of (pr_context resp) (vc_writer_id (pr_context resp)) = 0 \<or>
      compareVectorClocks (pr_context resp) ctx = DOMINATES"
proof -
  obtain b a now where b: "wf_clock_opt b" "pr_context resp = buildNewClock (Some ctx) b a now"
    using assms(1) by (auto simp: built_on_def)
  have opt: "wf_clock_opt (Some ctx)" using assms(2) by simp
  show wf: "wf_clock (pr_context resp)" unfolding b(2) using opt b(1) by (rule wf_buildNewClock)
  show "counter_of (pr_context resp) (vc_writer_id (pr_context resp)) = 0 \<or>
      compareVectorClocks (pr_context resp) ctx = DOMINATES"
  proof (cases "base_counter (Some ctx) b a = - 1")
    case True
    then show ?thesis using opt b(1) assms(2) by (simp add: b(2) counter_buildNewClock)
  next
    case False
    have "counter_of ctx < counter_of (pr_context resp)"
      using buildNewClock_above(1) [OF opt b(1) False] by (simp add: b(2))
    then show ?thesis using wf assms(2) by (simp add: vc.cmp_DOMINATES)
  qed
qed

lemma client_put_facts:
  assumes "wf_client c" and "wf_world T w" and "client_put E k v c w = (res, c', w')"
  shows "wf_client c' \<and> wf_world T w' \<and> dc_seeds c' = dc_seeds c \<and> dc_calls c' = dc_calls c + 1 \<and>
    (\<forall>l. l \<noteq> k \<longrightarrow> dc_context c' l = dc_context c l) \<and>
    (dc_context c' k = dc_context c k \<or>
     dc_context c' k = Some (pu_context res) \<and> (\<forall>ctx. dc_context c k = Some ctx \<longrightarrow>
       counter_of (pu_context res) (vc_writer_id (pu_context res)) = 0 \<or>
       compareVectorClocks (pu_context res) ctx = DOMINATES))"
proof -
  let ?req = "client_request c k v"
  let ?order = "attempt_order (fst (nextStart c)) (dc_seeds c)"
  obtain r w1 where run: "attempt_seeds (dial E (\<lambda>addr. Put E addr ?req)) ?order w = (r, w1)"
    by fastforce
  have ctx: "wf_clock (pq_context ?req)" using assms(1) by (rule wf_client_request)
  have adv: "(wf_world T (advance x) \<and> wf_clock (pq_context ?req)) = (wf_world T x \<and> wf_clock (pq_context ?req))"
    for x by (simp add: wf_world_def)
  from puts.attempts_keep [OF run conjI [OF assms(2) ctx] adv] have wf: "wf_world T w1" and r: "r = Some x \<Longrightarrow> x = put_refused \<or> built_on (pq_context ?req) x" for x
    by auto
  have c: "wf_client (c\<lparr>dc_calls := n\<rparr>)" for n using assms(1) by (simp add: wf_client_def)
  show ?thesis
  proof (cases r)
    case None
    with assms(3) run wf c show ?thesis by (auto simp: client_put_def nextStart_def)
  next
    case (Some x)
    have "x \<noteq> put_refused \<Longrightarrow> wf_clock (pr_context x)"
      "x \<noteq> put_refused \<Longrightarrow> dc_context c k = Some ctx \<Longrightarrow>
        counter_of (pr_context x) (vc_writer_id (pr_context x)) = 0 \<or>
        compareVectorClocks (pr_context x) ctx = DOMINATES" for ctx
      using r [OF Some] built_on_newer [of "pq_context ?req" x] ctx by (auto simp: client_request_def)
    moreover have "x = put_refused \<Longrightarrow> remember_put k x d = d" for d
      by (simp add: remember_put_def put_refused_def empty_clock_def)
    ultimately show ?thesis
      using assms(1,3) run wf c Some
      by (cases "x = put_refused")
        (auto simp: client_put_def nextStart_def remember_put_simps wf_client_def split: if_splits)
  qed
qed

lemma wf_client_put:
  "client_put E k v c w = (r, c', w') \<Longrightarrow> wf_client c \<Longrightarrow> wf_world T w \<Longrightarrow> wf_client c' \<and> wf_world T w'"
  using client_put_facts by blast

lemma wf_client_get:
  assumes "client_get E k c w = (r, c', w')" and "wf_client c" and "wf_world T w"
  shows "wf_client c' \<and> wf_world T w'"
proof -
  let ?order = "attempt_order (fst (nextStart c)) (dc_seeds c)"
  obtain s w1 where run: "attempt_seeds (dial E (\<lambda>addr. Get E addr k)) ?order w = (s, w1)"
    by fastforce
  have adv: "wf_world T (advance x) = wf_world T x" for x by (simp add: wf_world_def)
  note keep = gets.attempts_keep [OF run assms(3) adv]
  with assms(1,2) run show ?thesis
    by (auto simp: client_get_def nextStart_def remember_get_def wf_client_def split: option.splits if_splits)
qed

lemma wf_connect:
  assumes "connect E seeds w = (c, w')" and "wf_world T w"
  shows "wf_world T w' \<and> (\<forall>d. c = Some d \<longrightarrow> wf_client d)"
proof -
  have "first_alive E addrs w = (ok, w1) \<Longrightarrow> wf_world T w \<Longrightarrow> wf_world T w1" for addrs ok w w1
  proof (induction addrs arbitrary: w)
    case (Cons a addrs)
    obtain r w2 where r: "rpc E a (\<lambda>now nd. Some (Ping nd, nd)) w = (r, w2)" by fastforce
    have "wf_world T w2" using r Cons.prems(2) by (rule wf_rpc) auto
    with Cons r show ?case by (auto simp: pingAddr_def split: bool.splits)
  qed simp
  with assms show ?thesis
    by (auto simp: connect_def wf_client_def split: if_splits prod.splits bool.splits)
qed

text \<open>
C21. What a client knows about a key only grows by its writes: a put that is answered by a coordinator
leaves the returned clock in the cache, causally newer than the cached one (unless the coordinator's
counter wrapped to 0); a refusal or a failure of all seeds leaves the cache as it is; other keys are
untouched, and every call moves the rotation on by one, whatever failed.
\<close>
theorem client_put_keeps_causality:
  assumes "wf_client c" and "wf_world T w" and "client_put E k v c w = (res, c', w')"
  shows "wf_client c' \<and> wf_world T w' \<and> dc_seeds c' = dc_seeds c \<and> dc_calls c' = dc_calls c + 1 \<and>
    (\<forall>l. l \<noteq> k \<longrightarrow> dc_context c' l = dc_context c l) \<and>
    (dc_context c' k = dc_context c k \<or>
     dc_context c' k = Some (pu_context res) \<and> (\<forall>ctx. dc_context c k = Some ctx \<longrightarrow>
       counter_of (pu_context res) (vc_writer_id (pu_context res)) = 0 \<or>
       compareVectorClocks (pu_context res) ctx = DOMINATES))"
  using assms by (rule client_put_facts)

definition demo_client :: DriftClient where
  "demo_client = \<lparr>dc_seeds = [''X'', ''A'', ''B''], dc_calls = 0,
     dc_context = [''k'' \<mapsto> clk [(''B'', 1)] 5 ''B'']\<rparr>"

lemma wf_demo_client: "wf_client demo_client"
  by (simp add: wf_client_def demo_client_def wf_clock_def)

theorem client_put_keeps_causality_witness:
  "\<exists>res c' w'. client_put calm ''k'' ''v'' demo_client demo_write_world = (res, c', w') \<and>
     (dc_context c' ''k'' = dc_context demo_client ''k'' \<or>
      dc_context c' ''k'' = Some (pu_context res) \<and>
      (counter_of (pu_context res) (vc_writer_id (pu_context res)) = 0 \<or>
       compareVectorClocks (pu_context res) (clk [(''B'', 1)] 5 ''B'') = DOMINATES))"
proof -
  obtain res c' w' where p: "client_put calm ''k'' ''v'' demo_client demo_write_world = (res, c', w')"
    by (cases "client_put calm ''k'' ''v'' demo_client demo_write_world")
  have "dc_context demo_client ''k'' = Some (clk [(''B'', 1)] 5 ''B'')" by (simp add: demo_client_def)
  with client_put_keeps_causality [OF wf_demo_client wf_demo_write_world p] p show ?thesis by blast
qed

text \<open>
C30. Failover: the seeds are tried in rotation from the one that the call number selects, each at most
once; if the calls are delivered, the first seed of that order that runs answers the put, although the
seeds before it do not.
\<close>
theorem client_fails_over:
  assumes "wf_world T w" and "\<forall>t. fate_at E t = Delivered"
    and "i < length (dc_seeds c)"
    and "\<forall>j < i. nodes w (dc_seeds c ! ((unat (dc_calls c) + j) mod length (dc_seeds c))) = None"
    and "nodes w (dc_seeds c ! ((unat (dc_calls c) + i) mod length (dc_seeds c))) \<noteq> None"
  shows "\<exists>resp w'. Put E (dc_seeds c ! ((unat (dc_calls c) + i) mod length (dc_seeds c)))
      (client_request c k v) ((advance ^^ Suc i) w) = (Some resp, w') \<and>
    client_put E k v c w =
      (\<lparr>pu_success = pr_success resp, pu_acks = pr_acks resp, pu_context = pr_context resp\<rparr>,
       remember_put k resp (snd (nextStart c)), w') \<and>
    mset (attempt_order (fst (nextStart c)) (dc_seeds c)) = mset (dc_seeds c)"
proof -
  let ?n = "length (dc_seeds c)" and ?start = "unat (dc_calls c) mod length (dc_seeds c)"
  let ?order = "attempt_order ?start (dc_seeds c)"
  let ?call = "\<lambda>addr. Put E addr (client_request c k v)"
  have at: "?order ! j = dc_seeds c ! ((unat (dc_calls c) + j) mod ?n)" if "j < ?n" for j
    using that by (simp add: attempt_order_def mod_add_left_eq)
  obtain resp w' where put: "?call (?order ! i) ((advance ^^ Suc i) w) = (Some resp, w')"
    using Put_answers [OF wf_advances [OF assms(1)]] assms(5) at [OF assms(3)]
    by (metis nodes_advances not_None_eq)
  have "attempt_seeds (dial E ?call) ?order w = (Some resp, w')"
  proof (rule attempt_first_running [of E i ?order ?call, OF assms(2) _ _ put])
    show "i < length ?order" using assms(3) by (simp add: attempt_order_def)
    have "nodes w (?order ! j) = None" if "j < i" for j using that at assms(3,4) by simp
    then show "\<forall>j < i. \<forall>x. ?call (?order ! j) ((advance ^^ Suc j) w) = (None, (advance ^^ Suc j) w)"
      by (simp add: Put.simps del: funpow.simps)
  qed
  with put at [OF assms(3)] show ?thesis
    by (simp add: client_put_def nextStart_def attempt_order_perm del: funpow.simps)
qed

theorem client_fails_over_witness:
  "\<exists>resp w'. Put calm ''A'' (client_request demo_client ''k'' ''v'') (advance (advance demo_write_world)) =
      (Some resp, w') \<and>
    client_put calm ''k'' ''v'' demo_client demo_write_world =
      (\<lparr>pu_success = pr_success resp, pu_acks = pr_acks resp, pu_context = pr_context resp\<rparr>,
       remember_put ''k'' resp (snd (nextStart demo_client)), w')"
proof -
  have "\<forall>j < 1. nodes demo_write_world (dc_seeds demo_client ! ((unat (dc_calls demo_client) + j) mod
      length (dc_seeds demo_client))) = None"
    by (simp add: demo_client_def demo_write_world_def)
  from client_fails_over [OF wf_demo_write_world _ _ this, of calm "''k''" "''v''"] show ?thesis
    by (simp add: demo_client_def demo_write_world_def numeral_2_eq_2) blast
qed

definition forget_env :: env where
  "forget_env = calm\<lparr>fate_at := \<lambda>t. if t = 2 \<or> t = 4 \<or> t = 6 then RequestLost else Delivered\<rparr>"

definition forget_client :: DriftClient where
  "forget_client = \<lparr>dc_seeds = [''A'', ''B''], dc_calls = 0, dc_context = [''k'' \<mapsto> clk [(''A'', 1)] 0 ''A'']\<rparr>"

definition forget_world :: "VersionedValue \<Rightarrow> world" where
  "forget_world v = demo_world (demo_node ''A'' [] [''k'' \<mapsto> v] Map.empty)
     (demo_node ''B'' [] [''k'' \<mapsto> v] Map.empty) (demo_node ''C'' [] [''k'' \<mapsto> v] Map.empty)"

lemma forget_env_simps [simp]:
  "fate_at forget_env t = (if t = 2 \<or> t = 4 \<or> t = 6 then RequestLost else Delivered)"
  "clock_at forget_env t = int t" "choice_at forget_env t = 0"
  by (simp_all add: forget_env_def calm_def)

lemma forget_clock: "buildNewClock (Some (clk [(''A'', 1)] 0 ''A'')) (Some (clk [(''A'', 1)] 0 ''A'')) ''A'' 1 =
    clk [(''A'', 2)] 1 ''A''"
  by (simp add: buildNewClock_def mergeClocks_def counter_of_def count_in_def empty_clock_def)

definition forgotten_world :: world where
  "forgotten_world = \<lparr>nodes =
     [''A'' \<mapsto> demo_node ''A'' [''C'', ''D'', ''B''] [''k'' \<mapsto> vv ''y'' (clk [(''A'', 2)] 1 ''A'')] Map.empty,
      ''B'' \<mapsto> demo_node ''B'' [] [''k'' \<mapsto> vv ''x'' (clk [(''A'', 1)] 0 ''A'')] Map.empty,
      ''C'' \<mapsto> demo_node ''C'' [] [''k'' \<mapsto> vv ''x'' (clk [(''A'', 1)] 0 ''A'')] Map.empty], jobs = [], tick = 5\<rparr>"

lemma forget_put: "Put forget_env ''A'' (client_request forget_client ''k'' ''y'')
    (advance (forget_world (vv ''x'' (clk [(''A'', 1)] 0 ''A'')))) =
  (Some \<lparr>pr_success = False, pr_acks = 1, pr_context = clk [(''A'', 2)] 1 ''A''\<rparr>, forgotten_world)"
proof -
  have "set_node ''A'' nd (advance (set_node ''A'' ne w)) = set_node ''A'' nd (advance w)" for nd ne w
    by (simp add: set_node_def advance_def)
  then show ?thesis
    by (simp add: forget_world_def client_request_def forget_client_def
        Put.simps demo_eval coordinatePut_def local_write_def Let_def commitCoordinatedWrite_def forget_clock
        run_writes.simps next_thread_def task_step_def rpc_def initial_task_def task_request_def
        task_retry_def update_node_def markUnreachable_def ReplicateWrite_def)
      (simp add: forgotten_world_def set_node_def advance_def demo_world_def fun_upd_twist)
qed

lemma forget_get: "fst (Get forget_env ''B'' ''k'' (advance forgotten_world)) =
  Some \<lparr>ge_found = True, ge_value = ''x'', ge_responses = 2, ge_context = clk [(''A'', 1)] 0 ''A''\<rparr>"
  by (simp add: forgotten_world_def read_eval compareVectorClocks_def update_node_def markUnreachable_def)

text \<open>
C38. A get can make a client forget its own write: the client's put reaches only its coordinator \<open>A\<close>
(too few acks, but its clock \<open>{A: 2}\<close> is cached); the following get goes to \<open>B\<close>, which cannot reach
\<open>A\<close> and answers from \<open>B\<close> and \<open>C\<close> with the old version, and the client replaces its cached clock
by the causally older \<open>{A: 1}\<close>.
\<close>
theorem get_can_forget_own_write:
  "\<exists>put client1 w1 get client2 w2 new old.
     client_put forget_env ''k'' ''y'' forget_client (forget_world (vv ''x'' (clk [(''A'', 1)] 0 ''A''))) =
       (put, client1, w1) \<and> dc_context client1 ''k'' = Some new \<and>
     client_get forget_env ''k'' client1 w1 = (get, client2, w2) \<and> gt_found get \<and>
     dc_context client2 ''k'' = Some old \<and> compareVectorClocks old new = DOMINATED"
proof -
  let ?client1 = "\<lparr>dc_seeds = [''A'', ''B''], dc_calls = 1, dc_context = [''k'' \<mapsto> clk [(''A'', 2)] 1 ''A'']\<rparr>"
  let ?client2 = "\<lparr>dc_seeds = [''A'', ''B''], dc_calls = 2, dc_context = [''k'' \<mapsto> clk [(''A'', 1)] 0 ''A'']\<rparr>"
  let ?resp = "\<lparr>ge_found = True, ge_value = ''x'', ge_responses = 2, ge_context = clk [(''A'', 1)] 0 ''A''\<rparr>"
  have tick: "tick (forget_world v) = 0" for v by (simp add: forget_world_def)
  have client: "dc_seeds forget_client = [''A'', ''B'']" "dc_calls forget_client = 0"
    by (simp_all add: forget_client_def)
  have put: "client_put forget_env ''k'' ''y'' forget_client (forget_world (vv ''x'' (clk [(''A'', 1)] 0 ''A''))) =
      (\<lparr>pu_success = False, pu_acks = 1, pu_context = clk [(''A'', 2)] 1 ''A''\<rparr>, ?client1, forgotten_world)"
    using forget_put
    by (simp add: client_put_def nextStart_def attempt_order_def dial_def tick remember_put_def client)
      (simp add: forget_client_def)
  obtain w2 where get: "Get forget_env ''B'' ''k'' (advance forgotten_world) = (Some ?resp, w2)"
    using forget_get by (metis prod.collapse)
  have "client_get forget_env ''k'' ?client1 forgotten_world =
      (\<lparr>gt_found = True, gt_value = ''x'', gt_responses = 2, gt_context = clk [(''A'', 1)] 0 ''A''\<rparr>, ?client2, w2)"
    using get by (simp add: client_get_def nextStart_def attempt_order_def dial_def remember_get_def
        forgotten_world_def)
  moreover have "compareVectorClocks (clk [(''A'', 1)] 0 ''A'') (clk [(''A'', 2)] 1 ''A'') = DOMINATED"
    by (simp add: compareVectorClocks_def)
  ultimately show ?thesis using put by (intro exI conjI) auto
qed

end
