(* ===== verification/Text_Format.thy ===== *)
theory Text_Format
  imports Replica Membership
begin

text \<open>
  The text forms of the command line: \<open>clockToString\<close>, \<open>parseClockArg\<close> and
  \<open>outcomeToString\<close> of \<^verbatim>\<open>src/src/client.cpp\<close>, \<open>renderClock\<close> of
  \<^verbatim>\<open>node_kv.cpp\<close>, \<open>splitSeeds\<close> of \<^verbatim>\<open>node_main.cpp\<close>, and the functions of
  the standard library they use on strings (\<open>isdigit\<close>, \<open>isspace\<close>, \<open>getline\<close>,
  \<open>stoi\<close>, \<open>stoll\<close>, \<open>stoull\<close>).

  A conversion that throws is a left value of a sum, named after the exception.
\<close>

datatype exception = invalid_argument | out_of_range

subsection \<open>Numbers\<close>

definition isdigit :: "char \<Rightarrow> bool" where
  "isdigit c \<longleftrightarrow> 48 \<le> (of_char c :: nat) \<and> (of_char c :: nat) \<le> 57"

definition isspace :: "char \<Rightarrow> bool" where
  "isspace c \<longleftrightarrow> (of_char c :: nat) = 32 \<or> 9 \<le> (of_char c :: nat) \<and> (of_char c :: nat) \<le> 13"

definition digits_value :: "string \<Rightarrow> nat" where
  "digits_value s = foldl (\<lambda>n c. 10 * n + (of_char c - 48)) 0 s"

text \<open>\<open>std::stoull\<close> on a string of digits (the only strings it is called on).\<close>

definition stoull :: "string \<Rightarrow> exception + u64" where
  "stoull s = (let n = digits_value s in if n < 2 ^ 64 then Inr (of_nat n) else Inl out_of_range)"

text \<open>
  \<open>std::stoi\<close> and \<open>std::stoll\<close>: leading white space, an optional sign, then the longest run
  of digits; what follows is ignored.
\<close>

definition leading_int :: "string \<Rightarrow> exception + int" where
  "leading_int s =
     (let t = dropWhile isspace s;
          (neg, u) = (case t of [] \<Rightarrow> (False, []) | c # cs \<Rightarrow>
             if c = CHR ''-'' then (True, cs) else if c = CHR ''+'' then (False, cs) else (False, t));
          ds = takeWhile isdigit u
      in if ds = [] then Inl invalid_argument
         else Inr (if neg then - int (digits_value ds) else int (digits_value ds)))"

definition ranged_int :: "nat \<Rightarrow> string \<Rightarrow> exception + int" where
  "ranged_int bits s =
     (case leading_int s of
        Inl e \<Rightarrow> Inl e
      | Inr i \<Rightarrow> if - (2 ^ (bits - 1)) \<le> i \<and> i < 2 ^ (bits - 1) then Inr i else Inl out_of_range)"

definition stoi :: "string \<Rightarrow> exception + int" where
  "stoi s = ranged_int 32 s"

definition stoll :: "string \<Rightarrow> exception + int" where
  "stoll s = ranged_int 64 s"

subsection \<open>Lists of names\<close>

text \<open>
  The pieces a loop of \<open>std::getline(ss, token, ',')\<close> sees: nothing follows a final separator.
\<close>

function getlines :: "string \<Rightarrow> string list" where
  "getlines s =
     (if s = [] then []
      else takeWhile (\<lambda>c. c \<noteq> CHR '','') s #
        (case dropWhile (\<lambda>c. c \<noteq> CHR '','') s of [] \<Rightarrow> [] | _ # rest \<Rightarrow> getlines rest))"
  by pat_completeness auto
termination
proof (relation "measure length", goal_cases)
  case (2 s c rest)
  then show ?case
    using length_dropWhile_le [of "\<lambda>c. c \<noteq> CHR '',''" s] by simp
qed simp

declare getlines.simps [simp del]

definition splitSeeds :: "string \<Rightarrow> string list" where
  "splitSeeds raw = filter (\<lambda>token. token \<noteq> []) (getlines raw)"

text \<open>The test \<open>arg.rfind(prefix, 0) == 0\<close> and what follows the prefix.\<close>

definition eat :: "string \<Rightarrow> string \<Rightarrow> string option" where
  "eat arg prefix_str =
     (if take (length prefix_str) arg = prefix_str then Some (drop (length prefix_str) arg) else None)"

lemma eat_append [simp]: "eat (p @ v) p = Some v"
  by (simp add: eat_def)

subsection \<open>Clocks\<close>

definition clock_pair :: "node_id \<times> u64 \<Rightarrow> string" where
  "clock_pair p = fst p @ '':'' @ to_string (unat (snd p))"

definition clockToString :: "vector_clock \<Rightarrow> string" where
  "clockToString clock = comma_separated (map clock_pair (sort (counters clock)))"

definition renderClock :: "vector_clock \<Rightarrow> string" where
  "renderClock clock = ''{'' @ comma_separated (map clock_pair (sort (counters clock))) @ ''}''"

fun outcomeToString :: "WriteOutcome \<Rightarrow> string" where
  "outcomeToString STORED = ''STORED''"
| "outcomeToString ALREADY_CURRENT = ''ALREADY_CURRENT''"

text \<open>
  One pair of \<open>parseClockArg\<close>, \<open>None\<close> where it returns false, and the loop over the pairs; the
  second result is what the clock behind the pointer holds when the function returns.
\<close>

definition parse_pair :: "string \<Rightarrow> (node_id \<times> string) option" where
  "parse_pair pair_str =
     (let colon = length (takeWhile (\<lambda>c. c \<noteq> CHR '':'') pair_str)
      in if colon = length pair_str \<or> colon = 0 \<or> colon = length pair_str - 1 then None
         else if list_all isdigit (drop (colon + 1) pair_str)
           then Some (take colon pair_str, drop (colon + 1) pair_str) else None)"

function parse_pairs :: "string \<Rightarrow> vector_clock \<Rightarrow> exception + (bool \<times> vector_clock)" where
  "parse_pairs remaining clock =
     (if remaining = [] then Inr (True, clock)
      else (case parse_pair (takeWhile (\<lambda>c. c \<noteq> CHR '','') remaining) of
              None \<Rightarrow> Inr (False, clock)
            | Some (n, count_str) \<Rightarrow>
                (case stoull count_str of
                   Inl e \<Rightarrow> Inl e
                 | Inr cnt \<Rightarrow>
                     (let clock' = clock\<lparr>counters := AList.update n cnt (counters clock)\<rparr>
                      in case dropWhile (\<lambda>c. c \<noteq> CHR '','') remaining of
                           [] \<Rightarrow> Inr (True, clock')
                         | _ # rest \<Rightarrow> parse_pairs rest clock'))))"
  by pat_completeness auto
termination
proof (relation "measure (\<lambda>(s, c). length s)", goal_cases)
  case (2 s)
  then show ?case
    using length_dropWhile_le [of "\<lambda>c. c \<noteq> CHR '',''" s] by simp
qed simp

declare parse_pairs.simps [simp del]

definition parseClockArg :: "string \<Rightarrow> vector_clock \<Rightarrow> exception + (bool \<times> vector_clock)" where
  "parseClockArg raw clock = (if raw = [] then Inr (True, clock) else parse_pairs raw clock)"

subsection \<open>Printed numbers\<close>

lemma digit_char [simp]: "d < 10 \<Longrightarrow> (of_char (char_of (48 + d) :: char) :: nat) = 48 + d"
  by simp

lemma to_string_digits: "c \<in> set (to_string n) \<Longrightarrow> isdigit c"
proof (induction n rule: to_string.induct)
  case (1 n)
  have "n mod 10 < 10" by simp
  then have last: "isdigit (char_of (48 + n mod 10))"
    unfolding isdigit_def by (subst (1 2) digit_char) simp_all
  from 1 show ?case
  proof (cases "n < 10")
    case True
    with last 1(2) show ?thesis by (simp add: to_string.simps [of n])
  next
    case False
    with 1 last show ?thesis by (auto simp: to_string.simps [of n])
  qed
qed

lemma to_string_nonempty [simp]: "to_string n \<noteq> []"
  by (simp add: to_string.simps [of n])

lemma digits_value_append: "digits_value (s @ [c]) = 10 * digits_value s + (of_char c - 48)"
  by (simp add: digits_value_def)

lemma digits_value_to_string [simp]: "digits_value (to_string n) = n"
proof (induction n rule: to_string.induct)
  case (1 n)
  have last: "(of_char (char_of (48 + n mod 10) :: char) :: nat) = 48 + n mod 10"
    by (rule digit_char) simp
  show ?case
  proof (cases "n < 10")
    case True
    then show ?thesis using last by (simp add: to_string.simps [of n] digits_value_def)
  next
    case False
    then have "digits_value (to_string n) = 10 * (n div 10) + (n mod 10)"
      using 1 last by (simp add: to_string.simps [of n] digits_value_append)
    then show ?thesis by simp
  qed
qed

lemma to_string_inject [simp]: "to_string m = to_string n \<longleftrightarrow> m = n"
  by (metis digits_value_to_string)

lemma separators_not_digits [simp]: "\<not> isdigit CHR '':''" "\<not> isdigit CHR '',''"
  by (simp_all add: isdigit_def)

lemma separators_not_in_number [simp]: "CHR '':'' \<notin> set (to_string n)" "CHR '','' \<notin> set (to_string n)"
  using to_string_digits separators_not_digits by blast+

lemma stoull_to_string [simp]: "stoull (to_string (unat w)) = Inr w"
proof -
  have "unat w < 2 ^ 64" by (rule order_less_le_trans [OF unsigned_less]) simp
  then show ?thesis by (simp add: stoull_def)
qed

subsection \<open>Separated lists\<close>

lemma until_separator:
  "sep \<notin> set s \<Longrightarrow> takeWhile (\<lambda>c. c \<noteq> sep) s = s"
  "sep \<notin> set s \<Longrightarrow> dropWhile (\<lambda>c. c \<noteq> sep) s = []"
  "sep \<notin> set s \<Longrightarrow> takeWhile (\<lambda>c. c \<noteq> sep) (s @ sep # t) = s"
  "sep \<notin> set s \<Longrightarrow> dropWhile (\<lambda>c. c \<noteq> sep) (s @ sep # t) = sep # t"
  by (induction s) auto

lemma getlines_comma_separated:
  assumes "\<forall>s \<in> set ss. s \<noteq> [] \<and> CHR '','' \<notin> set s"
  shows "getlines (comma_separated ss) = ss"
  using assms
proof (induction ss rule: comma_separated.induct)
  case 1
  show ?case by (simp add: getlines.simps)
next
  case (2 s)
  then show ?case by (simp add: getlines.simps [of s] until_separator)
next
  case (3 s t ss)
  then show ?case
    by (simp add: getlines.simps [of "s @ _"] until_separator del: comma_separated.simps(3))
      (simp add: getlines.simps [of "s @ _"] until_separator)
qed

lemma getlines_no_separator: "s \<in> set (getlines raw) \<Longrightarrow> CHR '','' \<notin> set s"
proof (induction raw rule: getlines.induct)
  case (1 raw)
  let ?p = "\<lambda>c. c \<noteq> CHR '',''"
  show ?case
  proof (cases "raw = [] \<or> s = takeWhile ?p raw")
    case True
    with 1(2) show ?thesis by (auto simp: getlines.simps [of raw] dest: set_takeWhileD)
  next
    case False
    show ?thesis
    proof (cases "dropWhile ?p raw")
      case Nil
      with False 1(2) show ?thesis by (simp add: getlines.simps [of raw])
    next
      case (Cons c rest)
      with False 1(2) have "s \<in> set (getlines rest)" by (simp add: getlines.simps [of raw])
      with Cons 1(1) False show ?thesis by blast
    qed
  qed
qed

subsection \<open>Reading printed clocks back\<close>

lemma parse_pair_clock_pair:
  assumes "n \<noteq> []"
  shows "parse_pair (clock_pair (n, k)) =
    (if CHR '':'' \<in> set n then None else Some (n, to_string (unat k)))"
proof (cases "CHR '':'' \<in> set n")
  case False
  then show ?thesis
    using assms to_string_digits [of _ "unat k"]
    by (simp add: parse_pair_def clock_pair_def until_separator list_all_iff Let_def)
next
  case True
  then obtain a b where n: "n = a @ CHR '':'' # b" "CHR '':'' \<notin> set a"
    by (metis split_list_first)
  let ?rest = "b @ CHR '':'' # to_string (unat k)"
  have "\<not> list_all isdigit ?rest" by simp
  then show ?thesis
    using n by (simp add: parse_pair_def clock_pair_def until_separator Let_def del: list_all_append)
qed

lemma no_comma_in_pair: "CHR '','' \<notin> set n \<Longrightarrow> CHR '','' \<notin> set (clock_pair (n, k))"
  by (simp add: clock_pair_def)

lemma clock_pair_nonempty [simp]: "clock_pair p \<noteq> []"
  by (simp add: clock_pair_def)

lemma parse_pairs_clock:
  assumes "\<forall>p \<in> set ps. fst p \<noteq> [] \<and> CHR '','' \<notin> set (fst p)"
  shows "if \<forall>p \<in> set ps. CHR '':'' \<notin> set (fst p)
    then parse_pairs (comma_separated (map clock_pair ps)) c =
      Inr (True, c\<lparr>counters := fold (\<lambda>(n, k). AList.update n k) ps (counters c)\<rparr>)
    else \<exists>c'. parse_pairs (comma_separated (map clock_pair ps)) c = Inr (False, c')"
  using assms
proof (induction ps arbitrary: c)
  case Nil
  show ?case by (simp add: parse_pairs.simps)
next
  case (Cons p ps)
  obtain n k where p: "p = (n, k)" by (cases p)
  have n: "n \<noteq> []" "CHR '','' \<notin> set (clock_pair (n, k))"
    using Cons.prems no_comma_in_pair by (auto simp: p)
  let ?c = "c\<lparr>counters := AList.update n k (counters c)\<rparr>"
  have step: "parse_pairs (comma_separated (map clock_pair (p # ps))) c =
      (if CHR '':'' \<in> set n then Inr (False, c)
       else parse_pairs (comma_separated (map clock_pair ps)) ?c)"
    using n parse_pairs.simps [of "[]" ?c]
    by (cases ps)
      (simp_all add: p parse_pairs.simps [of "clock_pair _"] parse_pairs.simps [of "clock_pair _ @ _"]
        until_separator parse_pair_clock_pair)
  show ?case
    using Cons.IH [of ?c] Cons.prems step by (auto simp: p)
qed

lemma fold_update_fresh:
  "distinct_keys (al @ ps) \<Longrightarrow> fold (\<lambda>(n, k). AList.update n k) ps al = al @ ps"
proof (induction ps arbitrary: al)
  case (Cons p ps)
  obtain n k where p: "p = (n, k)" by (cases p)
  have "AList.update n k al = al @ [(n, k)]"
    using Cons.prems unfolding p by (induction al) auto
  with Cons show ?case by (simp add: p)
qed simp

subsection \<open>Properties\<close>

lemma sort_map_determined:
  fixes a b :: "('k::linorder \<times> 'v::linorder) list"
  assumes "distinct_keys a" and "distinct_keys b" and "map_of a = map_of b"
  shows "sort a = sort b"
proof -
  have "set a = set b" using assms by (simp add: map_of_inject_set)
  moreover have "distinct a" "distinct b" using assms(1,2) by (simp_all add: distinct_map)
  ultimately have m: "mset a = mset b" by (simp add: set_eq_iff_mset_eq_distinct)
  then show ?thesis by (rule properties_for_sort [symmetric, OF _ sorted_sort, simplified])
qed

text \<open>Reading a printed clock, for ids without a colon and with one.\<close>

lemma clock_text:
  assumes "wf_clock c" and "\<forall>p \<in> set (counters c). fst p \<noteq> [] \<and> CHR '','' \<notin> set (fst p)"
  shows "if \<forall>p \<in> set (counters c). CHR '':'' \<notin> set (fst p)
    then \<exists>d. parseClockArg (clockToString c) empty_clock = Inr (True, d) \<and>
      map_of (counters d) = map_of (counters c) \<and> wf_clock d \<and> clockToString d = clockToString c
    else \<exists>d. parseClockArg (clockToString c) empty_clock = Inr (False, d)"
proof -
  let ?ps = "sort (counters c)"
  have "mset (map fst ?ps) = mset (map fst (counters c))" by simp
  then have dist: "distinct_keys ?ps"
    using assms(1) mset_eq_imp_distinct_iff unfolding wf_clock_def by blast
  have map: "map_of ?ps = map_of (counters c)"
    using dist assms(1) by (simp add: map_of_inject_set wf_clock_def)
  have parse: "parseClockArg (clockToString c) empty_clock =
      parse_pairs (comma_separated (map clock_pair ?ps)) empty_clock"
    by (simp add: parseClockArg_def clockToString_def parse_pairs.simps)
  have ids: "\<forall>p \<in> set ?ps. fst p \<noteq> [] \<and> CHR '','' \<notin> set (fst p)" using assms(2) by simp
  show ?thesis
  proof (cases "\<forall>p \<in> set (counters c). CHR '':'' \<notin> set (fst p)")
    case True
    let ?d = "empty_clock\<lparr>counters := ?ps\<rparr>"
    have "parseClockArg (clockToString c) empty_clock = Inr (True, ?d)"
    proof -
      have "counters empty_clock = []" by (simp add: empty_clock_def)
      then show ?thesis
        using parse_pairs_clock [OF ids, of empty_clock] True dist fold_update_fresh [of "[]" ?ps]
        by (simp add: parse)
    qed
    moreover have "clockToString ?d = clockToString c" by (simp add: clockToString_def sorted_sort_id)
    ultimately show ?thesis using True map dist by (auto simp: wf_clock_def)
  next
    case False
    with parse_pairs_clock [OF ids, of empty_clock] show ?thesis by (auto simp: parse)
  qed
qed

lemma clock_text_parses:
  assumes "wf_clock c"
    and "\<forall>p \<in> set (counters c). fst p \<noteq> [] \<and> CHR '','' \<notin> set (fst p) \<and> CHR '':'' \<notin> set (fst p)"
  shows "\<exists>d. parseClockArg (clockToString c) empty_clock = Inr (True, d) \<and> clockToString d = clockToString c"
  using clock_text [OF assms(1)] assms(2) by (auto split: if_splits)

text \<open>
C33. A printed clock can be read back, if no node id of it contains a colon (or a comma, or is empty): the
parser accepts the text and stores exactly the printed counters, which all fit.  If some id contains a
colon, as every \<open>host:port\<close> address does, the parser rejects the text.
\<close>
theorem clock_text_roundtrip:
  assumes "wf_clock c" and "\<forall>p \<in> set (counters c). fst p \<noteq> [] \<and> CHR '','' \<notin> set (fst p)"
  shows "if \<forall>p \<in> set (counters c). CHR '':'' \<notin> set (fst p)
    then \<exists>d. parseClockArg (clockToString c) empty_clock = Inr (True, d) \<and>
      map_of (counters d) = map_of (counters c) \<and> wf_clock d \<and> clockToString d = clockToString c
    else \<exists>d. parseClockArg (clockToString c) empty_clock = Inr (False, d)"
  using assms by (rule clock_text)

theorem clock_text_roundtrip_witness:
  "(\<exists>d. parseClockArg (clockToString (empty_clock\<lparr>counters := [(''b'', 7), (''a'', 12)]\<rparr>)) empty_clock =
      Inr (True, d) \<and> map_of (counters d) = map_of [(''b'', 7), (''a'', 12)]) \<and>
   (\<exists>d. parseClockArg (clockToString (empty_clock\<lparr>counters := [(''h:1'', 7)]\<rparr>)) empty_clock =
      Inr (False, d))"
  using clock_text_roundtrip [of "empty_clock\<lparr>counters := [(''b'', 7), (''a'', 12)]\<rparr>"]
    clock_text_roundtrip [of "empty_clock\<lparr>counters := [(''h:1'', 7)]\<rparr>"]
  by (auto simp: wf_clock_def)

text \<open>
The seeds of a comma-separated argument are its non-empty pieces: splitting a joined list of such
names gives back the list, and no seed of any argument is empty or contains a comma.
\<close>
theorem splitSeeds_correct:
  "(\<forall>s \<in> set (splitSeeds raw). s \<noteq> [] \<and> CHR '','' \<notin> set s) \<and>
   ((\<forall>s \<in> set ss. s \<noteq> [] \<and> CHR '','' \<notin> set s) \<longrightarrow> splitSeeds (comma_separated ss) = ss)"
  using getlines_no_separator by (auto simp: splitSeeds_def getlines_comma_separated)

theorem splitSeeds_correct_witness: "splitSeeds (comma_separated [''a:1'', ''b:2'']) = [''a:1'', ''b:2'']"
  using splitSeeds_correct [of "[]" "[''a:1'', ''b:2'']"] by simp

text \<open>
The strings hashed into tokens are different for different virtual nodes, whatever colons the node
ids contain; so two virtual nodes of a cluster share a token only if their hashes collide.
\<close>
theorem vnode_names_differ: "vnode_name n i = vnode_name m j \<longleftrightarrow> n = m \<and> i = j"
proof
  assume "vnode_name n i = vnode_name m j"
  then have eq: "rev (to_string i) @ CHR '':'' # rev n = rev (to_string j) @ CHR '':'' # rev m"
    by (simp add: vnode_name_def flip: rev_append rev.simps(2))
      (metis append.assoc append_Cons append_Nil rev.simps(2) rev_append rev_rev_ident)
  have "rev (to_string i) = rev (to_string j)"
    using arg_cong [OF eq, of "takeWhile (\<lambda>c. c \<noteq> CHR '':'')"] by (simp add: until_separator)
  with eq show "n = m \<and> i = j" by simp
qed simp

text \<open>
What is printed does not depend on the unspecified iteration order of the maps: equal tables give
equal table dumps, and clocks with equal counters print alike, in the log and on the command line.
\<close>
theorem printing_ignores_iteration_order:
  assumes "distinct_keys a" and "distinct_keys b" and "map_of a = map_of b"
    and "wf_clock c" and "wf_clock d" and "map_of (counters c) = map_of (counters d)"
  shows "dumpTable a = dumpTable b \<and> renderClock c = renderClock d \<and> clockToString c = clockToString d"
proof -
  have "sort (map fst a) = sort (map fst b)"
  proof (rule properties_for_sort [symmetric, OF _ sorted_sort, simplified])
    have "set (map fst a) = set (map fst b)"
      using assms(3) by (metis dom_map_of_conv_image_fst set_map)
    then show "mset (map fst a) = mset (map fst b)"
      using assms(1,2) set_eq_iff_mset_eq_distinct by blast
  qed
  moreover have "dump_entry a = dump_entry b" using assms(3) by (auto simp: dump_entry_def)
  moreover have "sort (counters c) = sort (counters d)"
    using assms(4-6) by (intro sort_map_determined) (auto simp: wf_clock_def)
  ultimately show ?thesis
    by (simp add: dumpTable_def renderClock_def clockToString_def)
qed

theorem printing_ignores_iteration_order_witness:
  "renderClock (empty_clock\<lparr>counters := [(''b'', 7), (''a'', 12)]\<rparr>) =
   renderClock (empty_clock\<lparr>counters := [(''a'', 12), (''b'', 7)]\<rparr>)"
  using printing_ignores_iteration_order [of "[]" "[]" "empty_clock\<lparr>counters := [(''b'', 7), (''a'', 12)]\<rparr>"
      "empty_clock\<lparr>counters := [(''a'', 12), (''b'', 7)]\<rparr>"]
    fun_upd_twist [of "''a''" "''b''" Map.empty "Some (12 :: u64)" "Some 7"]
  by (simp add: wf_clock_def)



end
