(* ===== verification/Node_Main.thy ===== *)
theory Node_Main
  imports Text_Format Gossip
begin

text \<open>
  The node process of \<^verbatim>\<open>src/src/node_main.cpp\<close>: its command line, the check of the quorum
  configuration, the construction of the service, and the bootstrap before the background loops start.
  The gRPC server is outside the repository; starting it makes the service reachable under its address,
  which the model takes to be free.
\<close>

subsection \<open>The command line\<close>

record node_args =
  na_listen :: string
  na_seed :: string
  na_gossip :: string
  na_probe :: string
  na_vnodes :: string
  na_N :: string
  na_W :: string
  na_R :: string

definition default_args :: node_args where
  "default_args = \<lparr>na_listen = [], na_seed = [], na_gossip = ''1000'', na_probe = ''3000'',
     na_vnodes = ''32'', na_N = ''3'', na_W = ''2'', na_R = ''2''\<rparr>"

definition node_arg :: "string \<Rightarrow> node_args \<Rightarrow> node_args" where
  "node_arg arg a =
     (case eat arg ''--listen='' of Some v \<Rightarrow> a\<lparr>na_listen := v\<rparr> | None \<Rightarrow>
     (case eat arg ''--seed='' of Some v \<Rightarrow> a\<lparr>na_seed := v\<rparr> | None \<Rightarrow>
     (case eat arg ''--gossip-interval='' of Some v \<Rightarrow> a\<lparr>na_gossip := v\<rparr> | None \<Rightarrow>
     (case eat arg ''--probe-interval='' of Some v \<Rightarrow> a\<lparr>na_probe := v\<rparr> | None \<Rightarrow>
     (case eat arg ''--vnodes='' of Some v \<Rightarrow> a\<lparr>na_vnodes := v\<rparr> | None \<Rightarrow>
     (case eat arg ''--N='' of Some v \<Rightarrow> a\<lparr>na_N := v\<rparr> | None \<Rightarrow>
     (case eat arg ''--W='' of Some v \<Rightarrow> a\<lparr>na_W := v\<rparr> | None \<Rightarrow>
     (case eat arg ''--R='' of Some v \<Rightarrow> a\<lparr>na_R := v\<rparr> | None \<Rightarrow> a))))))))"

text \<open>\<open>argv[0]\<close> is skipped; a later occurrence of an option overrides an earlier one.\<close>

definition parse_args :: "string list \<Rightarrow> node_args" where
  "parse_args argv = fold node_arg (tl argv) default_args"

subsection \<open>The process\<close>

text \<open>
  How \<open>main\<close> ends: with a status, by an uncaught exception (of a number conversion), or not at all,
  waiting for the server while the loops run.  A process that has ended answers no calls, and its
  detached threads are gone.
\<close>

datatype ending = Exited int | Aborted | Serving

definition stop_process :: "node_id \<Rightarrow> world \<Rightarrow> world" where
  "stop_process a w = w\<lparr>nodes := (nodes w)(a := None), jobs := filter (\<lambda>j. job_node j \<noteq> a) (jobs w)\<rparr>"

definition quorum_config :: "node_args \<Rightarrow> exception + (int \<times> int \<times> int)" where
  "quorum_config a =
     (case stoi (na_N a) of Inl e \<Rightarrow> Inl e | Inr N \<Rightarrow>
     (case stoi (na_W a) of Inl e \<Rightarrow> Inl e | Inr W \<Rightarrow>
     (case stoi (na_R a) of Inl e \<Rightarrow> Inl e | Inr R \<Rightarrow> Inr (N, W, R))))"

definition launch_service :: "env \<Rightarrow> node_id \<Rightarrow> int \<Rightarrow> int \<Rightarrow> int \<Rightarrow> int \<Rightarrow> world \<Rightarrow> world" where
  "launch_service E listen V N W R w =
     set_node listen (NodeServiceImpl listen V N W R (clock_at E (tick w))) (advance w)"

definition join_seeds :: "env \<Rightarrow> node_id \<Rightarrow> string list \<Rightarrow> world \<Rightarrow> bool \<times> world" where
  "join_seeds E listen seeds w = (if seeds \<noteq> [] then bootstrapFromSeed E listen seeds w else (True, w))"

definition intervals_parse :: "node_args \<Rightarrow> bool" where
  "intervals_parse a =
     (case (stoll (na_gossip a), stoll (na_probe a)) of (Inr _, Inr _) \<Rightarrow> True | _ \<Rightarrow> False)"

definition node_main :: "env \<Rightarrow> string list \<Rightarrow> world \<Rightarrow> ending \<times> world" where
  "node_main E argv w =
     (let a = parse_args argv; listen = na_listen a
      in if listen = [] then (Exited 1, w)
         else (case quorum_config a of
                 Inl _ \<Rightarrow> (Aborted, w)
               | Inr (N, W, R) \<Rightarrow>
                   if \<not> valid_quorum N W R then (Exited 1, w)
                   else (case stoi (na_vnodes a) of
                           Inl _ \<Rightarrow> (Aborted, w)
                         | Inr V \<Rightarrow>
                             (case join_seeds E listen (splitSeeds (na_seed a))
                                     (launch_service E listen V N W R w) of
                                (ok, w1) \<Rightarrow>
                                  if \<not> ok then (Exited 1, stop_process listen w1)
                                  else if intervals_parse a then (Serving, w1)
                                  else (Aborted, stop_process listen w1)))))"

subsection \<open>What a start leaves running\<close>

text \<open>A node keeps its configuration, and no process starts or ends while another one bootstraps.\<close>

definition configured :: "node_id set \<Rightarrow> node_id \<Rightarrow> int \<times> int \<times> int \<Rightarrow> world \<Rightarrow> bool" where
  "configured D a cfg w \<longleftrightarrow> dom (nodes w) = D \<and>
     (\<exists>nd. nodes w a = Some nd \<and> (nd_N nd, nd_W nd, nd_R nd) = cfg)"

lemma configured_set_node:
  assumes "configured D a cfg w" and "nodes w b = Some nd"
    and "(nd_N nd', nd_W nd', nd_R nd') = (nd_N nd, nd_W nd, nd_R nd)"
  shows "configured D a cfg (set_node b nd' w)"
  using assms by (auto simp: configured_def)

lemma configured_update:
  assumes "configured D a cfg w" and "\<And>nd. (nd_N (f nd), nd_W (f nd), nd_R (f nd)) = (nd_N nd, nd_W nd, nd_R nd)"
  shows "configured D a cfg (update_node b f w)"
  using assms by (auto simp: update_node_def intro!: configured_set_node split: option.split)

lemma configured_advance [simp]: "configured D a cfg (advance w) = configured D a cfg w"
  by (simp add: configured_def)

lemma applyGossip_config:
  "nd_N (snd (applyGossip inc nd)) = nd_N nd" "nd_W (snd (applyGossip inc nd)) = nd_W nd"
  "nd_R (snd (applyGossip inc nd)) = nd_R nd"
  by (simp_all add: applyGossip_def split: prod.split)

lemma markUnreachable_config:
  "nd_N (markUnreachable p nd) = nd_N nd" "nd_W (markUnreachable p nd) = nd_W nd"
  "nd_R (markUnreachable p nd) = nd_R nd"
  by (simp_all add: markUnreachable_def)

lemma configured_SendGossip:
  assumes "SendGossip E self peer tbl w = (resp, w')" and "configured D a cfg w"
  shows "configured D a cfg w'"
proof -
  let ?h = "\<lambda>now nd. Some (GossipExchange \<lparr>gq_sender = self, gq_table = tbl\<rparr> nd)"
  obtain r w1 where r: "rpc E peer ?h w = (r, w1)" by (cases "rpc E peer ?h w")
  have "configured D a cfg w1"
    using r
  proof (cases rule: rpc_cases)
    case failed
    with assms(2) show ?thesis by simp
  next
    case (handled nd resp nd')
    then have "nd' = snd (applyGossip tbl nd)"
      by (auto simp: GossipExchange_def split: prod.splits)
    with handled assms(2) show ?thesis
      by (auto intro!: configured_set_node simp: applyGossip_config)
  qed
  then show ?thesis
    using assms(1) r
    by (auto simp: SendGossip_def markUnreachable_config intro!: configured_update split: option.splits)
qed

lemma configured_try_seeds:
  "try_seeds E self seeds w = (ok, w') \<Longrightarrow> configured D a cfg w \<Longrightarrow> configured D a cfg w'"
proof (induction seeds arbitrary: w)
  case (Cons s seeds)
  show ?case
  proof (cases "nodes w self")
    case None
    with Cons.prems show ?thesis by simp
  next
    case (Some nd)
    obtain r w1 where r: "SendGossip E self s (nd_table nd) w = (r, w1)"
      by (cases "SendGossip E self s (nd_table nd) w")
    have c: "configured D a cfg w1" using r Cons.prems(2) by (rule configured_SendGossip)
    show ?thesis
    proof (cases r)
      case None
      with Cons.prems(1) Some r Cons.IH [OF _ c] show ?thesis by simp
    next
      case (Some resp)
      with Cons.prems(1) \<open>nodes w self = Some nd\<close> r c show ?thesis
        by (auto simp: apply_response_def applyGossip_config intro!: configured_update)
    qed
  qed
qed simp

lemma configured_bootstrap:
  assumes "bootstrapFromSeed E self seeds w = (ok, w')" and "configured D a cfg w"
  shows "configured D a cfg w'"
proof -
  have "bootstrap_passes n E self seeds w = (ok, w') \<Longrightarrow> configured D a cfg w \<Longrightarrow> configured D a cfg w'" for n w
    by (induction n arbitrary: w) (auto split: prod.splits bool.splits dest: configured_try_seeds)
  then show ?thesis using assms by (auto simp: bootstrapFromSeed_def)
qed

lemma wf_launch:
  assumes "wf_world T w" and "T listen = set (computeTokens listen V)" and "valid_quorum N W R"
  shows "wf_world T (launch_service E listen V N W R w)"
  using assms unfolding launch_service_def
  by (intro wf_set_node wf_advance wf_NodeServiceImpl) (auto simp: NodeServiceImpl_def Let_def)

lemma wf_join_seeds:
  assumes "join_seeds E listen seeds w = (ok, w')" and "wf_world T w" and "tokens_disjoint T"
  shows "wf_world T w'"
  using assms wf_bootstrapFromSeed by (auto simp: join_seeds_def split: if_splits)

lemma wf_stop_process [wf_intros]: "wf_world T w \<Longrightarrow> wf_world T (stop_process a w)"
  by (simp add: wf_world_def stop_process_def)

text \<open>How a start goes: refused before anything happens, or launched, joined and kept or given up.\<close>

lemma node_main_cases:
  assumes "node_main E argv w = (r, w')"
  obtains (refused) "r \<noteq> Serving" "w' = w"
  | (launched) N W R V ok w1 where "quorum_config (parse_args argv) = Inr (N, W, R)" "valid_quorum N W R"
      "stoi (na_vnodes (parse_args argv)) = Inr V"
      "join_seeds E (na_listen (parse_args argv)) (splitSeeds (na_seed (parse_args argv)))
        (launch_service E (na_listen (parse_args argv)) V N W R w) = (ok, w1)"
      "r = Serving \<and> ok \<and> w' = w1 \<or> r \<noteq> Serving \<and> w' = stop_process (na_listen (parse_args argv)) w1"
  using assms
  by (auto simp: node_main_def Let_def split: if_splits sum.splits prod.splits)

lemma node_main_wf:
  assumes "node_main E argv w = (r, w')" and "wf_world T w" and "tokens_disjoint T"
    and "\<forall>V. stoi (na_vnodes (parse_args argv)) = Inr V \<longrightarrow>
      T (na_listen (parse_args argv)) = set (computeTokens (na_listen (parse_args argv)) V)"
  shows "wf_world T w'"
  using assms(1)
proof (cases rule: node_main_cases)
  case refused
  with assms(2) show ?thesis by simp
next
  case (launched N W R V ok w1)
  have "wf_world T (launch_service E (na_listen (parse_args argv)) V N W R w)"
    using assms(2,4) launched(2,3) by (intro wf_launch) auto
  then have "wf_world T w1" using wf_join_seeds [OF launched(4)] assms(3) by blast
  with launched(5) show ?thesis by (auto intro: wf_intros)
qed

lemma configured_launch:
  "configured (insert a (dom (nodes w))) a (N, W, R) (launch_service E a V N W R w)"
  by (auto simp: configured_def launch_service_def NodeServiceImpl_def Let_def)

lemma dom_stop_process [simp]: "dom (nodes (stop_process a w)) = dom (nodes w) - {a}"
  by (auto simp: stop_process_def)

subsection \<open>Properties\<close>

text \<open>
C31. A node process either serves, with a checked quorum configuration taken from its command line, or
ends and leaves no process at its address; no other process starts or ends, and the cluster stays
well-formed, whatever calls of the bootstrap fail (given that the virtual nodes asked for are those of
this address and that the address is free).
\<close>
theorem node_main_outcome:
  assumes "node_main E argv w = (r, w')" and "nodes w (na_listen (parse_args argv)) = None"
    and "wf_world T w" and "tokens_disjoint T"
    and "\<forall>V. stoi (na_vnodes (parse_args argv)) = Inr V \<longrightarrow>
      T (na_listen (parse_args argv)) = set (computeTokens (na_listen (parse_args argv)) V)"
  shows "wf_world T w' \<and>
    (r = Serving \<longrightarrow> dom (nodes w') = insert (na_listen (parse_args argv)) (dom (nodes w)) \<and>
       (\<exists>nd. nodes w' (na_listen (parse_args argv)) = Some nd \<and>
         quorum_config (parse_args argv) = Inr (nd_N nd, nd_W nd, nd_R nd) \<and>
         nd_N nd < nd_W nd + nd_R nd \<and> nd_W nd \<le> nd_N nd \<and> nd_R nd \<le> nd_N nd)) \<and>
    (r \<noteq> Serving \<longrightarrow> dom (nodes w') = dom (nodes w))"
  using assms(1)
proof (cases rule: node_main_cases)
  case refused
  with assms(3) show ?thesis by simp
next
  case (launched N W R V ok w1)
  let ?l = "na_listen (parse_args argv)"
  have wf: "wf_world T w'" using assms(1,3,4,5) by (rule node_main_wf)
  have conf: "configured (insert ?l (dom (nodes w))) ?l (N, W, R) w1"
    using launched(4) configured_launch [of ?l w N W R E V] configured_bootstrap
    by (auto simp: join_seeds_def split: if_splits)
  from launched(5) show ?thesis
  proof (elim disjE conjE)
    assume "r = Serving" "w' = w1"
    with conf wf launched(1,2) show ?thesis by (auto simp: configured_def valid_quorum_def)
  next
    assume r: "r \<noteq> Serving" "w' = stop_process ?l w1"
    have "dom (nodes w1) - {?l} = dom (nodes w)"
      using conf assms(2) unfolding configured_def by blast
    with r wf show ?thesis by (simp add: wf_stop_process)
  qed
qed

definition lone_args :: "string list" where
  "lone_args = [''node'', ''--listen=A'', ''--vnodes=0'', ''--N=1'', ''--W=1'', ''--R=1'']"

definition no_process :: world where
  "no_process = \<lparr>nodes = Map.empty, jobs = [], tick = 0\<rparr>"

lemma lone_args_parsed: "parse_args lone_args =
  default_args\<lparr>na_listen := ''A'', na_vnodes := ''0'', na_N := ''1'', na_W := ''1'', na_R := ''1''\<rparr>"
  by (simp add: parse_args_def lone_args_def node_arg_def eat_def)

lemma lone_numbers: "stoi ''0'' = Inr 0" "stoi ''1'' = Inr 1" "stoll ''1000'' = Inr 1000"
  "stoll ''3000'' = Inr 3000"
  by (simp_all add: stoi_def stoll_def ranged_int_def leading_int_def isspace_def isdigit_def
      digits_value_def Let_def)

lemma lone_start: "node_main calm lone_args no_process =
  (Serving, launch_service calm ''A'' 0 1 1 1 no_process)"
  by (simp add: node_main_def lone_args_parsed lone_numbers default_args_def quorum_config_def
      valid_quorum_def join_seeds_def splitSeeds_def getlines.simps intervals_parse_def Let_def)

theorem node_main_outcome_witness:
  "\<exists>w' nd. node_main calm lone_args no_process = (Serving, w') \<and> nodes w' ''A'' = Some nd \<and>
     nd_N nd < nd_W nd + nd_R nd"
proof -
  have args: "na_listen (parse_args lone_args) = ''A''" "na_vnodes (parse_args lone_args) = ''0''"
    by (simp_all add: lone_args_parsed default_args_def)
  have "nodes no_process ''A'' = None" "wf_world (\<lambda>_. {}) no_process" "tokens_disjoint (\<lambda>_. {})"
    "\<forall>V. stoi ''0'' = Inr V \<longrightarrow> {} = set (computeTokens ''A'' V)"
    by (simp_all add: wf_world_def no_process_def tokens_disjoint_def lone_numbers computeTokens_def)
  note out = node_main_outcome [OF lone_start, unfolded args, OF this]
  then obtain nd where "nodes (launch_service calm ''A'' 0 1 1 1 no_process) ''A'' = Some nd"
    "nd_N nd < nd_W nd + nd_R nd"
    using out [THEN conjunct2, THEN conjunct1, rule_format, OF refl, THEN conjunct2] by (elim exE conjE)
  with lone_start show ?thesis by (intro exI conjI)
qed

text \<open>
A node whose own address comes first among its seeds joins nobody: its call reaches its own server,
the merge of its table with itself changes nothing, and the bootstrap reports success although no other
node has been contacted.
\<close>
theorem own_seed_joins_nobody:
  assumes "nodes w self = Some nd" and "distinct_keys (nd_table nd)" and "fate_at E (tick w) = Delivered"
  shows "bootstrapFromSeed E self (self # seeds) w = (True, advance w)"
proof -
  have same: "mergeInto tbl inc rg = (tbl, rg)"
    if "\<forall>(n, e) \<in> set inc. map_of tbl n = Some e" for tbl inc rg
    using that by (induction inc) (auto simp: incoming_wins_def)
  have "mergeInto (nd_table nd) (nd_table nd) (nd_ring nd) = (nd_table nd, nd_ring nd)"
    by (rule same) (use assms(2) in auto)
  then have gossip: "applyGossip (nd_table nd) nd = (nd_table nd, nd)"
    by (simp add: applyGossip_def)
  have "set_node self nd (advance w) = advance w"
    using assms(1) by (simp add: set_node_def advance_def fun_upd_idem)
  then show ?thesis
    using assms(1,3) gossip
    by (simp add: bootstrapFromSeed_def numeral_3_eq_3 SendGossip_delivered apply_response_def update_node_def)
qed

theorem own_seed_joins_nobody_witness:
  "bootstrapFromSeed calm ''B'' [''B'', ''A''] bare_world = (True, advance bare_world)"
  using own_seed_joins_nobody [of bare_world "''B''" "bare_node ''B'' [''B'']" calm "[''A'']"]
  by (simp add: bare_nodes bare_node_def)

end
