(* ===== verification/Client_Tools.thy ===== *)
theory Client_Tools
  imports Drift_Client Node_Main
begin

text \<open>
  The two command-line programs: the administration client \<^verbatim>\<open>src/src/client.cpp\<close> and the
  driver \<^verbatim>\<open>src/src/driftclient.cpp\<close> of the client library.  A run yields its exit status and
  what it writes to the standard output, or the exception that ends it; messages on the standard error
  stream are not modelled.  Strings hold no NUL character (\<open>printf\<close> would stop there).
\<close>

type_synonym run_result = "exception + (int \<times> string)"

definition bool_text :: "bool \<Rightarrow> string" where
  "bool_text b = (if b then ''true'' else ''false'')"

definition newline :: string where
  "newline = [CHR 0x0A]"

subsection \<open>The administration client: arguments\<close>

record client_args =
  ca_target :: string
  ca_self :: string
  ca_remove :: string
  ca_rwrite :: string
  ca_clock :: string
  ca_rread :: string
  ca_put :: string
  ca_get :: string
  ca_status :: bool

definition no_args :: client_args where
  "no_args = \<lparr>ca_target = [], ca_self = [], ca_remove = [], ca_rwrite = [], ca_clock = [], ca_rread = [],
     ca_put = [], ca_get = [], ca_status = False\<rparr>"

definition client_arg :: "string \<Rightarrow> client_args \<Rightarrow> client_args" where
  "client_arg arg a =
     (case eat arg ''--target='' of Some v \<Rightarrow> a\<lparr>ca_target := v\<rparr> | None \<Rightarrow>
     (case eat arg ''--self='' of Some v \<Rightarrow> a\<lparr>ca_self := v\<rparr> | None \<Rightarrow>
     (case eat arg ''--remove='' of Some v \<Rightarrow> a\<lparr>ca_remove := v\<rparr> | None \<Rightarrow>
     (case eat arg ''--replicate-write='' of Some v \<Rightarrow> a\<lparr>ca_rwrite := v\<rparr> | None \<Rightarrow>
     (case eat arg ''--clock='' of Some v \<Rightarrow> a\<lparr>ca_clock := v\<rparr> | None \<Rightarrow>
     (case eat arg ''--replicate-read='' of Some v \<Rightarrow> a\<lparr>ca_rread := v\<rparr> | None \<Rightarrow>
     (case eat arg ''--put='' of Some v \<Rightarrow> a\<lparr>ca_put := v\<rparr> | None \<Rightarrow>
     (case eat arg ''--get='' of Some v \<Rightarrow> a\<lparr>ca_get := v\<rparr> | None \<Rightarrow>
     if arg = ''--status'' then a\<lparr>ca_status := True\<rparr> else a))))))))"

text \<open>\<open>key=value\<close>, split at the first equals sign.\<close>

definition split_kv :: "string \<Rightarrow> (string \<times> string) option" where
  "split_kv s =
     (case dropWhile (\<lambda>c. c \<noteq> CHR ''='') s of
        [] \<Rightarrow> None
      | _ # v \<Rightarrow> Some (takeWhile (\<lambda>c. c \<noteq> CHR ''='') s, v))"

subsection \<open>The administration client: modes\<close>

definition status_run :: "env \<Rightarrow> string \<Rightarrow> world \<Rightarrow> run_result \<times> world" where
  "status_run E target w =
     (case rpc E target (\<lambda>now nd. Some (GetStatus nd, nd)) w of
        (Some r, w1) \<Rightarrow> (Inr (0, ''node='' @ sr_node_id r @ '' '' @ sr_table_dump r @ newline @
           sr_ring_dump r @ newline), w1)
      | (None, w1) \<Rightarrow> (Inr (1, []), w1))"

definition remove_run :: "env \<Rightarrow> string \<Rightarrow> node_id \<Rightarrow> world \<Rightarrow> run_result \<times> world" where
  "remove_run E target n w =
     (case rpc E target (\<lambda>now nd. Some (RemoveNode n now nd)) w of
        (Some accepted, w1) \<Rightarrow>
          (Inr (if accepted then 0 else 1, ''remove target='' @ n @ '' accepted='' @ bool_text accepted @ newline), w1)
      | (None, w1) \<Rightarrow> (Inr (1, []), w1))"

definition rwrite_run :: "env \<Rightarrow> string \<Rightarrow> string \<Rightarrow> string \<Rightarrow> world \<Rightarrow> run_result \<times> world" where
  "rwrite_run E target kv clock_str w =
     (case split_kv kv of
        None \<Rightarrow> (Inr (1, []), w)
      | Some (k, v) \<Rightarrow>
          (case parseClockArg clock_str empty_clock of
             Inl e \<Rightarrow> (Inl e, w)
           | Inr (False, _) \<Rightarrow> (Inr (1, []), w)
           | Inr (True, clock) \<Rightarrow>
               (case rpc E target
                   (ReplicateWrite \<lparr>rw_key = k, rw_value = v, rw_clock = clock, rw_hint_for = None\<rparr>) w of
                  (Some r, w1) \<Rightarrow>
                    (Inr (if rwr_success r then 0 else 1,
                       ''replicate-write key='' @ k @ '' value='' @ v @ '' success='' @ bool_text (rwr_success r) @
                       '' outcome='' @ outcomeToString (rwr_outcome r) @ newline), w1)
                | (None, w1) \<Rightarrow> (Inr (1, []), w1))))"

definition rread_run :: "env \<Rightarrow> string \<Rightarrow> key \<Rightarrow> world \<Rightarrow> run_result \<times> world" where
  "rread_run E target k w =
     (case rpc E target (\<lambda>now nd. ReplicateRead k nd) w of
        (Some r, w1) \<Rightarrow>
          (Inr (0, ''replicate-read key='' @ k @ '' found='' @ bool_text (rrr_found r) @ '' value='' @
             (if rrr_found r then rrr_value r else []) @ '' clock='' @
             (if rrr_found r then clockToString (rrr_clock r) else []) @ newline), w1)
      | (None, w1) \<Rightarrow> (Inr (1, []), w1))"

definition put_run :: "env \<Rightarrow> string \<Rightarrow> string \<Rightarrow> world \<Rightarrow> run_result \<times> world" where
  "put_run E target kv w =
     (case split_kv kv of
        None \<Rightarrow> (Inr (1, []), w)
      | Some (k, v) \<Rightarrow>
          (case dial E (\<lambda>addr. Put E addr
                  \<lparr>pq_key = k, pq_value = v, pq_context = empty_clock, pq_forwarded = False\<rparr>) target w of
             (Some r, w1) \<Rightarrow>
               (Inr (if pr_success r then 0 else 1,
                  ''put key='' @ k @ '' value='' @ v @ '' success='' @ bool_text (pr_success r) @
                  '' acks='' @ to_string (pr_acks r) @ newline), w1)
           | (None, w1) \<Rightarrow> (Inr (1, []), w1)))"

definition get_run :: "env \<Rightarrow> string \<Rightarrow> key \<Rightarrow> world \<Rightarrow> run_result \<times> world" where
  "get_run E target k w =
     (case dial E (\<lambda>addr. Get E addr k) target w of
        (Some r, w1) \<Rightarrow>
          (Inr (0, ''get key='' @ k @ '' found='' @ bool_text (ge_found r) @ '' value='' @
             (if ge_found r then ge_value r else []) @ '' responses='' @ to_string (ge_responses r) @ newline), w1)
      | (None, w1) \<Rightarrow> (Inr (1, []), w1))"

definition ping_run :: "env \<Rightarrow> string \<Rightarrow> world \<Rightarrow> run_result \<times> world" where
  "ping_run E target w =
     (case rpc E target (\<lambda>now nd. Some (Ping nd, nd)) w of
        (Some r, w1) \<Rightarrow> (Inr (0, []), w1)
      | (None, w1) \<Rightarrow> (Inr (- 1, []), w1))"

text \<open>\<open>main\<close>: the first mode in this order wins.\<close>

definition client_main :: "env \<Rightarrow> string list \<Rightarrow> world \<Rightarrow> run_result \<times> world" where
  "client_main E argv w =
     (let a = fold client_arg (tl argv) no_args; target = ca_target a
      in if target = [] \<or> (\<not> ca_status a \<and> ca_remove a = [] \<and> ca_rwrite a = [] \<and> ca_rread a = [] \<and>
              ca_put a = [] \<and> ca_get a = [] \<and> ca_self a = [])
         then (Inr (1, []), w)
         else if ca_status a then status_run E target w
         else if ca_remove a \<noteq> [] then remove_run E target (ca_remove a) w
         else if ca_rwrite a \<noteq> [] then rwrite_run E target (ca_rwrite a) (ca_clock a) w
         else if ca_rread a \<noteq> [] then rread_run E target (ca_rread a) w
         else if ca_put a \<noteq> [] then put_run E target (ca_put a) w
         else if ca_get a \<noteq> [] then get_run E target (ca_get a) w
         else ping_run E target w)"

subsection \<open>The driver of the client library\<close>

record driver_args =
  da_seeds :: "string list"
  da_key :: string
  da_value :: string
  da_calls :: int

fun driver_arg :: "driver_args \<Rightarrow> string list \<Rightarrow> exception + driver_args" where
  "driver_arg a [] = Inr a"
| "driver_arg a (arg # argv) =
     (case eat arg ''--seeds='' of Some v \<Rightarrow> driver_arg (a\<lparr>da_seeds := da_seeds a @ getlines v\<rparr>) argv | None \<Rightarrow>
     (case eat arg ''--key='' of Some v \<Rightarrow> driver_arg (a\<lparr>da_key := v\<rparr>) argv | None \<Rightarrow>
     (case eat arg ''--value='' of Some v \<Rightarrow> driver_arg (a\<lparr>da_value := v\<rparr>) argv | None \<Rightarrow>
     (case eat arg ''--calls='' of
        Some v \<Rightarrow> (case stoi v of Inl e \<Rightarrow> Inl e | Inr n \<Rightarrow> driver_arg (a\<lparr>da_calls := n\<rparr>) argv)
      | None \<Rightarrow> driver_arg a argv))))"

text \<open>The loop of the puts, from call \<open>i\<close> on, with the lines it prints.\<close>

text \<open>\<^verbatim>\<open>driftclient.cpp\<close> has a copy of its own of \<open>clockToString\<close>.\<close>

definition driver_clockToString :: "vector_clock \<Rightarrow> string" where
  "driver_clockToString clock = comma_separated (map clock_pair (sort (counters clock)))"

lemma driver_prints_like_client: "driver_clockToString = clockToString"
  by (simp add: driver_clockToString_def clockToString_def fun_eq_iff)

fun driver_puts :: "env \<Rightarrow> key \<Rightarrow> string \<Rightarrow> nat \<Rightarrow> nat \<Rightarrow> DriftClient \<Rightarrow> world \<Rightarrow> string \<times> DriftClient \<times> world" where
  "driver_puts E k v i 0 c w = ([], c, w)"
| "driver_puts E k v i (Suc n) c w =
     (case client_put E k v c w of (r, c1, w1) \<Rightarrow>
      (case driver_puts E k v (Suc i) n c1 w1 of (out, c2, w2) \<Rightarrow>
         (''call='' @ to_string i @ '' success='' @ bool_text (pu_success r) @ '' acks='' @ to_string (pu_acks r) @
          '' context='' @ driver_clockToString (pu_context r) @ newline @ out, c2, w2)))"

definition driver_main :: "env \<Rightarrow> string list \<Rightarrow> world \<Rightarrow> run_result \<times> world" where
  "driver_main E argv w =
     (case driver_arg \<lparr>da_seeds = [], da_key = [], da_value = [], da_calls = 3\<rparr> (tl argv) of
        Inl e \<Rightarrow> (Inl e, w)
      | Inr a \<Rightarrow>
          if da_seeds a = [] \<or> da_key a = [] then (Inr (1, []), w)
          else (case connect E (da_seeds a) w of
                  (None, w1) \<Rightarrow> (Inr (1, ''connect result=failed'' @ newline), w1)
                | (Some client, w1) \<Rightarrow>
                    (case driver_puts E (da_key a) (da_value a) 0 (nat (da_calls a)) client w1 of (out, c1, w2) \<Rightarrow>
                     (case client_get E (da_key a) c1 w2 of (g, c2, w3) \<Rightarrow>
                        (Inr (0, ''connect result=succeeded'' @ newline @ out @
                           ''get found='' @ bool_text (gt_found g) @ '' value='' @ gt_value g @
                           '' responses='' @ to_string (gt_responses g) @
                           '' context='' @ driver_clockToString (gt_context g) @ newline), w3)))))"

subsection \<open>The tools keep the cluster well-formed\<close>

lemma wf_parse_pairs:
  "parse_pairs s c = Inr (ok, d) \<Longrightarrow> wf_clock c \<Longrightarrow> wf_clock d"
proof (induction s c rule: parse_pairs.induct)
  case (1 s c)
  show ?case
  proof (cases "s = [] \<or> parse_pair (takeWhile (\<lambda>c. c \<noteq> CHR '','') s) = None")
    case True
    then have "d = c" using 1(2) by (cases "s = []") (simp_all add: parse_pairs.simps [of s] parse_pairs.simps [of "[]"])
    with 1(3) show ?thesis by simp
  next
    case False
    then obtain n t where pair: "parse_pair (takeWhile (\<lambda>c. c \<noteq> CHR '','') s) = Some (n, t)" by auto
    with False 1(2) obtain x where x: "stoull t = Inr x"
      by (cases "stoull t") (auto simp: parse_pairs.simps [of s])
    let ?c = "c\<lparr>counters := AList.update n x (counters c)\<rparr>"
    have wf: "wf_clock ?c" using 1(3) by (simp add: wf_clock_def wf_intros)
    show ?thesis
    proof (cases "dropWhile (\<lambda>c. c \<noteq> CHR '','') s")
      case Nil
      with 1(2) False pair x wf show ?thesis
        by (simp add: parse_pairs.simps [of s] Let_def del: dropWhile_eq_Nil_conv)
    next
      case (Cons y rest)
      with 1(2) False pair x have "parse_pairs rest ?c = Inr (ok, d)"
        by (simp add: parse_pairs.simps [of s] Let_def)
      with 1(1) False pair x Cons wf show ?thesis by auto
    qed
  qed
qed

lemma wf_parseClockArg: "parseClockArg s empty_clock = Inr (ok, d) \<Longrightarrow> wf_clock d"
  by (auto simp: parseClockArg_def wf_intros split: if_splits dest: wf_parse_pairs)

lemma wf_rpc_observe:
  "rpc E t (\<lambda>now nd. Some (f nd, nd)) w = (r, w') \<Longrightarrow> wf_world T w \<Longrightarrow> wf_world T w'"
  by (rule wf_rpc [of E t "\<lambda>now nd. Some (f nd, nd)" w r w']) auto

lemma wf_status_run: "status_run E t w = (r, w') \<Longrightarrow> wf_world T w \<Longrightarrow> wf_world T w'"
  using wf_rpc_observe [where f = GetStatus]
  by (force simp: status_run_def split: prod.splits option.splits)

lemma wf_ping_run: "ping_run E t w = (r, w') \<Longrightarrow> wf_world T w \<Longrightarrow> wf_world T w'"
  using wf_rpc_observe [where f = Ping]
  by (force simp: ping_run_def split: prod.splits option.splits)

lemma wf_remove_run:
  assumes "remove_run E t n w = (r, w')" and "wf_world T w" and "tokens_disjoint T"
  shows "wf_world T w'"
proof -
  obtain x w1 where rpc: "rpc E t (\<lambda>now nd. Some (RemoveNode n now nd)) w = (x, w1)" by fastforce
  have "wf_world T w1"
    using rpc assms(2)
  proof (rule wf_rpc)
    fix now nd r nd' assume wf: "wf_node T nd" and "Some (RemoveNode n now nd) = Some (r, nd')"
    then have nd': "nd' = snd (RemoveNode n now nd)" by simp
    show "wf_node T nd' \<and> nd_id nd' = nd_id nd"
      using wf_RemoveNode [OF wf assms(3)] unfolding nd'
      by (simp add: RemoveNode_def split: option.split)
  qed
  with assms(1) rpc show ?thesis by (auto simp: remove_run_def split: option.splits)
qed

lemma wf_rwrite_run:
  assumes "rwrite_run E t kv s w = (r, w')" and "wf_world T w"
  shows "wf_world T w'"
proof (cases "w' = w")
  case False
  with assms(1) obtain k v d where p: "parseClockArg s empty_clock = Inr (True, d)"
    and fst: "\<exists>x. rpc E t (ReplicateWrite \<lparr>rw_key = k, rw_value = v, rw_clock = d, rw_hint_for = None\<rparr>) w = (x, w')"
    by (auto simp: rwrite_run_def split: option.splits sum.splits prod.splits bool.splits)
  from fst obtain x where
    rpc: "rpc E t (ReplicateWrite \<lparr>rw_key = k, rw_value = v, rw_clock = d, rw_hint_for = None\<rparr>) w = (x, w')" ..
  show ?thesis
    using rpc assms(2)
    by (rule wf_rpc)
      (use wf_ReplicateWrite same_member_ReplicateWrite wf_parseClockArg [OF p] in \<open>force simp: same_member_def\<close>)
qed (use assms(2) in simp)

lemma wf_rread_run: "rread_run E t k w = (r, w') \<Longrightarrow> wf_world T w \<Longrightarrow> wf_world T w'"
proof -
  assume run: "rread_run E t k w = (r, w')" and wf: "wf_world T w"
  obtain x w1 where rpc: "rpc E t (\<lambda>now nd. ReplicateRead k nd) w = (x, w1)" by fastforce
  have "wf_world T w1" using rpc wf by (rule wf_rpc) (use ReplicateRead_state in blast)
  with run rpc show "wf_world T w'" by (auto simp: rread_run_def split: option.splits)
qed

lemma wf_put_run:
  assumes "put_run E t kv w = (r, w')" and "wf_world T w"
  shows "wf_world T w'"
proof (cases "split_kv kv")
  case None
  with assms show ?thesis by (simp add: put_run_def)
next
  case (Some p)
  let ?req = "\<lparr>pq_key = fst p, pq_value = snd p, pq_context = empty_clock, pq_forwarded = False\<rparr>"
  obtain x w1 where d: "dial E (\<lambda>addr. Put E addr ?req) t w = (x, w1)" by fastforce
  have inv: "wf_world T (advance w) \<and> wf_clock (pq_context ?req)"
    using assms(2) by (simp add: wf_intros)
  have adv: "(wf_world T (advance x) \<and> wf_clock (pq_context ?req)) = (wf_world T x \<and> wf_clock (pq_context ?req))"
    for x by (simp add: wf_world_def)
  from puts.dial_keeps(1) [OF d inv adv] have "wf_world T w1" by blast
  with assms(1) d Some show ?thesis by (auto simp: put_run_def split: option.splits prod.splits)
qed

lemma wf_get_run:
  assumes "get_run E t k w = (r, w')" and "wf_world T w"
  shows "wf_world T w'"
proof -
  obtain x w1 where d: "dial E (\<lambda>addr. Get E addr k) t w = (x, w1)" by fastforce
  have "wf_world T (advance x) = wf_world T x" for x by (simp add: wf_world_def)
  from gets.dial_keeps(1) [OF d wf_advance [OF assms(2)] this] have "wf_world T w1" .
  with assms(1) d show ?thesis by (auto simp: get_run_def split: option.splits)
qed

lemmas wf_modes = wf_status_run wf_remove_run wf_rwrite_run wf_rread_run wf_put_run wf_get_run wf_ping_run

lemma wf_client_main:
  "client_main E argv w = (r, w') \<Longrightarrow> wf_world T w \<Longrightarrow> tokens_disjoint T \<Longrightarrow> wf_world T w'"
  unfolding client_main_def Let_def by (auto split: if_splits dest: wf_modes)

lemma wf_driver_puts:
  "driver_puts E k v i n c w = (out, c', w') \<Longrightarrow> wf_client c \<Longrightarrow> wf_world T w \<Longrightarrow>
   wf_client c' \<and> wf_world T w'"
proof (induction n arbitrary: i c w out c' w')
  case (Suc n)
  obtain r c1 w1 where p: "client_put E k v c w = (r, c1, w1)" by (cases "client_put E k v c w")
  obtain out2 c2 w2 where rest: "driver_puts E k v (Suc i) n c1 w1 = (out2, c2, w2)"
    by (cases "driver_puts E k v (Suc i) n c1 w1")
  from wf_client_put [OF p Suc.prems(2,3)] Suc.IH [OF rest] Suc.prems(1) p rest show ?case by simp
qed simp

lemma wf_driver_main:
  assumes "driver_main E argv w = (r, w')" and "wf_world T w"
  shows "wf_world T w'"
proof (cases "driver_arg \<lparr>da_seeds = [], da_key = [], da_value = [], da_calls = 3\<rparr> (tl argv)")
  case (Inl e)
  with assms show ?thesis by (simp add: driver_main_def)
next
  case (Inr a)
  obtain c w1 where conn: "connect E (da_seeds a) w = (c, w1)" by fastforce
  note wf1 = wf_connect [OF conn assms(2)]
  show ?thesis
  proof (cases c)
    case None
    with assms Inr conn wf1 show ?thesis by (auto simp: driver_main_def split: if_splits)
  next
    case (Some d)
    obtain out c1 w2 where puts: "driver_puts E (da_key a) (da_value a) 0 (nat (da_calls a)) d w1 = (out, c1, w2)"
      by (cases "driver_puts E (da_key a) (da_value a) 0 (nat (da_calls a)) d w1")
    obtain g c2 w3 where get: "client_get E (da_key a) c1 w2 = (g, c2, w3)"
      by (cases "client_get E (da_key a) c1 w2")
    have "wf_client c1 \<and> wf_world T w2" using wf_driver_puts [OF puts] wf1 Some by blast
    then have "wf_world T w3" using wf_client_get [OF get] by blast
    with assms Inr conn Some puts get show ?thesis by (auto simp: driver_main_def split: if_splits)
  qed
qed

subsection \<open>Properties\<close>

text \<open>
A replica written and read with the administration client: on a running replica that does not hold
the key, and with delivered calls, \<open>--replicate-write\<close> with a printed clock reports a stored write,
and \<open>--replicate-read\<close> afterwards prints the value and the very clock text that was given (for keys
without an equals sign and node ids without separators).
\<close>
theorem replicate_write_read_back:
  assumes "nodes w t = Some nd" and "isSelfRemoved nd = Some False" and "nd_kv nd k = None"
    and "fate_at E (tick w) = Delivered" and "fate_at F (tick w + 1) = Delivered"
    and "wf_clock c" and "\<forall>p \<in> set (counters c). fst p \<noteq> [] \<and> CHR '','' \<notin> set (fst p) \<and> CHR '':'' \<notin> set (fst p)"
    and "CHR ''='' \<notin> set k" and "t \<noteq> []" and "k \<noteq> []"
  shows "\<exists>w1 w2.
    client_main E [prog, ''--target='' @ t, ''--replicate-write='' @ k @ ''='' @ v, ''--clock='' @ clockToString c] w =
      (Inr (0, ''replicate-write key='' @ k @ '' value='' @ v @ '' success=true outcome=STORED'' @ newline), w1) \<and>
    client_main F [prog, ''--target='' @ t, ''--replicate-read='' @ k] w1 =
      (Inr (0, ''replicate-read key='' @ k @ '' found=true value='' @ v @ '' clock='' @ clockToString c @ newline), w2)"
proof -
  obtain d where parse: "parseClockArg (clockToString c) empty_clock = Inr (True, d)"
    and print: "clockToString d = clockToString c"
    using clock_text_parses [OF assms(6), of] assms(7) by blast
  have split: "split_kv (k @ ''='' @ v) = Some (k, v)"
    using assms(8) by (simp add: split_kv_def until_separator)
  let ?nd = "nd\<lparr>nd_kv := (nd_kv nd)(k \<mapsto> vv v d)\<rparr>"
  let ?w1 = "set_node t ?nd (advance w)"
  have "rwrite_run E t (k @ ''='' @ v) (clockToString c) w =
      (Inr (0, ''replicate-write key='' @ k @ '' value='' @ v @ '' success=true outcome=STORED'' @ newline), ?w1)"
    using assms(1-4) parse split
    by (simp add: rwrite_run_def rpc_def Let_def ReplicateWrite_def storeReplicatedWrite_def bool_text_def)
  moreover have "isSelfRemoved ?nd = Some False" using assms(2) by (simp add: isSelfRemoved_def)
  then have "rread_run F t k ?w1 =
      (Inr (0, ''replicate-read key='' @ k @ '' found=true value='' @ v @ '' clock='' @ clockToString c @ newline),
       set_node t ?nd (advance ?w1))"
    using assms(5) print
    by (simp add: rread_run_def rpc_def Let_def ReplicateRead_def localGet_def bool_text_def)
  ultimately show ?thesis
    using assms(9,10) by (simp add: client_main_def client_arg_def eat_def no_args_def)
qed

theorem replicate_write_read_back_witness:
  "\<exists>w1 w2.
    client_main calm [''client'', ''--target='' @ ''A'', ''--replicate-write='' @ ''k'' @ ''='' @ ''v'',
        ''--clock='' @ clockToString (clk [(''B'', 1)] 5 ''B'')] demo_write_world =
      (Inr (0, ''replicate-write key='' @ ''k'' @ '' value='' @ ''v'' @ '' success=true outcome=STORED'' @ newline), w1) \<and>
    client_main calm [''client'', ''--target='' @ ''A'', ''--replicate-read='' @ ''k''] w1 =
      (Inr (0, ''replicate-read key='' @ ''k'' @ '' found=true value='' @ ''v'' @ '' clock='' @
         clockToString (clk [(''B'', 1)] 5 ''B'') @ newline), w2)"
  by (rule replicate_write_read_back [OF demo_write_A])
    (simp_all add: demo_up wf_clock_def)

end
