(* ===== verification/Value_Origin.thy ===== *)
theory Value_Origin
  imports Client_Tools
begin

text \<open>
  Where versions come from: if every version held anywhere in the cluster (in a store, as a hint, in a
  waiting repair job) satisfies a predicate of its key, its value and its clock, and every write satisfies
  it, then every operation keeps it so.  With the predicate "this value was written under this key", reads
  never invent values; the step relation draws that conclusion.  With the predicate "a version with this
  clock is this version", acknowledged values are never replaced by others; theory \<open>Value_Safety\<close>
  draws that one.
\<close>

definition hint_version :: "HeldHint \<Rightarrow> VersionedValue" where
  "hint_version h = vv (hint_value h) (hint_clock h)"

lemma hint_version_simps [simp]:
  "vv_value (hint_version h) = hint_value h" "vv_clock (hint_version h) = hint_clock h"
  by (simp_all add: hint_version_def)

definition node_values :: "(key \<Rightarrow> VersionedValue \<Rightarrow> bool) \<Rightarrow> node \<Rightarrow> bool" where
  "node_values P nd \<longleftrightarrow> (\<forall>k v. nd_kv nd k = Some v \<longrightarrow> P k v) \<and>
     (\<forall>t hs p. nd_hints nd t = Some hs \<longrightarrow> p \<in> set hs \<longrightarrow> P (hint_key (snd p)) (hint_version (snd p)))"

definition world_values :: "(key \<Rightarrow> VersionedValue \<Rightarrow> bool) \<Rightarrow> world \<Rightarrow> bool" where
  "world_values P w \<longleftrightarrow> (\<forall>a nd. nodes w a = Some nd \<longrightarrow> node_values P nd) \<and>
     (\<forall>j \<in> set (jobs w). P (job_key j) (job_winner j))"

named_theorems value_intros \<open>what keeps the values of a node or a world\<close>

subsection \<open>One node\<close>

lemma node_values_same:
  "node_values P nd \<Longrightarrow> nd_kv nd' = nd_kv nd \<Longrightarrow> nd_hints nd' = nd_hints nd \<Longrightarrow> node_values P nd'"
  by (simp add: node_values_def)

lemma node_values_kv:
  "node_values P nd \<Longrightarrow> P k v \<Longrightarrow> node_values P (nd\<lparr>nd_kv := (nd_kv nd)(k \<mapsto> v)\<rparr>)"
  by (auto simp: node_values_def)

lemma node_values_put_hint:
  assumes "node_values P nd" and "P (hint_key h) (hint_version h)"
  shows "node_values P (put_hint t k h nd)"
proof -
  have upd: "set (AList.update k h hs) \<subseteq> insert (k, h) (set hs)" for hs
    by (induction hs) auto
  have "P (hint_key (snd p)) (hint_version (snd p))"
    if "nd_hints (put_hint t k h nd) u = Some hs" "p \<in> set hs" for u hs p
  proof (cases "u = t \<and> p = (k, h)")
    case True
    with assms(2) show ?thesis by simp
  next
    case False
    with that upd have "\<exists>gs. nd_hints nd u = Some gs \<and> p \<in> set gs"
      by (auto simp: put_hint_def split: if_splits option.splits)
    with assms(1) show ?thesis unfolding node_values_def by blast
  qed
  moreover have "nd_kv (put_hint t k h nd) = nd_kv nd" by (simp add: put_hint_def)
  ultimately show ?thesis using assms(1) unfolding node_values_def by metis
qed

lemma node_values_marks [value_intros]:
  "node_values P nd \<Longrightarrow> node_values P (markUnreachable p nd)"
  "node_values P nd \<Longrightarrow> node_values P (markReachable p nd)"
  by (auto elim!: node_values_same simp: markUnreachable_def markReachable_def)

lemma node_values_membership [value_intros]:
  "node_values P nd \<Longrightarrow> node_values P (snd (applyGossip inc nd))"
  "node_values P nd \<Longrightarrow> node_values P (snd (RemoveNode n now nd))"
  by (auto elim!: node_values_same simp: applyGossip_frame RemoveNode_def split: option.split)

lemma node_values_store [value_intros]:
  "node_values P nd \<Longrightarrow> P k v \<Longrightarrow> node_values P (snd (storeReplicatedWrite k v nd))"
  by (auto simp: storeReplicatedWrite_def Let_def node_values_kv split: option.split)

lemma node_values_receive:
  "node_values P nd \<Longrightarrow> P (hint_key h) (hint_version h) \<Longrightarrow> node_values P (receiveHint t h nd)"
  by (auto simp: receiveHint_alt node_values_put_hint value_intros split: option.split)

lemma node_values_own_hint:
  "node_values P nd \<Longrightarrow> P (hint_key h) (hint_version h) \<Longrightarrow> node_values P (storeOwnHint t h nd)"
  by (auto simp: storeOwnHint_def Let_def node_values_put_hint split: option.split)

lemma node_values_drop_hint [value_intros]:
  assumes "node_values P nd"
  shows "node_values P (drop_hint t k h nd)"
proof -
  have "\<exists>gs. nd_hints nd u = Some gs \<and> p \<in> set gs"
    if "nd_hints (drop_hint t k h nd) u = Some hs" "p \<in> set hs" for u hs p
    using that by (auto simp: drop_hint_def AList.delete_eq split: option.splits if_splits)
  with assms show ?thesis unfolding node_values_def drop_hint_frame by blast
qed

lemma node_values_ReplicateWrite:
  "ReplicateWrite req now nd = Some (r, nd') \<Longrightarrow> node_values P nd \<Longrightarrow> P (rw_key req) (vv (rw_value req) (rw_clock req)) \<Longrightarrow>
   node_values P nd'"
  using node_values_store [of P nd "rw_key req" "\<lparr>vv_value = rw_value req, vv_clock = rw_clock req\<rparr>"]
  by (auto simp: ReplicateWrite_def Let_def node_values_receive hint_version_def
      split: option.splits bool.splits prod.splits)

lemma node_values_new [value_intros]: "node_values P (NodeServiceImpl a V N W R now)"
  by (simp add: node_values_def NodeServiceImpl_def Let_def)

subsection \<open>Calls and fan-outs\<close>

lemma values_advance [simp]: "world_values P (advance w) = world_values P w"
  by (simp add: world_values_def)

lemma values_set_node [value_intros]:
  "world_values P w \<Longrightarrow> node_values P nd \<Longrightarrow> world_values P (set_node a nd w)"
  by (simp add: world_values_def)

lemma values_update [value_intros]:
  "world_values P w \<Longrightarrow> (\<And>nd. node_values P nd \<Longrightarrow> node_values P (f nd)) \<Longrightarrow> world_values P (update_node a f w)"
  by (auto simp: update_node_def world_values_def split: option.split)

lemma values_rpc:
  assumes "rpc E t h w = (r, w')" and "world_values P w"
    and "\<And>now nd r nd'. h now nd = Some (r, nd') \<Longrightarrow> node_values P nd \<Longrightarrow> node_values P nd'"
  shows "world_values P w'"
  using assms(1)
proof (cases rule: rpc_cases)
  case failed
  with assms(2) show ?thesis by simp
next
  case (handled nd resp nd')
  then have "node_values P nd'" using assms(2,3) unfolding world_values_def by blast
  with handled assms(2) show ?thesis by (simp add: value_intros)
qed

lemma values_rpc_write:
  "rpc E t (ReplicateWrite req) w = (r, w') \<Longrightarrow> world_values P w \<Longrightarrow> P (rw_key req) (vv (rw_value req) (rw_clock req)) \<Longrightarrow>
   world_values P w'"
  by (erule values_rpc) (auto intro: node_values_ReplicateWrite)

lemma values_task_step:
  assumes "task_step E self k v c t w = (cont, ack, w')" and "world_values P w" and "P k (vv v c)"
  shows "world_values P w'"
proof -
  obtain r w1 where r: "rpc E (pt_target t) (ReplicateWrite (task_request k v c t)) w = (r, w1)" by fastforce
  have "world_values P w1" using r assms(2) by (rule values_rpc_write) (simp add: task_request_def assms(3))
  with assms(1) r show ?thesis
    by (auto simp: task_step_def Let_def intro!: value_intros split: option.splits if_splits)
qed

lemma values_run_writes:
  assumes "run_writes E self k v c pool acks w = (n, w')" and "world_values P w" and "P k (vv v c)"
  shows "world_values P w'"
  by (rule run_writes_invariant [where P = "\<lambda>M acks x. world_values P x", OF assms(1,2)])
    (use values_task_step assms(3) in blast)

lemma values_local_write:
  assumes "local_write E self k v ctx e w = (c, w')" and "world_values P w" and "P k (vv v c)"
  shows "world_values P w'"
proof (cases "nodes w self")
  case None
  with assms show ?thesis by (simp add: local_write_def)
next
  case (Some nd)
  then have nd: "node_values P nd" using assms(2) by (simp add: world_values_def)
  show ?thesis
  proof (cases "hint_for_node_id e")
    case None
    with assms Some nd show ?thesis
      by (auto simp: local_write_def commitCoordinatedWrite_def Let_def intro!: values_set_node node_values_kv)
  next
    case (Some owner)
    with assms \<open>nodes w self = Some nd\<close> nd show ?thesis
      by (auto simp: local_write_def Let_def hint_version_def intro!: values_set_node node_values_own_hint)
  qed
qed

lemma values_coordinatePut:
  assumes "coordinatePut E self k v ctx pref W w = (resp, w')" and "world_values P w"
    and "P k (vv v (pr_context resp))"
  shows "world_values P w'"
proof -
  have "world_values P w1" if "(case find (\<lambda>e. ple_node_id e = self) pref of None \<Rightarrow> (empty_clock, 0, w)
      | Some e \<Rightarrow> (case local_write E self k v ctx e w of (c, w1) \<Rightarrow> (c, 1, w1))) = (c, acks, w1)"
      "P k (vv v c)"
    for c w1 and acks :: nat
    using that assms(2) by (auto dest: values_local_write split: option.splits prod.splits)
  with assms show ?thesis
    by (auto simp: coordinatePut_def Let_def dest!: values_run_writes split: if_splits prod.splits)
qed

lemma values_Put_forwarded:
  assumes "Put E self req w = (r, w')" and "pq_forwarded req" and "world_values P w"
    and "\<And>c. P (pq_key req) (vv (pq_value req) c)"
  shows "world_values P w'"
proof (cases "nodes w self")
  case None
  with assms show ?thesis by (simp add: Put.simps)
next
  case (Some nd)
  from Some assms(1) show ?thesis
    by (cases rule: Put_unforwarded_cases)
      (use assms values_coordinatePut in \<open>auto\<close>)
qed

lemma values_forward_loop:
  assumes "forward_loop E self ts req w = (resp, w')" and "world_values P w" and "\<And>c. P (pq_key req) (vv (pq_value req) c)"
  shows "world_values P w'"
  using assms(1,2)
proof (induction ts arbitrary: w)
  case (Cons t ts)
  obtain r w1 where put: "Put E t (req\<lparr>pq_forwarded := True\<rparr>) (advance w) = (r, w1)" by fastforce
  have w1: "world_values P w1"
    using values_Put_forwarded [OF put] Cons.prems(2) assms(3) by simp
  have mark: "world_values P (update_node self (markUnreachable t) x)" if "world_values P x" for x
    using that by (simp add: value_intros)
  have "w' = w1 \<or> (\<exists>x. world_values P x \<and> forward_loop E self ts req x = (resp, w'))"
    using Cons.prems put w1 mark [OF w1] mark [of "advance w"] by (auto split: if_splits option.splits)
  then show ?case using w1 Cons.IH by blast
qed simp

lemma values_Put:
  assumes "Put E self req w = (r, w')" and "world_values P w" and "\<And>c. P (pq_key req) (vv (pq_value req) c)"
  shows "world_values P w'"
proof (cases "nodes w self")
  case None
  with assms show ?thesis by (simp add: Put.simps)
next
  case (Some nd)
  from Some assms(1) show ?thesis
  proof (cases rule: Put_unforwarded_cases)
    case (forward resp ts)
    with assms(2,3) show ?thesis using values_forward_loop [of E self ts req "advance w"] by simp
  qed (use assms values_coordinatePut in auto)
qed

subsection \<open>Reads and repairs\<close>

lemma values_same_data:
  assumes "same_data w w'" and "world_values P w"
  shows "world_values P w'"
  unfolding world_values_def
proof (intro conjI allI impI)
  fix a nd' assume nd': "nodes w' a = Some nd'"
  have "rel_option same_node_data (nodes w a) (nodes w' a)" using assms(1) by (simp add: same_data_def)
  with nd' obtain nd where "nodes w a = Some nd" "same_node_data nd nd'"
    by (auto simp: option_rel_Some2)
  with assms(2) show "node_values P nd'"
    unfolding world_values_def same_node_data_def by (blast intro: node_values_same)
qed (use assms in \<open>auto simp: same_data_def world_values_def\<close>)

lemma values_start_repair:
  assumes "world_values P w" and "P k win"
  shows "world_values P (start_repair self k win results w)"
proof -
  have upd: "world_values P (update_node self (\<lambda>nd. snd (storeReplicatedWrite k win nd)) w)"
    using assms by (intro value_intros)
  have queue: "world_values P (x\<lparr>jobs := jobs x @ [\<lparr>job_node = self, job_key = k, job_winner = win, job_peers = ps\<rparr>]\<rparr>)"
    if "world_values P x" for x ps
    using that assms(2) by (auto simp: world_values_def)
  show ?thesis using assms(1) upd queue by (simp add: start_repair_def Let_def)
qed

lemma values_Get:
  assumes "Get E self k w = (r, w')" and "wf_world T w" and "world_values P w"
  shows "world_values P w'" and "r = Some resp \<Longrightarrow> ge_found resp \<Longrightarrow> P k (vv (ge_value resp) (ge_context resp))"
proof -
  have "world_values P w' \<and> (\<forall>resp. r = Some resp \<longrightarrow> ge_found resp \<longrightarrow> P k (vv (ge_value resp) (ge_context resp)))"
  proof (cases r)
    case None
    have "nodes w self = None"
      using Get_answers [OF assms(2)] assms(1) None by (metis not_None_eq option.distinct(1) prod.inject)
    with assms None show ?thesis by (simp add: Get_def)
  next
    case (Some resp)
    with assms(1) have "Get E self k w = (Some resp, w')" by simp
    then show ?thesis
      using assms(2)
    proof (cases rule: Get_SomeE)
      case (found nd results w1 x)
      from winner_facts(1) [OF assms(2) found(3,5)] found(3)
      obtain q nq where "nodes w q = Some nq" "nd_kv nq k = Some (winner x)"
        using found_versions_answer by blast
      with assms(3) have win: "P k (winner x)"
        unfolding world_values_def node_values_def by blast
      have "world_values P w1" using found(3) assms(3) values_same_data by (auto simp: collected_def)
      from values_start_repair [of P w1 k "winner x" self results, OF this win] found(6,7) win Some
      show ?thesis by simp
    qed (use assms(3) Some values_same_data in \<open>auto simp: collected_def get_refused_def\<close>)
  qed
  then show "world_values P w'" "r = Some resp \<Longrightarrow> ge_found resp \<Longrightarrow> P k (vv (ge_value resp) (ge_context resp))" by auto
qed

lemma values_run_job:
  assumes "world_values P w"
  shows "world_values P (run_job E i w)"
proof (cases "i < length (jobs w)")
  case True
  let ?j = "jobs w ! i" and ?w = "w\<lparr>jobs := drop_nth i (jobs w)\<rparr>"
  have vw: "world_values P ?w" using assms set_drop_nth_subset [of i "jobs w"] by (auto simp: world_values_def)
  have win: "P (job_key ?j) (job_winner ?j)" using assms True by (simp add: world_values_def)
  obtain w' where run: "run_once E (repair_step E (job_node ?j) (job_key ?j) (job_winner ?j))
      (job_peers ?j) () ?w = ((), w')"
    by (cases "run_once E (repair_step E (job_node ?j) (job_key ?j) (job_winner ?j)) (job_peers ?j) () ?w") simp
  have step: "world_values P x'"
    if "repair_step E self (job_key ?j) (job_winner ?j) p u x = (u', x')" "world_values P x" for self p u u' x x'
  proof -
    obtain s x1 where s: "rpc E p (ReplicateWrite (repair_request (job_key ?j) (job_winner ?j))) x = (s, x1)"
      by fastforce
    have "world_values P x1" using s that(2) by (rule values_rpc_write) (simp add: repair_request_def win)
    with that(1) s show ?thesis by (auto simp: repair_step_def intro!: value_intros split: option.splits)
  qed
  have "world_values P w'"
    by (rule run_once_keeps [where Q = "world_values P", OF run vw]) (blast intro: step)
  with True run show ?thesis by (simp add: run_job_def repairReplicas_def Let_def)
qed (use assms in \<open>simp add: run_job_def\<close>)

subsection \<open>Handoff and membership\<close>

lemma values_deliver_step:
  assumes "deliver_step E self t p u w = (u', w')" and "world_values P w"
    and "P (hint_key (snd p)) (hint_version (snd p))"
  shows "world_values P w'"
proof -
  obtain s w1 where s: "rpc E t (ReplicateWrite (hint_request (snd p))) w = (s, w1)" by fastforce
  have "world_values P w1" using s assms(2) by (rule values_rpc_write) (simp add: hint_request_def assms(3) [unfolded hint_version_def])
  with assms(1) s show ?thesis
    by (cases p) (auto simp: deliver_step_def intro!: value_intros split: option.splits if_splits)
qed

lemma values_deliverHints:
  assumes "world_values P w"
  shows "world_values P (deliverHints E self t w)"
proof (cases "nodes w self")
  case None
  with assms show ?thesis by (simp add: deliverHints_def)
next
  case (Some nd)
  show ?thesis
  proof (cases "nd_hints nd t")
    case None
    with Some assms show ?thesis by (simp add: deliverHints_def)
  next
    case hints: (Some hs)
    have P: "P (hint_key (snd p)) (hint_version (snd p))" if "p \<in> set hs" for p
      using assms Some hints that unfolding world_values_def node_values_def by blast
    obtain w' where run: "run_once E (deliver_step E self t) hs () w = ((), w')"
      by (cases "run_once E (deliver_step E self t) hs () w") simp
    have "world_values P w'"
      by (rule run_once_keeps [where Q = "world_values P", OF run assms])
        (use values_deliver_step P in blast)
    with Some hints run show ?thesis by (simp add: deliverHints_def)
  qed
qed

lemma values_settle: "world_values P w \<Longrightarrow> world_values P (settle_peers E self ps answered w)"
  by (induction ps arbitrary: w) (simp_all add: values_deliverHints value_intros)

lemma values_observe:
  "rpc E t (\<lambda>now nd. Some (f nd, nd)) w = (r, w') \<Longrightarrow> world_values P w \<Longrightarrow> world_values P w'"
  by (rule values_rpc [of E t "\<lambda>now nd. Some (f nd, nd)" w r w']) auto

lemma values_reachabilityRound:
  assumes "world_values P w"
  shows "world_values P (reachabilityRound E self w)"
proof (cases "nodes w self")
  case None
  with assms show ?thesis by (simp add: reachabilityRound_def)
next
  case (Some nd)
  obtain ans w1 where run: "run_once E (probe_step E) (unreachableSnapshot nd) [] w = (ans, w1)" by fastforce
  have "world_values P w1"
  proof (rule run_once_keeps [where Q = "world_values P", OF run assms])
    fix p res x res1 x1 assume "world_values P x" "probe_step E p res x = (res1, x1)"
    then show "world_values P x1"
      using values_observe [where f = Ping]
      by (fastforce simp: probe_step_def pingPeer_def split: prod.splits)
  qed
  with Some run assms show ?thesis by (simp add: reachabilityRound_def Let_def values_settle)
qed

lemma values_SendGossip:
  assumes "SendGossip E self peer tbl w = (r, w')" and "world_values P w"
  shows "world_values P w'"
proof -
  let ?h = "\<lambda>now nd. Some (GossipExchange \<lparr>gq_sender = self, gq_table = tbl\<rparr> nd)"
  obtain s w1 where s: "rpc E peer ?h w = (s, w1)" by fastforce
  have snd: "snd (GossipExchange \<lparr>gq_sender = self, gq_table = tbl\<rparr> nd) = snd (applyGossip tbl nd)" for nd
    by (simp add: GossipExchange_def split: prod.split)
  have "world_values P w1"
    using s assms(2)
  proof (rule values_rpc)
    fix now nd r nd'
    assume "Some (GossipExchange \<lparr>gq_sender = self, gq_table = tbl\<rparr> nd) = Some (r, nd')" "node_values P nd"
    then show "node_values P nd'" using snd [of nd] node_values_membership(1) by fastforce
  qed
  with assms(1) s show ?thesis
    by (auto simp: SendGossip_def intro!: value_intros split: option.splits)
qed

lemma values_apply_response: "world_values P w \<Longrightarrow> world_values P (apply_response self resp w)"
  unfolding apply_response_def by (intro value_intros)

lemma values_gossipRound:
  assumes "world_values P w"
  shows "world_values P (gossipRound E self w)"
  using assms values_SendGossip [of E self _ _ "advance w"] values_apply_response
  by (fastforce simp: gossipRound_def split: option.split prod.split)

lemma values_try_seeds:
  "try_seeds E self seeds w = (ok, w') \<Longrightarrow> world_values P w \<Longrightarrow> world_values P w'"
proof (induction seeds arbitrary: w)
  case (Cons s seeds)
  show ?case
  proof (cases "nodes w self")
    case None
    with Cons.prems show ?thesis by simp
  next
    case (Some nd)
    obtain r w1 where r: "SendGossip E self s (nd_table nd) w = (r, w1)" by fastforce
    have v: "world_values P w1" using r Cons.prems(2) by (rule values_SendGossip)
    with Cons.prems(1) Some r Cons.IH [OF _ v] values_apply_response [OF v] show ?thesis
      by (auto split: option.splits)
  qed
qed simp

lemma values_bootstrap:
  assumes "bootstrapFromSeed E self seeds w = (ok, w')" and "world_values P w"
  shows "world_values P w'"
proof -
  have "bootstrap_passes n E self seeds w = (ok, w') \<Longrightarrow> world_values P w \<Longrightarrow> world_values P w'" for n w
    by (induction n arbitrary: w) (auto split: prod.splits bool.splits dest: values_try_seeds)
  with assms show ?thesis by (auto simp: bootstrapFromSeed_def)
qed

subsection \<open>Processes and clients\<close>

lemma values_stop_process [value_intros]: "world_values P w \<Longrightarrow> world_values P (stop_process a w)"
  by (simp add: world_values_def stop_process_def)

lemma values_node_main:
  assumes "node_main E argv w = (r, w')" and "world_values P w"
  shows "world_values P w'"
  using assms(1)
proof (cases rule: node_main_cases)
  case refused
  with assms(2) show ?thesis by simp
next
  case (launched N W R V ok w1)
  have "world_values P (launch_service E (na_listen (parse_args argv)) V N W R w)"
    unfolding launch_service_def using assms(2) by (intro value_intros) simp
  then have "world_values P w1"
    using launched(4) values_bootstrap by (auto simp: join_seeds_def split: if_splits)
  then show ?thesis using launched(5) by (auto intro: value_intros)
qed

interpretation put_values: failover "\<lambda>addr. Put E addr req"
    "\<lambda>w. world_values P w \<and> (\<forall>c. P (pq_key req) (vv (pq_value req) c))" "\<lambda>_. True"
  for E req P
  by unfold_locales (use values_Put in blast)+

interpretation get_values: failover "\<lambda>addr. Get E addr k" "\<lambda>w. wf_world T w \<and> world_values P w"
    "\<lambda>resp. ge_found resp \<longrightarrow> P k (vv (ge_value resp) (ge_context resp))"
  for E k T P
  by unfold_locales (use wf_Get values_Get(1) in blast, elim conjE, intro impI, rule values_Get(2) [OF _ _ _ refl])

lemma values_client_put:
  assumes "client_put E k v c w = (r, c', w')" and "world_values P w" and "\<And>d. P k (vv v d)"
  shows "world_values P w'"
proof -
  let ?req = "client_request c k v" and ?order = "attempt_order (fst (nextStart c)) (dc_seeds c)"
  obtain s w1 where run: "attempt_seeds (dial E (\<lambda>addr. Put E addr ?req)) ?order w = (s, w1)" by fastforce
  have "world_values P w \<and> (\<forall>c. P (pq_key ?req) (vv (pq_value ?req) c))" using assms by (simp add: client_request_def)
  from put_values.attempts_keep [OF run this] have "world_values P w1" by simp
  with assms(1) run show ?thesis by (auto simp: client_put_def nextStart_def split: option.splits)
qed

lemma values_client_get:
  assumes "client_get E k c w = (r, c', w')" and "wf_world T w" and "world_values P w"
  shows "world_values P w'" and "gt_found r \<Longrightarrow> P k (vv (gt_value r) (gt_context r))"
proof -
  let ?order = "attempt_order (fst (nextStart c)) (dc_seeds c)"
  obtain s w1 where run: "attempt_seeds (dial E (\<lambda>addr. Get E addr k)) ?order w = (s, w1)" by fastforce
  have adv: "(wf_world T (advance x) \<and> world_values P (advance x)) = (wf_world T x \<and> world_values P x)" for x
    by (simp add: wf_world_def)
  note keep = get_values.attempts_keep [OF run conjI [OF assms(2,3)] adv]
  with assms(1) run show "world_values P w'"
    by (auto simp: client_get_def nextStart_def split: option.splits)
  show "P k (vv (gt_value r) (gt_context r))" if "gt_found r"
    using keep assms(1) run that by (auto simp: client_get_def nextStart_def split: option.splits)
qed

text \<open>The pairs of key and value that a command line of the administration client can write.\<close>

definition written_by :: "string list \<Rightarrow> (key \<times> string) set" where
  "written_by argv =
     (let a = fold client_arg (tl argv) no_args
      in set_option (split_kv (ca_rwrite a)) \<union> set_option (split_kv (ca_put a)))"

lemma values_rwrite_run:
  assumes "rwrite_run E t kv s w = (r, w')" and "world_values P w"
    and "\<And>k v c. split_kv kv = Some (k, v) \<Longrightarrow> P k (vv v c)"
  shows "world_values P w'"
proof (cases "w' = w")
  case False
  with assms(1) obtain k v d x where kv: "split_kv kv = Some (k, v)"
    and rpc: "rpc E t (ReplicateWrite \<lparr>rw_key = k, rw_value = v, rw_clock = d, rw_hint_for = None\<rparr>) w = (x, w')"
    by (auto simp: rwrite_run_def split: option.splits sum.splits prod.splits bool.splits)
  show ?thesis using rpc assms(2) by (rule values_rpc_write) (simp add: assms(3) [OF kv])
qed (use assms(2) in simp)

lemma values_rread_run: "rread_run E t k w = (r, w') \<Longrightarrow> world_values P w \<Longrightarrow> world_values P w'"
proof -
  assume run: "rread_run E t k w = (r, w')" and vals: "world_values P w"
  obtain x w1 where rpc: "rpc E t (\<lambda>now nd. ReplicateRead k nd) w = (x, w1)" by fastforce
  have "world_values P w1" using rpc vals by (rule values_rpc) (use ReplicateRead_state in blast)
  with run rpc show "world_values P w'" by (auto simp: rread_run_def split: option.splits)
qed

lemma values_remove_run: "remove_run E t n w = (r, w') \<Longrightarrow> world_values P w \<Longrightarrow> world_values P w'"
proof -
  assume run: "remove_run E t n w = (r, w')" and vals: "world_values P w"
  obtain x w1 where rpc: "rpc E t (\<lambda>now nd. Some (RemoveNode n now nd)) w = (x, w1)" by fastforce
  have "world_values P w1"
    using rpc vals
  proof (rule values_rpc)
    fix now nd r nd' assume "Some (RemoveNode n now nd) = Some (r, nd')" "node_values P nd"
    then show "node_values P nd'" using node_values_membership(2) [of P nd n now] by simp
  qed
  with run rpc show "world_values P w'" by (auto simp: remove_run_def split: option.splits)
qed

lemma values_put_run:
  assumes "put_run E t kv w = (r, w')" and "world_values P w"
    and "\<And>k v c. split_kv kv = Some (k, v) \<Longrightarrow> P k (vv v c)"
  shows "world_values P w'"
proof (cases "split_kv kv")
  case None
  with assms show ?thesis by (simp add: put_run_def)
next
  case (Some p)
  let ?req = "\<lparr>pq_key = fst p, pq_value = snd p, pq_context = empty_clock, pq_forwarded = False\<rparr>"
  obtain x w1 where d: "dial E (\<lambda>addr. Put E addr ?req) t w = (x, w1)" by fastforce
  have "world_values P (advance w) \<and> (\<forall>c. P (pq_key ?req) (vv (pq_value ?req) c))"
    using assms(2,3) Some by simp
  from put_values.dial_keeps(1) [OF d this] have "world_values P w1" by simp
  with assms(1) d Some show ?thesis by (auto simp: put_run_def split: option.splits prod.splits)
qed

lemma values_get_run:
  assumes "get_run E t k w = (r, w')" and "wf_world T w" and "world_values P w"
  shows "world_values P w'"
proof -
  obtain x w1 where d: "dial E (\<lambda>addr. Get E addr k) t w = (x, w1)" by fastforce
  have adv: "(wf_world T (advance x) \<and> world_values P (advance x)) = (wf_world T x \<and> world_values P x)" for x
    by (simp add: wf_world_def)
  have "wf_world T (advance w) \<and> world_values P (advance w)" using assms(2,3) adv by blast
  from get_values.dial_keeps(1) [OF d this adv] have "world_values P w1" by blast
  with assms(1) d show ?thesis by (auto simp: get_run_def split: option.splits)
qed

lemma values_status_run: "status_run E t w = (r, w') \<Longrightarrow> world_values P w \<Longrightarrow> world_values P w'"
  using values_observe [where f = GetStatus] by (force simp: status_run_def split: prod.splits option.splits)

lemma values_ping_run: "ping_run E t w = (r, w') \<Longrightarrow> world_values P w \<Longrightarrow> world_values P w'"
  using values_observe [where f = Ping] by (force simp: ping_run_def split: prod.splits option.splits)

lemma values_client_main:
  assumes "client_main E argv w = (r, w')" and "wf_world T w" and "world_values P w"
    and "\<And>k v c. (k, v) \<in> written_by argv \<Longrightarrow> P k (vv v c)"
  shows "world_values P w'"
proof -
  let ?a = "fold client_arg (tl argv) no_args"
  have rw: "split_kv (ca_rwrite ?a) = Some (k, v) \<Longrightarrow> P k (vv v c)"
    and pw: "split_kv (ca_put ?a) = Some (k, v) \<Longrightarrow> P k (vv v c)" for k v c
    using assms(4) [of k v c] by (simp_all add: written_by_def)
  have "w' = w \<or> status_run E (ca_target ?a) w = (r, w') \<or> remove_run E (ca_target ?a) (ca_remove ?a) w = (r, w') \<or>
    rwrite_run E (ca_target ?a) (ca_rwrite ?a) (ca_clock ?a) w = (r, w') \<or>
    rread_run E (ca_target ?a) (ca_rread ?a) w = (r, w') \<or> put_run E (ca_target ?a) (ca_put ?a) w = (r, w') \<or>
    get_run E (ca_target ?a) (ca_get ?a) w = (r, w') \<or> ping_run E (ca_target ?a) w = (r, w')"
    using assms(1) by (auto simp: client_main_def Let_def split: if_splits)
  then show ?thesis
  proof (elim disjE)
    assume "rwrite_run E (ca_target ?a) (ca_rwrite ?a) (ca_clock ?a) w = (r, w')"
    then show ?thesis using assms(3) rw by (rule values_rwrite_run)
  next
    assume "put_run E (ca_target ?a) (ca_put ?a) w = (r, w')"
    then show ?thesis using assms(3) pw by (rule values_put_run)
  next
    assume "get_run E (ca_target ?a) (ca_get ?a) w = (r, w')"
    then show ?thesis using assms(2,3) by (rule values_get_run)
  qed (simp add: assms(3), (erule values_status_run values_remove_run values_rread_run values_ping_run,
      rule assms(3))+)
qed

end

