(* ===== verification/Cluster_System.thy ===== *)
theory Cluster_System
  imports Value_Origin
begin

text \<open>
  The whole system as a transition system: server processes start (\<open>main\<close> of
  \<^verbatim>\<open>node_main.cpp\<close>) and are killed, programs run the administration client or hold a
  \<open>DriftClient\<close>, the background loops of the servers take their rounds
  (\<^verbatim>\<open>gossipLoop\<close>, \<^verbatim>\<open>reachabilityLoop\<close>), and detached repair threads run, in any
  order and each under an environment of its own.  The third component of a state is a history that the
  programs do not have: the pairs of key and value that some client has written so far.

  \<open>A\<close> says which command lines of the administration client are run (nothing below depends on it).
  \<open>V\<close> gives the number of virtual nodes of each address; a process that is started with another
  number for the same address is outside these runs (theorem \<open>token_change_leaves_stale_owner\<close> of
  theory \<open>Ring\<close> says what can happen then).
\<close>

record system =
  servers :: world
  programs :: "nat \<rightharpoonup> DriftClient"
  written :: "(key \<times> string) set"

definition empty_system :: system where
  "empty_system = \<lparr>servers = no_process, programs = Map.empty, written = {}\<rparr>"

inductive system_step :: "(string list \<Rightarrow> bool) \<Rightarrow> (node_id \<Rightarrow> int) \<Rightarrow> system \<Rightarrow> system \<Rightarrow> bool" for A V where
  start: "nodes (servers s) (na_listen (parse_args argv)) = None \<Longrightarrow>
    \<forall>n. stoi (na_vnodes (parse_args argv)) = Inr n \<longrightarrow> n = V (na_listen (parse_args argv)) \<Longrightarrow>
    node_main E argv (servers s) = (r, w') \<Longrightarrow> system_step A V s (s\<lparr>servers := w'\<rparr>)"
| kill: "system_step A V s (s\<lparr>servers := stop_process a (servers s)\<rparr>)"
| command: "A argv \<Longrightarrow> client_main E argv (servers s) = (r, w') \<Longrightarrow>
    system_step A V s (s\<lparr>servers := w', written := written s \<union> written_by argv\<rparr>)"
| connect: "connect E seeds (servers s) = (c, w') \<Longrightarrow>
    system_step A V s (s\<lparr>servers := w', programs := (programs s)(i := c)\<rparr>)"
| put: "programs s i = Some c \<Longrightarrow> client_put E k v c (servers s) = (res, c', w') \<Longrightarrow>
    system_step A V s (s\<lparr>servers := w', programs := (programs s)(i \<mapsto> c'), written := insert (k, v) (written s)\<rparr>)"
| get: "programs s i = Some c \<Longrightarrow> client_get E k c (servers s) = (got, c', w') \<Longrightarrow>
    system_step A V s (s\<lparr>servers := w', programs := (programs s)(i \<mapsto> c')\<rparr>)"
| repair: "system_step A V s (s\<lparr>servers := run_job E i (servers s)\<rparr>)"
| gossip: "system_step A V s (s\<lparr>servers := gossipRound E a (servers s)\<rparr>)"
| probe: "system_step A V s (s\<lparr>servers := reachabilityRound E a (servers s)\<rparr>)"

inductive reachable :: "(string list \<Rightarrow> bool) \<Rightarrow> (node_id \<Rightarrow> int) \<Rightarrow> system \<Rightarrow> bool" for A V where
  initial: "reachable A V empty_system"
| step: "reachable A V s \<Longrightarrow> system_step A V s t \<Longrightarrow> reachable A V t"

inductive_cases system_stepE: "system_step A V s t"

definition tokens_of :: "(node_id \<Rightarrow> int) \<Rightarrow> node_id \<Rightarrow> u64 set" where
  "tokens_of V n = set (computeTokens n (V n))"

subsection \<open>Well-formed systems\<close>

definition wf_system :: "(node_id \<Rightarrow> int) \<Rightarrow> system \<Rightarrow> bool" where
  "wf_system V s \<longleftrightarrow> wf_world (tokens_of V) (servers s) \<and>
     (\<forall>i c. programs s i = Some c \<longrightarrow> wf_client c) \<and>
     world_values (\<lambda>k v. (k, vv_value v) \<in> written s) (servers s)"

lemma wf_systemI:
  "wf_world (tokens_of V) w \<Longrightarrow> world_values (\<lambda>k v. (k, vv_value v) \<in> W) w \<Longrightarrow>
   (\<And>i c. ps i = Some c \<Longrightarrow> wf_client c) \<Longrightarrow> wf_system V \<lparr>servers = w, programs = ps, written = W\<rparr>"
  by (simp add: wf_system_def)

lemma values_mono: "world_values P w \<Longrightarrow> (\<And>k v. P k v \<Longrightarrow> Q k v) \<Longrightarrow> world_values Q w"
  unfolding world_values_def node_values_def by blast

lemma wf_system_servers:
  assumes "wf_system V s" and "wf_world (tokens_of V) w" and "world_values (\<lambda>k v. (k, vv_value v) \<in> written s) w"
  shows "wf_system V (s\<lparr>servers := w\<rparr>)"
  using assms by (simp add: wf_system_def)

lemma wf_reachabilityRound:
  "wf_world T w \<Longrightarrow> wf_world T (reachabilityRound E a w)"
  using reachabilityRound_safe(1) [of T w a] by (cases "nodes w a") (auto simp: reachabilityRound_def)

lemma values_connect:
  assumes "connect E seeds w = (c, w')" and "world_values P w"
  shows "world_values P w'"
proof -
  have "first_alive E addrs w = (ok, w1) \<Longrightarrow> world_values P w \<Longrightarrow> world_values P w1" for addrs ok w w1
  proof (induction addrs arbitrary: w)
    case (Cons a addrs)
    obtain r w2 where r: "rpc E a (\<lambda>now nd. Some (Ping nd, nd)) w = (r, w2)" by fastforce
    have "world_values P w2" using r Cons.prems(2) by (rule values_observe)
    with Cons r show ?case by (auto simp: pingAddr_def split: bool.splits)
  qed simp
  with assms show ?thesis by (auto simp: connect_def split: if_splits prod.splits bool.splits)
qed

lemma wf_system_step:
  assumes "system_step A V s t" and "wf_system V s" and "tokens_disjoint (tokens_of V)"
  shows "wf_system V t"
  using assms(1)
proof cases
  case (start argv E r w')
  have "wf_world (tokens_of V) w'"
  proof (rule node_main_wf [OF start(4) _ assms(3)])
    show "wf_world (tokens_of V) (servers s)" using assms(2) by (simp add: wf_system_def)
    show "\<forall>n. stoi (na_vnodes (parse_args argv)) = Inr n \<longrightarrow>
        tokens_of V (na_listen (parse_args argv)) = set (computeTokens (na_listen (parse_args argv)) n)"
      using start(3) by (simp add: tokens_of_def)
  qed
  with start assms(2) values_node_main show ?thesis by (auto simp: wf_system_def)
next
  case (kill a)
  with assms(2) show ?thesis by (simp add: wf_system_def wf_stop_process values_stop_process)
next
  case (command argv E r w')
  have "world_values (\<lambda>k v. (k, vv_value v) \<in> written s \<union> written_by argv) (servers s)"
    using assms(2) by (auto simp: wf_system_def elim: values_mono)
  then have "world_values (\<lambda>k v. (k, vv_value v) \<in> written s \<union> written_by argv) w'"
    using values_client_main [OF command(3), of "tokens_of V"] assms(2) by (simp add: wf_system_def)
  with command assms wf_client_main show ?thesis by (auto simp: wf_system_def)
next
  case (connect E seeds c w' i)
  with assms(2) wf_connect [OF connect(2)] values_connect [OF connect(2)] show ?thesis
    by (auto simp: wf_system_def)
next
  case (put i c E k v res c' w')
  have "world_values (\<lambda>l x. (l, vv_value x) \<in> insert (k, v) (written s)) (servers s)"
    using assms(2) by (auto simp: wf_system_def elim: values_mono)
  then have "world_values (\<lambda>l x. (l, vv_value x) \<in> insert (k, v) (written s)) w'"
    using values_client_put [OF put(3)] by simp
  moreover have "wf_client c' \<and> wf_world (tokens_of V) w'"
    using wf_client_put [OF put(3)] assms(2) put(2) by (auto simp: wf_system_def)
  ultimately show ?thesis using put assms(2) by (auto simp: wf_system_def)
next
  case (get i c E k got c' w')
  have "wf_client c' \<and> wf_world (tokens_of V) w'"
    using wf_client_get [OF get(3)] assms(2) get(2) by (auto simp: wf_system_def)
  moreover have "world_values (\<lambda>k v. (k, vv_value v) \<in> written s) w'"
    using values_client_get(1) [OF get(3)] assms(2) by (auto simp: wf_system_def)
  ultimately show ?thesis using get assms(2) by (auto simp: wf_system_def)
next
  case (repair E i)
  with assms(2) show ?thesis by (simp add: wf_system_def wf_run_job values_run_job)
next
  case (gossip E a)
  with assms(2,3) show ?thesis by (simp add: wf_system_def wf_gossipRound values_gossipRound)
next
  case (probe E a)
  with assms(2) show ?thesis by (simp add: wf_system_def wf_reachabilityRound values_reachabilityRound)
qed

lemma reachable_wf: "reachable A V s \<Longrightarrow> tokens_disjoint (tokens_of V) \<Longrightarrow> wf_system V s"
proof (induction rule: reachable.induct)
  case initial
  show ?case by (simp add: wf_system_def empty_system_def no_process_def wf_world_def world_values_def)
next
  case (step s t)
  then show ?case using wf_system_step by blast
qed

subsection \<open>Properties\<close>

lemma reachable_node:
  assumes "reachable A V s" and "tokens_disjoint (tokens_of V)" and "nodes (servers s) a = Some nd"
  shows "wf_node (tokens_of V) nd" and "nd_id nd = a" and "wf_member (tokens_of V) nd"
  using reachable_wf [OF assms(1,2)] wf_worldD [OF _ assms(3)] by (auto simp: wf_system_def wf_node_def)

text \<open>
C25. Wherever the system can get to, by starts and kills, client commands, lost calls and background
rounds in any order, every preference list that a server computes for its replication factor has
distinct entries, at most \<open>N\<close>, on nodes that the server considers reachable, and every node it
names, also as the target of a hint, is listed as \<open>UP\<close> in the server's table.
\<close>
theorem reachable_preference_lists:
  assumes "reachable A V s" and "tokens_disjoint (tokens_of V)" and "nodes (servers s) a = Some nd"
  shows "distinct (map ple_node_id (preferenceListForKey nd k (nd_N nd))) \<and>
    int (length (preferenceListForKey nd k (nd_N nd))) \<le> nd_N nd \<and>
    (\<forall>e \<in> set (preferenceListForKey nd k (nd_N nd)). ple_node_id e \<notin> set (nd_unreachable nd) \<and>
       (\<forall>n \<in> insert (ple_node_id e) (set_option (hint_for_node_id e)).
          \<exists>m. map_of (nd_table nd) n = Some m \<and> status m = UP))"
proof -
  note wf = reachable_node(3) [OF assms]
  have "ring_ok (nd_table nd) (nd_ring nd)" "0 \<le> nd_N nd"
    using wf by (auto simp: wf_member_def valid_quorum_def)
  then show ?thesis
    using preferenceList_only_up [of "nd_table nd" "nd_ring nd"]
      preference_reachable [of _ "nd_ring nd" "key_hash k" "nd_N nd" "\<lambda>n. n \<notin> set (nd_unreachable nd)"]
    by (auto simp: preferenceListForKey_def unreachableSnapshot_def Let_def preference_ids_distinct
        preference_length)
qed

text \<open>
C18. No handler of a running server ever throws in a reachable system, for any request: the lookups of the
own entry succeed and the assertions of the conflict resolution hold, so reads, writes and the replica
calls all come back with a response.
\<close>
theorem reachable_handlers_answer:
  assumes "reachable A V s" and "tokens_disjoint (tokens_of V)" and "nodes (servers s) a = Some nd"
  shows "(\<exists>r w'. Put E a req (servers s) = (Some r, w')) \<and> (\<exists>r w'. Get E a k (servers s) = (Some r, w')) \<and>
    (\<exists>r nd'. ReplicateWrite wreq now nd = Some (r, nd')) \<and> (\<exists>r nd'. ReplicateRead k nd = Some (r, nd'))"
proof -
  have wf: "wf_world (tokens_of V) (servers s)" using reachable_wf [OF assms(1,2)] by (simp add: wf_system_def)
  obtain b where "isSelfRemoved nd = Some b" using isSelfRemoved_total reachable_node(3) [OF assms] by blast
  then have "\<exists>r nd'. ReplicateWrite wreq now nd = Some (r, nd')" "\<exists>r nd'. ReplicateRead k nd = Some (r, nd')"
    by (auto simp: ReplicateWrite_def ReplicateRead_def Let_def split: bool.split option.split prod.split)
  with Put_answers [OF wf assms(3)] Get_answers [OF wf assms(3)] show ?thesis by blast
qed

text \<open>
C7. Reads never invent values: in a reachable system, whatever a client's \<open>get\<close> finds under a key,
through whichever seed, after any failovers and lost calls, is a value that some client has written
under that very key before.
\<close>
theorem reads_return_written_values:
  assumes "reachable A V s" and "tokens_disjoint (tokens_of V)"
    and "client_get E k c (servers s) = (got, c', w')" and "gt_found got"
  shows "(k, gt_value got) \<in> written s"
proof -
  have "wf_world (tokens_of V) (servers s)" "world_values (\<lambda>k v. (k, vv_value v) \<in> written s) (servers s)"
    using reachable_wf [OF assms(1,2)] by (auto simp: wf_system_def)
  from values_client_get(2) [OF assms(3) this assms(4)] show ?thesis by simp
qed

subsection \<open>A run\<close>

text \<open>One server is started, a program connects to it and writes: the run on which the witnesses rest.\<close>

definition solo_V :: "node_id \<Rightarrow> int" where
  "solo_V n = (if n = ''A'' then 1 else 0)"

definition solo_args :: "string list" where
  "solo_args = [''node'', ''--listen=A'', ''--vnodes=1'', ''--N=1'', ''--W=1'', ''--R=1'']"

definition solo_node :: "(key \<rightharpoonup> VersionedValue) \<Rightarrow> node" where
  "solo_node kv = (NodeServiceImpl ''A'' 1 1 1 1 0)\<lparr>nd_kv := kv\<rparr>"

definition solo_client :: "u64 \<Rightarrow> (key \<rightharpoonup> vector_clock) \<Rightarrow> DriftClient" where
  "solo_client n ctx = \<lparr>dc_seeds = [''A''], dc_calls = n, dc_context = ctx\<rparr>"

lemma solo_simps [simp]:
  "nd_id (solo_node kv) = ''A''" "nd_unreachable (solo_node kv) = []" "nd_kv (solo_node kv) = kv"
  "nd_N (solo_node kv) = 1" "nd_W (solo_node kv) = 1" "nd_R (solo_node kv) = 1"
  "isSelfRemoved (solo_node kv) = Some False" "(solo_node kv)\<lparr>nd_kv := kv'\<rparr> = solo_node kv'"
  by (simp_all add: solo_node_def NodeServiceImpl_def Let_def isSelfRemoved_def)

lemma solo_ring: "\<exists>t. nd_ring (solo_node kv) = [(t, ''A'')]"
  by (simp add: solo_node_def NodeServiceImpl_def Let_def computeTokens_def put_tokens_def)

lemma solo_preference: "preferenceListForKey (solo_node kv) k 1 = [natural_entry ''A'']"
proof -
  obtain t where "nd_ring (solo_node kv) = [(t, ''A'')]" using solo_ring by blast
  moreover have "clockwise [(t, ''A'')] h = [''A'']" for h
    by (auto simp: clockwise_def upper_bound_def nub_def)
  ultimately show ?thesis
    by (simp add: preferenceListForKey_def unreachableSnapshot_def preferenceList_eq_spec
        preference_spec_def natural_owners_def)
qed

lemma tokens_disjoint_solo: "tokens_disjoint (tokens_of solo_V)"
  by (auto simp: tokens_disjoint_def tokens_of_def solo_V_def computeTokens_def)

definition solo_world :: "(key \<rightharpoonup> VersionedValue) \<Rightarrow> nat \<Rightarrow> world" where
  "solo_world kv n = \<lparr>nodes = [''A'' \<mapsto> solo_node kv], jobs = [], tick = n\<rparr>"

lemma solo_world_simps [simp]:
  "nodes (solo_world kv n) = [''A'' \<mapsto> solo_node kv]" "jobs (solo_world kv n) = []" "tick (solo_world kv n) = n"
  "advance (solo_world kv n) = solo_world kv (Suc n)"
  "set_node ''A'' (solo_node kv') (solo_world kv n) = solo_world kv' n"
  by (simp_all add: solo_world_def advance_def set_node_def)

definition solo_clock :: vector_clock where
  "solo_clock = buildNewClock (Some empty_clock) None ''A'' 3"

lemma solo_args_parsed: "parse_args solo_args =
  default_args\<lparr>na_listen := ''A'', na_vnodes := ''1'', na_N := ''1'', na_W := ''1'', na_R := ''1''\<rparr>"
  by (simp add: parse_args_def solo_args_def node_arg_def eat_def)

lemma solo_start: "node_main calm solo_args no_process = (Serving, solo_world Map.empty 1)"
proof -
  have "launch_service calm ''A'' 1 1 1 1 no_process = solo_world Map.empty 1"
    by (simp add: launch_service_def no_process_def solo_world_def solo_node_def advance_def set_node_def
        NodeServiceImpl_def Let_def)
  then show ?thesis
    by (simp add: node_main_def solo_args_parsed lone_numbers default_args_def quorum_config_def
        valid_quorum_def join_seeds_def splitSeeds_def getlines.simps intervals_parse_def Let_def)
qed

lemma solo_connect: "connect calm [''A''] (solo_world kv n) = (Some (solo_client 0 Map.empty), solo_world kv (Suc n))"
  by (simp add: connect_def pingAddr_def rpc_def Let_def solo_client_def)

lemma solo_put: "client_put calm ''k'' ''v'' (solo_client 0 Map.empty) (solo_world Map.empty 2) =
  (\<lparr>pu_success = True, pu_acks = 1, pu_context = solo_clock\<rparr>,
   solo_client 1 [''k'' \<mapsto> solo_clock], solo_world [''k'' \<mapsto> vv ''v'' solo_clock] 4)"
proof -
  have "Put calm ''A'' (client_request (solo_client 0 Map.empty) ''k'' ''v'') (solo_world Map.empty 3) =
    (Some \<lparr>pr_success = True, pr_acks = 1, pr_context = solo_clock\<rparr>, solo_world [''k'' \<mapsto> vv ''v'' solo_clock] 4)"
    by (simp add: Put.simps Let_def solo_preference client_request_def solo_client_def coordinatePut_def
        local_write_def commitCoordinatedWrite_def run_writes.simps solo_clock_def)
  moreover have "counters solo_clock \<noteq> []"
    by (simp add: solo_clock_def buildNewClock_def Let_def)
  ultimately show ?thesis
    by (simp add: client_put_def nextStart_def attempt_order_def dial_def remember_put_def
        solo_client_def numeral_3_eq_3)
qed

lemma solo_get: "\<exists>c' w'. client_get calm ''k'' (solo_client 1 [''k'' \<mapsto> solo_clock])
    (solo_world [''k'' \<mapsto> vv ''v'' solo_clock] 4) =
  (\<lparr>gt_found = True, gt_value = ''v'', gt_responses = 1, gt_context = solo_clock\<rparr>, c', w')"
  by (simp add: client_get_def nextStart_def attempt_order_def dial_def solo_client_def Get_def Let_def
      solo_preference local_result_def localGet_def found_versions_def resolveGetResult_def computeFrontier_def)

definition solo_system :: system where
  "solo_system = \<lparr>servers = solo_world [''k'' \<mapsto> vv ''v'' solo_clock] 4,
     programs = [0 \<mapsto> solo_client 1 [''k'' \<mapsto> solo_clock]], written = {(''k'', ''v'')}\<rparr>"

lemma reachable_solo: "reachable A solo_V solo_system"
proof -
  have "system_step A solo_V empty_system (empty_system\<lparr>servers := solo_world Map.empty 1\<rparr>)"
  proof (rule start [where argv = solo_args])
    show "node_main calm solo_args (servers empty_system) = (Serving, solo_world Map.empty 1)"
      using solo_start by (simp add: empty_system_def)
  qed (simp_all add: empty_system_def no_process_def solo_args_parsed default_args_def lone_numbers solo_V_def)
  then have "reachable A solo_V \<lparr>servers = solo_world Map.empty 1, programs = Map.empty, written = {}\<rparr>"
    using initial step by (fastforce simp: empty_system_def)
  moreover have "system_step A solo_V \<lparr>servers = solo_world Map.empty 1, programs = Map.empty, written = {}\<rparr>
      \<lparr>servers = solo_world Map.empty 2, programs = [0 \<mapsto> solo_client 0 Map.empty], written = {}\<rparr>"
    using connect [of calm "[''A'']" "\<lparr>servers = solo_world Map.empty 1, programs = Map.empty, written = {}\<rparr>"
        "Some (solo_client 0 Map.empty)" "solo_world Map.empty 2" A solo_V 0] solo_connect [of Map.empty 1]
    by (simp add: numeral_2_eq_2)
  moreover have "system_step A solo_V
      \<lparr>servers = solo_world Map.empty 2, programs = [0 \<mapsto> solo_client 0 Map.empty], written = {}\<rparr> solo_system"
    using put [of "\<lparr>servers = solo_world Map.empty 2, programs = [0 \<mapsto> solo_client 0 Map.empty], written = {}\<rparr>"
        0 _ calm "''k''" "''v''", OF _ _] solo_put
    by (simp add: solo_system_def)
  ultimately show ?thesis using step by blast
qed

theorem reachable_preference_lists_witness:
  "\<exists>m. map_of (nd_table (solo_node [''k'' \<mapsto> vv ''v'' solo_clock])) ''A'' = Some m \<and> status m = UP"
  using reachable_preference_lists [OF reachable_solo tokens_disjoint_solo, of "''A''"
      "solo_node [''k'' \<mapsto> vv ''v'' solo_clock]" "''k''"]
  by (simp add: solo_system_def solo_preference)

theorem reachable_handlers_answer_witness:
  "\<exists>r w'. Get calm ''A'' ''other'' (servers solo_system) = (Some r, w')"
  using reachable_handlers_answer [OF reachable_solo tokens_disjoint_solo, of "''A''"
      "solo_node [''k'' \<mapsto> vv ''v'' solo_clock]" calm _ "''other''"]
  by (simp add: solo_system_def)

theorem reads_return_written_values_witness:
  "\<exists>c' w' got. client_get calm ''k'' (solo_client 1 [''k'' \<mapsto> solo_clock]) (servers solo_system) = (got, c', w') \<and>
     gt_found got \<and> (''k'', gt_value got) \<in> written solo_system"
proof -
  obtain c' w' where get: "client_get calm ''k'' (solo_client 1 [''k'' \<mapsto> solo_clock]) (servers solo_system) =
      (\<lparr>gt_found = True, gt_value = ''v'', gt_responses = 1, gt_context = solo_clock\<rparr>, c', w')"
    using solo_get by (auto simp: solo_system_def)
  from reads_return_written_values [OF reachable_solo tokens_disjoint_solo get] get show ?thesis by simp
qed

end

