(* ===== verification/Interleaving.thy ===== *)
theory Interleaving
  imports Cluster_System
begin

text \<open>
  The handlers and threads of the servers interleave at their locked sections.  Here every critical
  section of \<^verbatim>\<open>node_kv.cpp\<close>, \<^verbatim>\<open>node_membership.cpp\<close> and
  \<^verbatim>\<open>node_reachability.cpp\<close> that changes the state of a server is one step of its own,
  and steps of any servers, handlers and threads follow one another in any order: coordinated writes in
  the middle of one another, replicas that get a write late, twice or never, a read repair that overtakes
  the write after it, servers that stop and start again.  Between two sections a thread only holds copies:
  the version that it coordinates, the version that a replica has answered, the copy of a hint or of a
  table.  These copies are in flight until they are delivered, to whatever server, any number of times.

  The relation allows every interleaving of the code and more (it does not ask which servers the
  preference list names), so what it keeps, the code keeps.  \<open>minted\<close> is a history that the
  servers do not have: which coordinator has built a version for which key, newest first.
\<close>

subsection \<open>The sections\<close>

text \<open>The section of \<open>ReplicateWrite\<close> under the hint mutex, after the true owner has been marked.\<close>

definition hold_hint :: "node_id \<Rightarrow> HeldHint \<Rightarrow> node \<Rightarrow> node" where
  "hold_hint t hint nd =
     (let k = hint_key hint
      in case nd_hints nd t of
           Some hs \<Rightarrow>
             (case map_of hs k of
                Some held \<Rightarrow>
                  (let res = compareVectorClocks (hint_clock held) (hint_clock hint)
                   in if res = DOMINATED \<or> res = CONCURRENT then put_hint t k hint nd else nd)
              | None \<Rightarrow> put_hint t k hint nd)
         | None \<Rightarrow> put_hint t k hint nd)"

definition version_hint :: "key \<Rightarrow> VersionedValue \<Rightarrow> millis \<Rightarrow> HeldHint" where
  "version_hint k v now =
     \<lparr>hint_key = k, hint_value = vv_value v, hint_clock = vv_clock v, hint_created_at = now\<rparr>"

definition version_request :: "key \<Rightarrow> VersionedValue \<Rightarrow> node_id option \<Rightarrow> ReplicateWriteRequest" where
  "version_request k v t =
     \<lparr>rw_key = k, rw_value = vv_value v, rw_clock = vv_clock v, rw_hint_for = t\<rparr>"

definition request_version :: "ReplicateWriteRequest \<Rightarrow> VersionedValue" where
  "request_version req = \<lparr>vv_value = rw_value req, vv_clock = rw_clock req\<rparr>"

definition hint_version :: "HeldHint \<Rightarrow> VersionedValue" where
  "hint_version h = \<lparr>vv_value = hint_value h, vv_clock = hint_clock h\<rparr>"

subsection \<open>The cluster as a transition system\<close>

record cloud =
  live :: "node_id \<rightharpoonup> node"
  in_flight :: "ReplicateWriteRequest set"
  tables :: "MembershipTable set"
  delivered :: "(node_id \<times> ReplicateWriteRequest) set"
  minted :: "(node_id \<times> key \<times> VersionedValue) list"

definition empty_cloud :: cloud where
  "empty_cloud = \<lparr>live = Map.empty, in_flight = {}, tables = {}, delivered = {}, minted = []\<rparr>"

definition put_live :: "node_id \<Rightarrow> node \<Rightarrow> cloud \<Rightarrow> cloud" where
  "put_live a nd s = s\<lparr>live := (live s)(a \<mapsto> nd)\<rparr>"

definition known :: "cloud \<Rightarrow> key \<Rightarrow> VersionedValue \<Rightarrow> bool" where
  "known s k v \<longleftrightarrow> (k, v) \<in> snd ` set (minted s)"

definition mints_of :: "cloud \<Rightarrow> node_id \<Rightarrow> key \<Rightarrow> nat" where
  "mints_of s n k = length (filter (\<lambda>m. fst m = n \<and> fst (snd m) = k) (minted s))"

text \<open>
  \<open>C\<close> says which contexts clients send.  An honest one sends nothing, an empty clock, or the clock of
  a version of the key that it has got from an earlier answer.
\<close>

definition any_context :: "cloud \<Rightarrow> key \<Rightarrow> vector_clock option \<Rightarrow> bool" where
  "any_context s k ctx \<longleftrightarrow> wf_clock_opt ctx"

definition honest_context :: "cloud \<Rightarrow> key \<Rightarrow> vector_clock option \<Rightarrow> bool" where
  "honest_context s k ctx \<longleftrightarrow>
     (case ctx of None \<Rightarrow> True
      | Some c \<Rightarrow> c = empty_clock \<or> (k, c) \<in> (\<lambda>m. (fst (snd m), vv_clock (snd (snd m)))) ` set (minted s))"

inductive section_step :: "(cloud \<Rightarrow> key \<Rightarrow> vector_clock option \<Rightarrow> bool) \<Rightarrow> (node_id \<Rightarrow> int) \<Rightarrow> cloud \<Rightarrow> cloud \<Rightarrow> bool"
  for C V where
  start: "live s a = None \<Longrightarrow> valid_quorum N W R \<Longrightarrow>
    section_step C V s (put_live a (NodeServiceImpl a (V a) N W R now) s)"
| crash: "section_step C V s (s\<lparr>live := (live s)(a := None)\<rparr>)"
| commit: "live s a = Some nd \<Longrightarrow> C s k ctx \<Longrightarrow> commitCoordinatedWrite k v ctx now nd = (c, nd') \<Longrightarrow>
    section_step C V s (put_live a nd' (s\<lparr>minted := (a, k, \<lparr>vv_value = v, vv_clock = c\<rparr>) # minted s\<rparr>))"
| stand_in: "live s a = Some nd \<Longrightarrow> C s k ctx \<Longrightarrow> c = buildNewClock ctx None (nd_id nd) now \<Longrightarrow>
    section_step C V s (s\<lparr>minted := (a, k, \<lparr>vv_value = v, vv_clock = c\<rparr>) # minted s\<rparr>)"
| own_hint: "live s a = Some nd \<Longrightarrow> known s k v \<Longrightarrow>
    section_step C V s (put_live a (storeOwnHint t (version_hint k v now) nd) s)"
| replicate: "known s k v \<Longrightarrow>
    section_step C V s (s\<lparr>in_flight := insert (version_request k v t) (in_flight s)\<rparr>)"
| repair: "live s b = Some nd \<Longrightarrow> localGet nd k = Some v \<Longrightarrow>
    section_step C V s (s\<lparr>in_flight := insert (version_request k v None) (in_flight s)\<rparr>)"
| handoff: "live s b = Some nd \<Longrightarrow> hint_at t k nd = Some h \<Longrightarrow>
    section_step C V s (s\<lparr>in_flight := insert (hint_request h) (in_flight s)\<rparr>)"
| deliver: "live s a = Some nd \<Longrightarrow> req \<in> in_flight s \<Longrightarrow> rw_hint_for req = None \<Longrightarrow>
    section_step C V s (put_live a (snd (storeReplicatedWrite (rw_key req) (request_version req) nd))
      (s\<lparr>delivered := insert (a, req) (delivered s)\<rparr>))"
| hold: "live s a = Some nd \<Longrightarrow> req \<in> in_flight s \<Longrightarrow> rw_hint_for req = Some t \<Longrightarrow>
    section_step C V s (put_live a (hold_hint t (version_hint (rw_key req) (request_version req) now) nd) s)"
| drop: "live s a = Some nd \<Longrightarrow> (t, hint_request h) \<in> delivered s \<Longrightarrow>
    section_step C V s (put_live a (drop_hint t (hint_key h) h nd) s)"
| mark: "live s a = Some nd \<Longrightarrow> section_step C V s (put_live a (markUnreachable p nd) s)"
| unmark: "live s a = Some nd \<Longrightarrow> section_step C V s (put_live a (markReachable p nd) s)"
| remove: "live s a = Some nd \<Longrightarrow> section_step C V s (put_live a (snd (RemoveNode n now nd)) s)"
| snapshot: "live s a = Some nd \<Longrightarrow> section_step C V s (s\<lparr>tables := insert (nd_table nd) (tables s)\<rparr>)"
| gossip: "live s a = Some nd \<Longrightarrow> tbl \<in> tables s \<Longrightarrow>
    section_step C V s (put_live a (snd (applyGossip tbl nd)) s)"

inductive_cases section_stepE: "section_step C V s t"

inductive interleaved :: "(cloud \<Rightarrow> key \<Rightarrow> vector_clock option \<Rightarrow> bool) \<Rightarrow> (node_id \<Rightarrow> int) \<Rightarrow> cloud \<Rightarrow> bool"
  for C V where
  initial: "interleaved C V empty_cloud"
| step: "interleaved C V s \<Longrightarrow> section_step C V s t \<Longrightarrow> interleaved C V t"

subsection \<open>What the sections do to the versions of a server\<close>

definition node_versions :: "(key \<Rightarrow> VersionedValue \<Rightarrow> bool) \<Rightarrow> node \<Rightarrow> bool" where
  "node_versions P nd \<longleftrightarrow> (\<forall>k v. nd_kv nd k = Some v \<longrightarrow> P k v) \<and>
     (\<forall>t k h. hint_at t k nd = Some h \<longrightarrow> P k (hint_version h))"

named_theorems section_intros \<open>what the sections keep of a server\<close>

lemma version_simps [simp]:
  "hint_key (version_hint k v now) = k" "hint_clock (version_hint k v now) = vv_clock v"
  "hint_version (version_hint k v now) = v"
  "rw_key (version_request k v t) = k" "request_version (version_request k v t) = v"
  "rw_key (hint_request h) = hint_key h" "request_version (hint_request h) = hint_version h"
  by (simp_all add: version_hint_def hint_version_def version_request_def request_version_def hint_request_def)

lemma receiveHint_sections: "receiveHint t h nd = hold_hint t h (markUnreachable t nd)"
  by (simp add: receiveHint_def hold_hint_def Let_def)

lemma hold_hint_alt:
  "hold_hint t h nd =
   (case hint_at t (hint_key h) nd of
      Some g \<Rightarrow>
        (if compareVectorClocks (hint_clock g) (hint_clock h) \<in> {DOMINATED, CONCURRENT}
         then put_hint t (hint_key h) h nd else nd)
    | None \<Rightarrow> put_hint t (hint_key h) h nd)"
  by (auto simp: hold_hint_def hint_at_def Let_def split: option.splits)

lemma storeOwnHint_alt:
  "storeOwnHint t h nd =
   (case hint_at t (hint_key h) nd of
      Some g \<Rightarrow>
        (if compareVectorClocks (hint_clock g) (hint_clock h) = DOMINATED
         then put_hint t (hint_key h) h nd else nd)
    | None \<Rightarrow> put_hint t (hint_key h) h nd)"
  by (auto simp: storeOwnHint_def hint_at_def Let_def split: option.splits)

lemma hold_hint_as_received: "hint_at u l (hold_hint t h nd) = hint_at u l (receiveHint t h nd)"
  by (auto simp: hold_hint_alt receiveHint_alt hint_at_put split: option.split)

lemma hint_sections_frame [simp]:
  "nd_id (hold_hint t h nd) = nd_id nd" "nd_kv (hold_hint t h nd) = nd_kv nd"
  "nd_id (storeOwnHint t h nd) = nd_id nd" "nd_kv (storeOwnHint t h nd) = nd_kv nd"
  by (auto simp: hold_hint_alt storeOwnHint_alt put_hint_def split: option.split)

lemma wf_hold_hint [section_intros]:
  "wf_node T nd \<Longrightarrow> wf_clock (hint_clock h) \<Longrightarrow> wf_node T (hold_hint t h nd)"
  by (auto simp: hold_hint_alt wf_put_hint split: option.split)

lemma node_versions_same:
  "node_versions P nd \<Longrightarrow> nd_kv nd' = nd_kv nd \<Longrightarrow> nd_hints nd' = nd_hints nd \<Longrightarrow> node_versions P nd'"
  by (simp add: node_versions_def hint_at_def)

lemma node_versions_mono:
  "node_versions P nd \<Longrightarrow> (\<And>k v. P k v \<Longrightarrow> Q k v) \<Longrightarrow> node_versions Q nd"
  by (auto simp: node_versions_def)

lemma node_versions_kv:
  "node_versions P nd \<Longrightarrow> P k v \<Longrightarrow> node_versions P (nd\<lparr>nd_kv := (nd_kv nd)(k \<mapsto> v)\<rparr>)"
  by (auto simp: node_versions_def hint_at_def)

lemma node_versions_put_hint:
  "node_versions P nd \<Longrightarrow> P k (hint_version h) \<Longrightarrow> node_versions P (put_hint t k h nd)"
  proof -
  assume v: "node_versions P nd" "P k (hint_version h)"
  have "nd_kv (put_hint t k h nd) = nd_kv nd" by (simp add: put_hint_def)
  with v show ?thesis by (auto simp: node_versions_def hint_at_put)
qed

lemma node_versions_hints [section_intros]:
  "node_versions P nd \<Longrightarrow> P (hint_key h) (hint_version h) \<Longrightarrow> node_versions P (hold_hint t h nd)"
  "node_versions P nd \<Longrightarrow> P (hint_key h) (hint_version h) \<Longrightarrow> node_versions P (storeOwnHint t h nd)"
  by (auto simp: hold_hint_alt storeOwnHint_alt node_versions_put_hint split: option.split)

lemma node_versions_store [section_intros]:
  "node_versions P nd \<Longrightarrow> P k v \<Longrightarrow> node_versions P (snd (storeReplicatedWrite k v nd))"
  by (auto simp: storeReplicatedWrite_def Let_def node_versions_kv split: option.split)

lemma node_versions_drop [section_intros]:
  "node_versions P nd \<Longrightarrow> wf_node T nd \<Longrightarrow> node_versions P (drop_hint t k h nd)"
  by (auto simp: node_versions_def hint_at_drop wf_node_def split: if_splits)

lemma node_versions_frames [section_intros]:
  "node_versions P nd \<Longrightarrow> node_versions P (markUnreachable p nd)"
  "node_versions P nd \<Longrightarrow> node_versions P (markReachable p nd)"
  "node_versions P nd \<Longrightarrow> node_versions P (snd (applyGossip inc nd))"
  "node_versions P nd \<Longrightarrow> node_versions P (snd (RemoveNode n now nd))"
  by (auto elim!: node_versions_same simp: applyGossip_frame RemoveNode_def split: option.split)

lemma node_versions_new [section_intros]: "node_versions P (NodeServiceImpl a vn N W R now)"
  by (simp add: node_versions_def NodeServiceImpl_def Let_def hint_at_def)

lemma id_sections [simp]:
  "nd_id (NodeServiceImpl a vn N W R now) = a"
  "nd_id (snd (storeReplicatedWrite k v nd)) = nd_id nd"
  "nd_id (snd (RemoveNode n now nd)) = nd_id nd"
  "nd_id (snd (applyGossip tbl nd)) = nd_id nd"
  "nd_id (markUnreachable p nd) = nd_id nd" "nd_id (markReachable p nd) = nd_id nd"
  using same_member_store [of nd k v]
  by (auto simp: NodeServiceImpl_def Let_def RemoveNode_def applyGossip_frame markUnreachable_def
      markReachable_def same_member_def split: option.split)

subsection \<open>The invariant of the cloud\<close>

abbreviation section_steps :: "(cloud \<Rightarrow> key \<Rightarrow> vector_clock option \<Rightarrow> bool) \<Rightarrow> (node_id \<Rightarrow> int) \<Rightarrow> cloud \<Rightarrow> cloud \<Rightarrow> bool" where
  "section_steps C V \<equiv> (section_step C V)\<^sup>*\<^sup>*"

lemma interleaved_steps: "section_steps C V s t \<Longrightarrow> interleaved C V s \<Longrightarrow> interleaved C V t"
  by (induction rule: rtranclp_induct) (auto intro: interleaved.step)

definition wf_cloud :: "(node_id \<Rightarrow> int) \<Rightarrow> cloud \<Rightarrow> bool" where
  "wf_cloud V s \<longleftrightarrow>
     (\<forall>a nd. live s a = Some nd \<longrightarrow> wf_node (tokens_of V) nd \<and> nd_id nd = a \<and> node_versions (known s) nd) \<and>
     (\<forall>req \<in> in_flight s. known s (rw_key req) (request_version req)) \<and>
     (\<forall>tbl \<in> tables s. table_ok (tokens_of V) tbl) \<and>
     (\<forall>k v. known s k v \<longrightarrow> wf_clock (vv_clock v))"

lemma cloud_simps [simp]:
  "live (put_live a nd s) = (live s)(a \<mapsto> nd)" "in_flight (put_live a nd s) = in_flight s"
  "tables (put_live a nd s) = tables s" "minted (put_live a nd s) = minted s"
  "delivered (put_live a nd s) = delivered s"
  by (simp_all add: put_live_def)

lemma known_simps [simp]:
  "known (put_live a nd s) = known s" "known (s\<lparr>live := lv\<rparr>) = known s"
  "known (s\<lparr>in_flight := fs\<rparr>) = known s" "known (s\<lparr>delivered := ds\<rparr>) = known s"
  "known (s\<lparr>tables := ts\<rparr>) = known s"
  "known (s\<lparr>minted := (a, l, u) # minted s\<rparr>) k v \<longleftrightarrow> (k = l \<and> v = u) \<or> known s k v"
  by (auto simp: known_def fun_eq_iff)

lemma known_iff: "known s k v \<longleftrightarrow> (\<exists>b. (b, k, v) \<in> set (minted s))"
  by (force simp: known_def)

lemma wf_cloudD:
  assumes "wf_cloud V s" and "live s a = Some nd"
  shows "wf_node (tokens_of V) nd" and "nd_id nd = a" and "node_versions (known s) nd"
  using assms by (auto simp: wf_cloud_def)

lemma wf_cloud_known: "wf_cloud V s \<Longrightarrow> known s k v \<Longrightarrow> wf_clock (vv_clock v)"
  by (simp add: wf_cloud_def)

lemma wf_cloud_in_flight:
  "wf_cloud V s \<Longrightarrow> req \<in> in_flight s \<Longrightarrow> known s (rw_key req) (request_version req)"
  by (simp add: wf_cloud_def)

lemma wf_put_live:
  "wf_cloud V s \<Longrightarrow> wf_node (tokens_of V) nd \<Longrightarrow> nd_id nd = a \<Longrightarrow> node_versions (known s) nd \<Longrightarrow>
   wf_cloud V (put_live a nd s)"
  by (simp add: wf_cloud_def)

lemma wf_mint:
  assumes "wf_cloud V s" and "wf_clock (vv_clock v)"
  shows "wf_cloud V (s\<lparr>minted := (a, k, v) # minted s\<rparr>)"
proof -
  have "node_versions (known (s\<lparr>minted := (a, k, v) # minted s\<rparr>)) nd" if "live s b = Some nd" for b nd
    using wf_cloudD(3) [OF assms(1) that] by (rule node_versions_mono) simp
  then show ?thesis using assms by (auto simp: wf_cloud_def)
qed

lemma wf_send:
  "wf_cloud V s \<Longrightarrow> known s (rw_key req) (request_version req) \<Longrightarrow>
   wf_cloud V (s\<lparr>in_flight := insert req (in_flight s)\<rparr>)"
  by (simp add: wf_cloud_def)

lemma wf_request_clock:
  "wf_cloud V s \<Longrightarrow> req \<in> in_flight s \<Longrightarrow> wf_clock (vv_clock (request_version req))"
  using wf_cloud_in_flight wf_cloud_known by blast

text \<open>The interface to the clients: their contexts are well-formed messages.\<close>

locale client_contexts =
  fixes C :: "cloud \<Rightarrow> key \<Rightarrow> vector_clock option \<Rightarrow> bool"
  assumes context_wf: "C s k ctx \<Longrightarrow> (\<And>l v. known s l v \<Longrightarrow> wf_clock (vv_clock v)) \<Longrightarrow> wf_clock_opt ctx"
begin

lemma wf_section_step:
  assumes "section_step C V s t" and "wf_cloud V s" and "tokens_disjoint (tokens_of V)"
  shows "wf_cloud V t"
  using assms(1)
proof cases
  case (start a N W R now)
  then show ?thesis
    using assms(2) by (auto intro!: wf_put_live wf_NodeServiceImpl section_intros simp: tokens_of_def)
next
  case (crash a)
  then show ?thesis using assms(2) by (simp add: wf_cloud_def)
next
  case (commit a nd k ctx v now c nd')
  note nd = wf_cloudD [OF assms(2) commit(2)]
  have "wf_clock_opt ctx" using context_wf [OF commit(3)] wf_cloud_known [OF assms(2)] by blast
  note wf = wf_commitCoordinatedWrite [OF nd(1) this, of k v now, unfolded commit(4)]
  have "nd' = nd\<lparr>nd_kv := (nd_kv nd)(k \<mapsto> \<lparr>vv_value = v, vv_clock = c\<rparr>)\<rparr>"
    using commit(4) by (auto simp: commitCoordinatedWrite_def Let_def)
  moreover have "node_versions (\<lambda>l u. (l = k \<and> u = \<lparr>vv_value = v, vv_clock = c\<rparr>) \<or> known s l u) nd'"
    unfolding calculation by (intro node_versions_kv node_versions_mono [OF nd(3)]) auto
  ultimately show ?thesis
    unfolding commit(1) using wf nd(2) assms(2)
    by (intro wf_put_live wf_mint) (auto elim: node_versions_mono)
next
  case (stand_in a nd k ctx c now v)
  have "wf_clock_opt ctx" using context_wf [OF stand_in(3)] wf_cloud_known [OF assms(2)] by blast
  then show ?thesis
    unfolding stand_in(1) using assms(2) stand_in(4) by (intro wf_mint) (simp_all add: wf_intros)
next
  case (own_hint a nd k v tgt now)
  note nd = wf_cloudD [OF assms(2) own_hint(2)]
  then show ?thesis
    unfolding own_hint(1) using assms(2) own_hint(3) wf_cloud_known [OF assms(2)]
    by (intro wf_put_live wf_storeOwnHint section_intros) auto
next
  case (replicate k v tgt)
  then show ?thesis using assms(2) by (simp add: wf_send)
next
  case (repair b nd k v)
  with wf_cloudD(3) [OF assms(2) repair(2)] show ?thesis
    using assms(2) by (simp add: wf_send node_versions_def localGet_def)
next
  case (handoff b nd tgt k h)
  with wf_cloudD [OF assms(2) handoff(2)] hint_at_wf [of nd tgt k h] show ?thesis
    using assms(2) by (auto simp: wf_send node_versions_def wf_node_def)
next
  case (deliver a nd req)
  note nd = wf_cloudD [OF assms(2) deliver(2)]
  have "wf_cloud V (s\<lparr>delivered := insert (a, req) (delivered s)\<rparr>)"
    using assms(2) by (simp add: wf_cloud_def)
  then show ?thesis
    unfolding deliver(1) using nd wf_cloud_in_flight [OF assms(2) deliver(3)] wf_request_clock [OF assms(2) deliver(3)]
    by (intro wf_put_live wf_storeReplicatedWrite section_intros) auto
next
  case (hold a nd req tgt now)
  note nd = wf_cloudD [OF assms(2) hold(2)]
  then show ?thesis
    unfolding hold(1) using assms(2) wf_cloud_in_flight [OF assms(2) hold(3)] wf_request_clock [OF assms(2) hold(3)]
    by (intro wf_put_live section_intros) auto
next
  case (drop a nd tgt h)
  note nd = wf_cloudD [OF assms(2) drop(2)]
  then show ?thesis
    unfolding drop(1) using assms(2) by (intro wf_put_live wf_drop_hint) (auto intro: section_intros)
next
  case (gossip a nd tbl)
  note nd = wf_cloudD [OF assms(2) gossip(2)]
  moreover have "table_ok (tokens_of V) tbl" using assms(2) gossip(3) by (simp add: wf_cloud_def)
  ultimately show ?thesis
    unfolding gossip(1) using assms(2,3) by (intro wf_put_live wf_applyGossip section_intros) auto
next
  case (remove a nd n now)
  with wf_cloudD [OF assms(2) remove(2)] assms(2,3) show ?thesis
    by (auto intro!: wf_put_live wf_RemoveNode section_intros)
next
  case (snapshot a nd)
  with wf_cloudD [OF assms(2) snapshot(2)] assms(2) show ?thesis
    by (auto simp: wf_cloud_def wf_node_def wf_member_def)
qed (use assms(2) wf_cloudD [OF assms(2)] in \<open>auto intro!: wf_put_live wf_markUnreachable wf_markReachable section_intros\<close>)

lemma interleaved_wf: "interleaved C V s \<Longrightarrow> tokens_disjoint (tokens_of V) \<Longrightarrow> wf_cloud V s"
proof (induction rule: interleaved.induct)
  case initial
  show ?case by (simp add: wf_cloud_def empty_cloud_def known_def)
next
  case (step s t)
  then show ?case using wf_section_step by blast
qed

end

interpretation any: client_contexts any_context
  by unfold_locales (simp add: any_context_def)

lemma honest_contextE:
  assumes "honest_context s k ctx"
  obtains "value_or_empty ctx = empty_clock" | v where "known s k v" "ctx = Some (vv_clock v)"
  using assms by (fastforce simp: honest_context_def known_def image_iff split: option.splits)

interpretation honest: client_contexts honest_context
proof unfold_locales
  fix s k ctx assume h: "honest_context s k ctx" and wf: "\<And>l v. known s l v \<Longrightarrow> wf_clock (vv_clock v)"
  show "wf_clock_opt ctx"
  proof (cases ctx)
    case (Some c)
    with h have "c = empty_clock \<or> (\<exists>v. known s k v \<and> c = vv_clock v)"
      by (force simp: honest_context_def known_def)
    with wf Some show ?thesis by (auto simp: wf_empty_clock)
  qed simp
qed

subsection \<open>Counters count coordinated writes\<close>

definition counters_counted :: "cloud \<Rightarrow> bool" where
  "counters_counted s \<longleftrightarrow> (\<forall>k v n. known s k v \<longrightarrow> unat (vv_counters v n) \<le> mints_of s n k)"

lemma mints_of_simps [simp]:
  "mints_of (put_live a nd s) n k = mints_of s n k" "mints_of (s\<lparr>live := lv\<rparr>) n k = mints_of s n k"
  "mints_of (s\<lparr>in_flight := fs\<rparr>) n k = mints_of s n k"
  "mints_of (s\<lparr>delivered := ds\<rparr>) n k = mints_of s n k" "mints_of (s\<lparr>tables := ts\<rparr>) n k = mints_of s n k"
  "mints_of (s\<lparr>minted := (a, l, u) # minted s\<rparr>) n k =
     (if a = n \<and> l = k then Suc (mints_of s n k) else mints_of s n k)"
  by (simp_all add: mints_of_def)

lemma counted_same:
  "counters_counted s \<Longrightarrow> minted t = minted s \<Longrightarrow> counters_counted t"
  by (simp add: counters_counted_def known_def mints_of_def)

lemma base_counted:
  assumes "counters_counted s" and "honest_context s k ctx" and "\<And>c. loc = Some c \<Longrightarrow> \<exists>v. known s k v \<and> c = vv_clock v"
  shows "unat (base_counter ctx loc n) \<le> mints_of s n k"
proof -
  have "unat (counter_of (value_or_empty ctx) n) \<le> mints_of s n k"
    using assms(2) by (rule honest_contextE) (use assms(1) in \<open>auto simp: counters_counted_def\<close>)
  moreover have "unat (counter_of (value_or_empty loc) n) \<le> mints_of s n k"
    using assms(1,3) by (cases loc) (auto simp: counters_counted_def)
  ultimately show ?thesis by (simp add: base_counter_def max_def)
qed

lemma counted_mint:
  assumes "counters_counted s" and "honest_context s k ctx" and "wf_clock_opt ctx" and "wf_clock_opt loc"
    and "\<And>c. loc = Some c \<Longrightarrow> \<exists>v. known s k v \<and> c = vv_clock v"
  shows "counters_counted
    (s\<lparr>minted := (a, k, \<lparr>vv_value = v, vv_clock = buildNewClock ctx loc a now\<rparr>) # minted s\<rparr>)"
proof -
  have new: "unat (counter_of (buildNewClock ctx loc a now) n) \<le> (if a = n then Suc (mints_of s n k) else mints_of s n k)" for n
    using base_counted [OF assms(1,2,5), of loc n] unat_Suc_upper [of "base_counter ctx loc a"]
    by (auto simp: counter_buildNewClock [OF assms(3,4)])
  moreover have "unat (vv_counters u n) \<le> mints_of s n l" if "known s l u" for l u n
    using assms(1) that by (simp add: counters_counted_def)
  ultimately show ?thesis
    using new [of a] by (auto simp: counters_counted_def intro: le_SucI new [THEN order_trans])
qed

lemma honest_wf: "wf_cloud V s \<Longrightarrow> honest_context s k ctx \<Longrightarrow> wf_clock_opt ctx"
  using honest.context_wf wf_cloud_known by blast

lemma local_copy_known:
  assumes "wf_cloud V s" and "live s a = Some nd"
  shows "wf_clock_opt (map_option vv_clock (nd_kv nd k))"
    and "map_option vv_clock (nd_kv nd k) = Some c \<Longrightarrow> \<exists>v. known s k v \<and> c = vv_clock v"
  using wf_cloudD [OF assms] by (auto simp: wf_node_def wf_store_def wf_clock_opt_def node_versions_def)

lemma counted_step:
  assumes "section_step honest_context V s t" and "wf_cloud V s" and "counters_counted s"
  shows "counters_counted t"
  using assms(1)
proof cases
  case (commit a nd k ctx v now c nd')
  have "c = buildNewClock ctx (map_option vv_clock (nd_kv nd k)) a now"
    using commit(4) wf_cloudD(2) [OF assms(2) commit(2)] by (simp add: commitCoordinatedWrite_def Let_def)
  then show ?thesis
    unfolding commit(1) using counted_mint [OF assms(3) commit(3) honest_wf [OF assms(2) commit(3)]
        local_copy_known [OF assms(2) commit(2)], where a = a and v = v and now = now]
    by (intro counted_same [OF _ cloud_simps(4)]) simp
next
  case (stand_in a nd k ctx c now v)
  then show ?thesis
    using counted_mint [OF assms(3) stand_in(3) honest_wf [OF assms(2) stand_in(3)], where loc = None and a = a and v = v and now = now]
      wf_cloudD(2) [OF assms(2) stand_in(2)] by simp
qed (auto intro: counted_same [OF assms(3)])

lemma interleaved_counted:
  "interleaved honest_context V s \<Longrightarrow> tokens_disjoint (tokens_of V) \<Longrightarrow> counters_counted s"
proof (induction rule: interleaved.induct)
  case initial
  show ?case by (simp add: counters_counted_def empty_cloud_def known_def)
next
  case (step s t)
  then show ?case using counted_step honest.interleaved_wf by blast
qed

lemma no_wrap:
  assumes "wf_cloud V s" and "counters_counted s" and "live s a = Some nd" and "honest_context s k ctx"
    and "mints_of s a k < 2 ^ 64 - 1"
  shows "base_counter ctx (map_option vv_clock (nd_kv nd k)) (nd_id nd) \<noteq> - 1"
proof
  assume "base_counter ctx (map_option vv_clock (nd_kv nd k)) (nd_id nd) = - 1"
  moreover have "unat (base_counter ctx (map_option vv_clock (nd_kv nd k)) (nd_id nd)) \<le> mints_of s a k"
    unfolding wf_cloudD(2) [OF assms(1,3)]
    by (rule base_counted [OF assms(2,4)]) (rule local_copy_known(2) [OF assms(1,3)])
  ultimately show False using assms(5) unat_max_counter by simp
qed

subsection \<open>No section goes back in causal time\<close>

definition versions_kept :: "node \<Rightarrow> node \<Rightarrow> bool" where
  "versions_kept nd nd' \<longleftrightarrow> (\<forall>k v. nd_kv nd k = Some v \<longrightarrow>
     (\<exists>v'. nd_kv nd' k = Some v' \<and> compareVectorClocks (vv_clock v') (vv_clock v) \<noteq> DOMINATED))"

definition hints_kept :: "cloud \<Rightarrow> node \<Rightarrow> node \<Rightarrow> bool" where
  "hints_kept s nd nd' \<longleftrightarrow> (\<forall>t k g. hint_at t k nd = Some g \<longrightarrow>
     (\<exists>g'. hint_at t k nd' = Some g' \<and> compareVectorClocks (hint_clock g') (hint_clock g) \<noteq> DOMINATED) \<or>
     (\<exists>h. (t, hint_request h) \<in> delivered s \<and> hint_key h = k \<and>
        compareVectorClocks (hint_clock g) (hint_clock h) = EQUAL))"

lemma versions_kept_same: "wf_node T nd \<Longrightarrow> nd_kv nd' = nd_kv nd \<Longrightarrow> versions_kept nd nd'"
  by (auto simp: versions_kept_def wf_node_def wf_store_def vc.cmp_refl)

lemma hints_kept_same:
  assumes "wf_node T nd" and "nd_hints nd' = nd_hints nd"
  shows "hints_kept s nd nd'"
proof -
  have "hint_at t k nd' = hint_at t k nd" for t k using assms(2) by (simp add: hint_at_def)
  moreover have "hint_at t k nd = Some g \<Longrightarrow> compareVectorClocks (hint_clock g) (hint_clock g) = EQUAL" for t k g
    using assms(1) hint_at_wf by (auto simp: wf_node_def vc.cmp_refl)
  ultimately show ?thesis by (auto simp: hints_kept_def)
qed

lemma versions_kept_store:
  assumes "wf_node T nd" and "wf_clock (vv_clock v)"
  shows "versions_kept nd (snd (storeReplicatedWrite k v nd))"
  using assms by (auto simp: versions_kept_def storeReplicatedWrite_def Let_def wf_node_def wf_store_def
      vc.cmp_simps split: option.split)

lemma versions_kept_commit:
  assumes "wf_node T nd" and "wf_clock_opt ctx"
    and "base_counter ctx (map_option vv_clock (nd_kv nd k)) (nd_id nd) \<noteq> - 1"
    and "commitCoordinatedWrite k v ctx now nd = (c, nd')"
  shows "versions_kept nd nd'" and "nd_hints nd' = nd_hints nd"
    and "compareVectorClocks c (value_or_empty ctx) = DOMINATES"
    and "\<And>h. nd_kv nd k = Some h \<Longrightarrow> compareVectorClocks c (vv_clock h) = DOMINATES"
proof -
  let ?loc = "map_option vv_clock (nd_kv nd k)"
  have st: "wf_store (nd_kv nd)" using assms(1) by (simp add: wf_node_def)
  then have loc: "wf_clock_opt ?loc" by (auto simp: wf_store_def wf_clock_opt_def)
  have c: "c = buildNewClock ctx ?loc (nd_id nd) now"
    and nd': "nd' = nd\<lparr>nd_kv := (nd_kv nd)(k \<mapsto> \<lparr>vv_value = v, vv_clock = c\<rparr>)\<rparr>"
    using assms(4) by (auto simp: commitCoordinatedWrite_def Let_def)
  have wfc: "wf_clock c" unfolding c by (rule wf_buildNewClock [OF assms(2) loc])
  note above = buildNewClock_above [OF assms(2) loc assms(3), of now, folded c]
  show "compareVectorClocks c (value_or_empty ctx) = DOMINATES"
    using above(1) assms(2) wfc by (simp add: vc.cmp_DOMINATES wf_intros)
  show held: "compareVectorClocks c (vv_clock h) = DOMINATES" if "nd_kv nd k = Some h" for h
    using above(2) that loc wfc by (simp add: vc.cmp_DOMINATES)
  show "versions_kept nd nd'"
    using held st by (auto simp: versions_kept_def nd' wf_store_def vc.cmp_refl)
  show "nd_hints nd' = nd_hints nd" by (simp add: nd')
qed

lemma hints_kept_put:
  assumes "wf_node T nd" and "wf_clock (hint_clock h)"
    and "\<And>g. hint_at t (hint_key h) nd = Some g \<Longrightarrow> compareVectorClocks (hint_clock g) (hint_clock h) \<noteq> DOMINATES"
  shows "hints_kept s nd (put_hint t (hint_key h) h nd)"
proof -
  have "wf_clock (hint_clock g)" if "hint_at u l nd = Some g" for u l g
    using assms(1) that hint_at_wf by (auto simp: wf_node_def)
  with assms(2,3) show ?thesis by (auto simp: hints_kept_def hint_at_put vc.cmp_simps)
qed

lemma hints_kept_sections:
  assumes "wf_node T nd" and "wf_clock (hint_clock h)"
  shows "hints_kept s nd (hold_hint t h nd)" and "hints_kept s nd (storeOwnHint t h nd)"
  using hints_kept_put [OF assms, of t s] hints_kept_same [OF assms(1), of nd s]
  by (auto simp: hold_hint_alt storeOwnHint_alt split: option.split)

lemma hints_kept_drop:
  assumes "wf_node T nd" and "(t, hint_request h) \<in> delivered s"
  shows "hints_kept s nd (drop_hint t (hint_key h) h nd)"
proof -
  have "hint_at u l nd = Some g \<Longrightarrow> compareVectorClocks (hint_clock g) (hint_clock g) = EQUAL" for u l g
    using assms(1) hint_at_wf by (auto simp: wf_node_def vc.cmp_refl)
  then show ?thesis
    using assms by (auto simp: hints_kept_def hint_at_drop wf_node_def)
qed

text \<open>What a section keeps of one server, as one fact, and what it does to the others.\<close>

definition section_keeps :: "cloud \<Rightarrow> node \<Rightarrow> node \<Rightarrow> bool" where
  "section_keeps s nd nd' \<longleftrightarrow> versions_kept nd nd' \<and> hints_kept s nd nd'"

lemma section_keeps_frame:
  "wf_node T nd \<Longrightarrow> nd_kv nd' = nd_kv nd \<Longrightarrow> nd_hints nd' = nd_hints nd \<Longrightarrow> section_keeps s nd nd'"
  by (simp add: section_keeps_def versions_kept_same hints_kept_same)

lemma section_keeps_put_live:
  assumes "wf_cloud V s" and "live s b = Some nd" and "live (put_live a nd1 u) b = Some nd'"
    and "live u = live s" and "\<And>nd0. live s a = Some nd0 \<Longrightarrow> section_keeps s nd0 nd1"
  shows "section_keeps s nd nd'"
proof (cases "a = b")
  case True
  with assms show ?thesis by simp
next
  case False
  with assms have "nd' = nd" by simp
  then show ?thesis using wf_cloudD(1) [OF assms(1,2)] by (simp add: section_keeps_frame)
qed

lemma section_keeps_step:
  assumes "section_step honest_context V s t" and "wf_cloud V s" and "counters_counted s"
    and "live s b = Some nd" and "live t b = Some nd'" and "\<And>k. mints_of s b k < 2 ^ 64 - 1"
  shows "section_keeps s nd nd'"
  using assms(1)
proof cases
  case (start a N W R now)
  with assms(4,5) wf_cloudD(1) [OF assms(2,4)] show ?thesis by (auto simp: section_keeps_frame split: if_splits)
next
  case (commit a nd0 k ctx v now c nd1)
  show ?thesis
  proof (cases "a = b")
    case True
    note n = wf_cloudD [OF assms(2,4)]
    have "nd0 = nd" "nd1 = nd'" using commit(1,2) assms(4,5) True by auto
    with commit(3,4) versions_kept_commit [OF n(1) honest_wf [OF assms(2)] no_wrap [OF assms(2,3,4) _ assms(6)]]
    show ?thesis by (metis section_keeps_def hints_kept_same n(1))
  next
    case False
    with commit(1) assms(4,5) have "nd' = nd" by simp
    then show ?thesis using wf_cloudD(1) [OF assms(2,4)] by (simp add: section_keeps_frame)
  qed
next
  case (deliver a nd0 req)
  show ?thesis
  proof (rule section_keeps_put_live [OF assms(2,4) assms(5) [unfolded deliver(1)]])
    fix nd1 assume "live s a = Some nd1"
    with deliver(2) have "nd1 = nd0" by simp
    moreover have "nd_hints (snd (storeReplicatedWrite (rw_key req) (request_version req) nd0)) = nd_hints nd0"
      using storeReplicatedWrite_frame [OF prod.collapse [symmetric], of "rw_key req" "request_version req" nd0] by auto
    ultimately show "section_keeps s nd1 (snd (storeReplicatedWrite (rw_key req) (request_version req) nd0))"
      using versions_kept_store [OF wf_cloudD(1) [OF assms(2) deliver(2)] wf_request_clock [OF assms(2) deliver(3)]]
        hints_kept_same [OF wf_cloudD(1) [OF assms(2) deliver(2)]]
      by (simp add: section_keeps_def)
  qed simp
next
  case (own_hint a nd0 k v tgt now)
  note n = wf_cloudD(1) [OF assms(2) own_hint(2)]
  have "section_keeps s nd0 (storeOwnHint tgt (version_hint k v now) nd0)"
    using hints_kept_sections(2) [OF n] wf_cloud_known [OF assms(2) own_hint(3)] versions_kept_same [OF n]
    by (simp add: section_keeps_def)
  then show ?thesis
    using own_hint(2) by (intro section_keeps_put_live [OF assms(2,4) assms(5) [unfolded own_hint(1)]]) auto
next
  case (hold a nd0 req tgt now)
  note n = wf_cloudD(1) [OF assms(2) hold(2)]
  have "section_keeps s nd0 (hold_hint tgt (version_hint (rw_key req) (request_version req) now) nd0)"
    using hints_kept_sections(1) [OF n] wf_request_clock [OF assms(2) hold(3)] versions_kept_same [OF n]
    by (simp add: section_keeps_def)
  then show ?thesis
    using hold(2) by (intro section_keeps_put_live [OF assms(2,4) assms(5) [unfolded hold(1)]]) auto
next
  case (drop a nd0 tgt h)
  note n = wf_cloudD(1) [OF assms(2) drop(2)]
  have "section_keeps s nd0 (drop_hint tgt (hint_key h) h nd0)"
    using hints_kept_drop [OF n drop(3)] versions_kept_same [OF n] by (simp add: section_keeps_def)
  then show ?thesis
    using drop(2) by (intro section_keeps_put_live [OF assms(2,4) assms(5) [unfolded drop(1)]]) auto
next
  case (crash a)
  with assms(4,5) wf_cloudD(1) [OF assms(2,4)] show ?thesis by (auto simp: section_keeps_frame split: if_splits)
next
  case (remove a nd0 n now)
  have "section_keeps s nd0 (snd (RemoveNode n now nd0))"
    using wf_cloudD(1) [OF assms(2) remove(2)]
    by (rule section_keeps_frame) (simp_all add: RemoveNode_def split: option.split)
  then show ?thesis
    using remove(2) by (intro section_keeps_put_live [OF assms(2,4) assms(5) [unfolded remove(1)]]) auto
next
  case (gossip a nd0 tbl)
  have "section_keeps s nd0 (snd (applyGossip tbl nd0))"
    using wf_cloudD(1) [OF assms(2) gossip(2)] by (rule section_keeps_frame) (simp_all add: applyGossip_frame)
  then show ?thesis
    using gossip(2) by (intro section_keeps_put_live [OF assms(2,4) assms(5) [unfolded gossip(1)]]) auto
next
  case (mark a nd0 p)
  have "section_keeps s nd0 (markUnreachable p nd0)"
    using wf_cloudD(1) [OF assms(2) mark(2)] by (rule section_keeps_frame) simp_all
  then show ?thesis
    using mark(2) by (intro section_keeps_put_live [OF assms(2,4) assms(5) [unfolded mark(1)]]) auto
next
  case (unmark a nd0 p)
  have "section_keeps s nd0 (markReachable p nd0)"
    using wf_cloudD(1) [OF assms(2) unmark(2)] by (rule section_keeps_frame) simp_all
  then show ?thesis
    using unmark(2) by (intro section_keeps_put_live [OF assms(2,4) assms(5) [unfolded unmark(1)]]) auto
qed (use assms(4,5) wf_cloudD(1) [OF assms(2,4)] in \<open>auto simp: section_keeps_frame\<close>)

subsection \<open>Runs\<close>

text \<open>Servers without tokens, and the steps from which the runs of the witnesses are put together.\<close>

definition quiet_V :: "node_id \<Rightarrow> int" where
  "quiet_V n = 0"

definition bare :: "node_id \<Rightarrow> node" where
  "bare a = NodeServiceImpl a 0 3 2 2 1"

definition bare_with :: "node_id \<Rightarrow> VersionedValue \<Rightarrow> node" where
  "bare_with a v = (bare a)\<lparr>nd_kv := [''k'' \<mapsto> v]\<rparr>"

definition blind_clock :: "node_id \<Rightarrow> vector_clock option \<Rightarrow> millis \<Rightarrow> vector_clock" where
  "blind_clock a loc now = buildNewClock (Some empty_clock) loc a now"

lemma bare_simps [simp]:
  "nd_kv (bare a) = Map.empty" "nd_id (bare a) = a" "nd_id (bare_with a v) = a"
  "nd_kv (bare_with a v) = [''k'' \<mapsto> v]" "(bare_with a v)\<lparr>nd_kv := kv\<rparr> = (bare a)\<lparr>nd_kv := kv\<rparr>"
  "(bare a)\<lparr>nd_kv := [''k'' \<mapsto> v]\<rparr> = bare_with a v"
  by (simp_all add: bare_def bare_with_def NodeServiceImpl_def Let_def)

lemma tokens_disjoint_quiet: "tokens_disjoint (tokens_of quiet_V)"
  by (simp add: tokens_disjoint_def tokens_of_def quiet_V_def computeTokens_def)

lemma wf_blind_clock [simp]: "wf_clock_opt loc \<Longrightarrow> wf_clock (blind_clock a loc now)"
  by (simp add: blind_clock_def wf_intros)

lemma honest_blind [simp]: "honest_context s k (Some empty_clock)"
  by (simp add: honest_context_def)

lemma run_start:
  assumes "interleaved C quiet_V s" and "live s a = None"
  shows "\<exists>t. interleaved C quiet_V t \<and> live t = (live s)(a \<mapsto> bare a) \<and> minted t = minted s"
proof (intro exI conjI)
  show "interleaved C quiet_V (put_live a (NodeServiceImpl a (quiet_V a) 3 2 2 1) s)"
    using assms by (intro interleaved.step [OF _ start]) (simp_all add: valid_quorum_def)
qed (simp_all add: bare_def quiet_V_def)

lemma run_commit:
  assumes "interleaved honest_context V s" and "live s a = Some nd"
    and "c = blind_clock (nd_id nd) (map_option vv_clock (nd_kv nd k)) now"
  shows "\<exists>t. interleaved honest_context V t \<and>
    live t = (live s)(a \<mapsto> nd\<lparr>nd_kv := (nd_kv nd)(k \<mapsto> \<lparr>vv_value = v, vv_clock = c\<rparr>)\<rparr>) \<and>
    minted t = (a, k, \<lparr>vv_value = v, vv_clock = c\<rparr>) # minted s"
proof -
  have "commitCoordinatedWrite k v (Some empty_clock) now nd =
      (c, nd\<lparr>nd_kv := (nd_kv nd)(k \<mapsto> \<lparr>vv_value = v, vv_clock = c\<rparr>)\<rparr>)"
    by (simp add: commitCoordinatedWrite_def Let_def assms(3) blind_clock_def)
  from interleaved.step [OF assms(1) commit [where C = honest_context, OF assms(2) honest_blind this]] show ?thesis
    by (intro exI [of _ "put_live a (nd\<lparr>nd_kv := (nd_kv nd)(k \<mapsto> \<lparr>vv_value = v, vv_clock = c\<rparr>)\<rparr>)
        (s\<lparr>minted := (a, k, \<lparr>vv_value = v, vv_clock = c\<rparr>) # minted s\<rparr>)"]) simp
qed

text \<open>Any version that a coordinator has built can reach any server, at any time and again.\<close>

lemma deliver_sections:
  assumes "known s k v" and "live s a = Some nd"
  shows "\<exists>t. section_steps C V s t \<and> live t = (live s)(a \<mapsto> snd (storeReplicatedWrite k v nd)) \<and>
    minted t = minted s \<and> (a, version_request k v None) \<in> delivered t"
proof -
  let ?req = "version_request k v None"
  let ?s = "s\<lparr>in_flight := insert ?req (in_flight s)\<rparr>"
  let ?t = "put_live a (snd (storeReplicatedWrite k v nd)) (?s\<lparr>delivered := insert (a, ?req) (delivered ?s)\<rparr>)"
  have "section_step C V s ?s" by (rule replicate [OF assms(1)])
  moreover have "section_step C V ?s ?t"
    using deliver [of ?s a nd ?req C V] assms(2) by (simp add: version_request_def request_version_def)
  ultimately have "section_steps C V s ?t" by (meson converse_rtranclp_into_rtranclp r_into_rtranclp)
  then show ?thesis by (intro exI [of _ ?t]) simp
qed

lemma run_deliver:
  assumes "interleaved C V s" and "known s k v" and "live s a = Some nd"
  shows "\<exists>t. interleaved C V t \<and> live t = (live s)(a \<mapsto> snd (storeReplicatedWrite k v nd)) \<and> minted t = minted s"
  using deliver_sections [OF assms(2,3)] interleaved_steps [OF _ assms(1)] by blast

lemma store_bare:
  "snd (storeReplicatedWrite ''k'' v (bare a)) = bare_with a v"
  "compareVectorClocks (vv_clock u) (vv_clock v) \<in> {CONCURRENT, DOMINATED} \<Longrightarrow>
   snd (storeReplicatedWrite ''k'' v (bare_with a u)) = bare_with a v"
  by (auto simp: storeReplicatedWrite_def)

lemma run_two_servers: "\<exists>s. interleaved C quiet_V s \<and> live s = [''A'' \<mapsto> bare ''A'', ''B'' \<mapsto> bare ''B''] \<and> minted s = []"
proof -
  have "live empty_cloud ''A'' = None" by (simp add: empty_cloud_def)
  from run_start [OF interleaved.initial this] obtain s where s: "interleaved C quiet_V s"
    "live s = [''A'' \<mapsto> bare ''A'']" "minted s = []" by (auto simp: empty_cloud_def)
  from run_start [OF s(1), of "''B''"] s show ?thesis by auto
qed

text \<open>\<open>A\<close> has coordinated one write and \<open>B\<close> has got it.\<close>

lemma run_replicated:
  "\<exists>s. interleaved honest_context quiet_V s \<and>
     live s = [''A'' \<mapsto> bare_with ''A'' (vv v (blind_clock ''A'' None 5)),
       ''B'' \<mapsto> bare_with ''B'' (vv v (blind_clock ''A'' None 5))] \<and>
     minted s = [(''A'', ''k'', vv v (blind_clock ''A'' None 5))]"
proof -
  let ?v = "vv v (blind_clock ''A'' None 5)"
  obtain s0 where s0: "interleaved honest_context quiet_V s0" "live s0 = [''A'' \<mapsto> bare ''A'', ''B'' \<mapsto> bare ''B'']"
    "minted s0 = []" using run_two_servers by blast
  have "live s0 ''A'' = Some (bare ''A'')" by (simp add: s0)
  from run_commit [OF s0(1) this, of _ "''k''" 5 v] obtain s1 where s1: "interleaved honest_context quiet_V s1"
    "live s1 = [''A'' \<mapsto> bare_with ''A'' ?v, ''B'' \<mapsto> bare ''B'']" "minted s1 = [(''A'', ''k'', ?v)]"
    by (auto simp: s0 fun_upd_twist)
  have "known s1 ''k'' ?v" "live s1 ''B'' = Some (bare ''B'')" by (simp_all add: known_def s1)
  from run_deliver [OF s1(1) this] s1 show ?thesis by (auto simp: store_bare)
qed

subsection \<open>Properties\<close>

text \<open>
C34. However the sections of the servers' handlers and threads interleave, for any well-formed contexts of
the clients: every server is well-formed at every moment, and every version in its store or among its
hints is, value and clock together, one that some coordinator has built for that very key.
\<close>
theorem interleavings_keep_invariants:
  assumes "interleaved any_context V s" and "tokens_disjoint (tokens_of V)" and "live s a = Some nd"
  shows "wf_node (tokens_of V) nd \<and> nd_id nd = a \<and>
    (\<forall>k v. nd_kv nd k = Some v \<longrightarrow> (\<exists>b. (b, k, v) \<in> set (minted s))) \<and>
    (\<forall>t k h. hint_at t k nd = Some h \<longrightarrow> hint_key h = k \<and>
       (\<exists>b. (b, k, \<lparr>vv_value = hint_value h, vv_clock = hint_clock h\<rparr>) \<in> set (minted s)))"
proof -
  note n = wf_cloudD [OF any.interleaved_wf [OF assms(1,2)] assms(3)]
  have "hint_at t k nd = Some h \<Longrightarrow> hint_key h = k" for t k h
    using n(1) hint_at_wf by (auto simp: wf_node_def)
  then show ?thesis
    using n by (auto simp: node_versions_def known_iff hint_version_def)
qed

lemma honest_is_any:
  "section_step honest_context V s t \<Longrightarrow> wf_cloud V s \<Longrightarrow> section_step any_context V s t"
proof (induction rule: section_step.induct)
  case (commit s a nd k ctx v now c nd')
  then show ?case by (intro section_step.commit) (auto simp: any_context_def honest_wf)
next
  case (stand_in s a nd k ctx c now v)
  then show ?case by (intro section_step.stand_in) (auto simp: any_context_def honest_wf)
qed (auto intro: section_step.intros)

lemma interleaved_any:
  assumes "interleaved honest_context V s" and "tokens_disjoint (tokens_of V)"
  shows "interleaved any_context V s"
  using assms(1)
proof induction
  case (step s t)
  then show ?case using honest_is_any honest.interleaved_wf [OF step.hyps(1) assms(2)] interleaved.step by blast
qed (rule interleaved.initial)

theorem interleavings_keep_invariants_witness:
  "\<exists>s nd v. interleaved any_context quiet_V s \<and> live s ''B'' = Some nd \<and> nd_kv nd ''k'' = Some v \<and>
     (\<exists>b. (b, ''k'', v) \<in> set (minted s))"
proof -
  obtain s where s: "interleaved honest_context quiet_V s"
    "live s ''B'' = Some (bare_with ''B'' (vv ''x'' (blind_clock ''A'' None 5)))"
    using run_replicated [of "''x''"] by auto
  note i = interleaved_any [OF s(1) tokens_disjoint_quiet]
  have "\<exists>b. (b, ''k'', vv ''x'' (blind_clock ''A'' None 5)) \<in> set (minted s)"
    using interleavings_keep_invariants [OF i tokens_disjoint_quiet s(2)] by simp
  with i s(2) show ?thesis
    by (intro exI [of _ s] exI [of _ "bare_with ''B'' (vv ''x'' (blind_clock ''A'' None 5))"]) simp
qed

text \<open>
C6. Counters count: with clients that only send contexts that they were given, the counter of a node in
any clock that any server holds for a key, in its store or as a hint, is at most the number of writes of that
key which that node has coordinated so far.  So before the \<open>2 ^ 64 - 1\<close>-th such write no counter
wraps, and each coordinated write gets a clock that is causally newer than what the coordinator holds and
than the client's context, whatever else happens in between.
\<close>
theorem counters_count_writes:
  assumes "interleaved honest_context V s" and "tokens_disjoint (tokens_of V)" and "live s a = Some nd"
  shows "(\<forall>k v n. nd_kv nd k = Some v \<longrightarrow> unat (vv_counters v n) \<le> mints_of s n k) \<and>
    (\<forall>t k h n. hint_at t k nd = Some h \<longrightarrow> unat (counter_of (hint_clock h) n) \<le> mints_of s n k) \<and>
    (\<forall>k ctx v now c nd'. honest_context s k ctx \<longrightarrow> mints_of s a k < 2 ^ 64 - 1 \<longrightarrow>
       commitCoordinatedWrite k v ctx now nd = (c, nd') \<longrightarrow>
       compareVectorClocks c (value_or_empty ctx) = DOMINATES \<and>
       (\<forall>h. nd_kv nd k = Some h \<longrightarrow> compareVectorClocks c (vv_clock h) = DOMINATES))"
proof -
  note wf = honest.interleaved_wf [OF assms(1,2)] and cnt = interleaved_counted [OF assms(1,2)]
  note n = wf_cloudD [OF wf assms(3)]
  have "unat (vv_counters v m) \<le> mints_of s m k" if "nd_kv nd k = Some v" for k v m
    using n(3) cnt that by (simp add: node_versions_def counters_counted_def)
  moreover have "unat (counter_of (hint_clock h) m) \<le> mints_of s m k" if "hint_at t k nd = Some h" for t k h m
  proof -
    have "known s k (hint_version h)" using n(3) that by (auto simp: node_versions_def)
    with cnt show ?thesis by (fastforce simp: counters_counted_def hint_version_def)
  qed
  moreover have "compareVectorClocks c (value_or_empty ctx) = DOMINATES \<and>
      (\<forall>h. nd_kv nd k = Some h \<longrightarrow> compareVectorClocks c (vv_clock h) = DOMINATES)"
    if "honest_context s k ctx" "mints_of s a k < 2 ^ 64 - 1" "commitCoordinatedWrite k v ctx now nd = (c, nd')"
    for k ctx v now c nd'
    using versions_kept_commit(3,4) [OF n(1) honest_wf [OF wf that(1)] no_wrap [OF wf cnt assms(3) that(1,2)] that(3)]
    by blast
  ultimately show ?thesis by blast
qed

theorem counters_count_writes_witness:
  "\<exists>s nd v. interleaved honest_context quiet_V s \<and> live s ''B'' = Some nd \<and> nd_kv nd ''k'' = Some v \<and> unat (vv_counters v ''A'') \<le> 1"
proof -
  let ?v = "vv ''x'' (blind_clock ''A'' None 5)"
  obtain s where s: "interleaved honest_context quiet_V s" "live s ''B'' = Some (bare_with ''B'' ?v)"
    "minted s = [(''A'', ''k'', ?v)]"
    using run_replicated [of "''x''"] by auto
  have "unat (vv_counters ?v ''A'') \<le> mints_of s ''A'' ''k''"
    by (rule counters_count_writes [OF s(1) tokens_disjoint_quiet s(2), THEN conjunct1, rule_format, of "''k''"]) simp
  moreover have "mints_of s ''A'' ''k'' = 1" by (simp add: mints_of_def s(3))
  ultimately show ?thesis
    using s(1,2) by (intro exI [of _ s] exI [of _ "bare_with ''B'' ?v"] exI [of _ ?v]) simp
qed

text \<open>
C5. No section of any thread, whatever it interleaves with, leaves a server that stays up with a causally
older version of a key than before, and a hint only gives way to one that is not causally older, or goes
after its target has taken in a write of the same key with an equal clock.
\<close>
theorem sections_never_go_back:
  assumes "interleaved honest_context V s" and "tokens_disjoint (tokens_of V)"
    and "section_step honest_context V s t" and "live s a = Some nd" and "live t a = Some nd'"
    and "\<forall>k. mints_of s a k < 2 ^ 64 - 1"
  shows "(\<forall>k v. nd_kv nd k = Some v \<longrightarrow>
       (\<exists>v'. nd_kv nd' k = Some v' \<and> compareVectorClocks (vv_clock v') (vv_clock v) \<noteq> DOMINATED)) \<and>
    (\<forall>u k g. hint_at u k nd = Some g \<longrightarrow>
       (\<exists>g'. hint_at u k nd' = Some g' \<and> compareVectorClocks (hint_clock g') (hint_clock g) \<noteq> DOMINATED) \<or>
       (\<exists>h. (u, hint_request h) \<in> delivered s \<and> hint_key h = k \<and>
          compareVectorClocks (hint_clock g) (hint_clock h) = EQUAL))"
  using section_keeps_step [OF assms(3) honest.interleaved_wf [OF assms(1,2)] interleaved_counted [OF assms(1,2)]
      assms(4,5)] assms(6)
  unfolding section_keeps_def versions_kept_def hints_kept_def by blast

theorem sections_never_go_back_witness:
  "\<exists>s t v. interleaved honest_context quiet_V s \<and> section_step honest_context quiet_V s t \<and>
     live t ''B'' = Some (markUnreachable ''A'' (bare_with ''B'' v)) \<and>
     compareVectorClocks (vv_clock v) (vv_clock v) \<noteq> DOMINATED"
proof -
  let ?v = "vv ''x'' (blind_clock ''A'' None 5)" and ?n = "bare_with ''B'' (vv ''x'' (blind_clock ''A'' None 5))"
  obtain s where s: "interleaved honest_context quiet_V s" "live s ''B'' = Some ?n" "minted s = [(''A'', ''k'', ?v)]"
    using run_replicated [of "''x''"] by auto
  let ?t = "put_live ''B'' (markUnreachable ''A'' ?n) s"
  have st: "section_step honest_context quiet_V s ?t" using s(2) by (rule mark)
  have t: "live ?t ''B'' = Some (markUnreachable ''A'' ?n)" by simp
  have m: "\<forall>k. mints_of s ''B'' k < 2 ^ 64 - 1" by (simp add: mints_of_def s(3))
  have "compareVectorClocks (vv_clock ?v) (vv_clock ?v) \<noteq> DOMINATED"
    using sections_never_go_back [OF s(1) tokens_disjoint_quiet st s(2) t m, THEN conjunct1, rule_format, of "''k''" ?v]
    by simp
  with s(1) st t show ?thesis by blast
qed

end
