(* ===== verification/Section_Refinement.thy ===== *)
theory Section_Refinement
  imports Interleaving
begin

text \<open>
  The operations of the servers are runs of their locked sections: whatever the handlers, threads and
  rounds of the cluster do, a cloud of theory \<open>Interleaving\<close> can do section by section, with the same
  servers in the same states.  So every reachable system is an interleaved one, and what holds of all
  interleavings holds of it.
\<close>

subsection \<open>Facts that last\<close>

text \<open>The histories and the copies in flight only grow; a fact about them that holds goes on holding.\<close>

definition grows :: "cloud \<Rightarrow> cloud \<Rightarrow> bool" where
  "grows s t \<longleftrightarrow> set (minted s) \<subseteq> set (minted t) \<and> in_flight s \<subseteq> in_flight t \<and> tables s \<subseteq> tables t \<and>
     delivered s \<subseteq> delivered t"

definition lasting :: "(cloud \<Rightarrow> bool) \<Rightarrow> bool" where
  "lasting F \<longleftrightarrow> (\<forall>s t. grows s t \<longrightarrow> F s \<longrightarrow> F t)"

named_theorems lasting_intros \<open>facts that last\<close>

lemma grows_step: "section_step C V s t \<Longrightarrow> grows s t"
  by (induction rule: section_step.induct) (auto simp: grows_def put_live_def)

lemma grows_trans: "grows s t \<Longrightarrow> grows t u \<Longrightarrow> grows s u"
  by (auto simp: grows_def)

lemma grows_steps: "section_steps honest_context V s t \<Longrightarrow> grows s t"
proof (induction rule: rtranclp_induct)
  case base
  show ?case by (simp add: grows_def)
next
  case (step t u)
  then show ?case by (blast intro: grows_trans dest: grows_step)
qed

lemma lastingD: "lasting F \<Longrightarrow> section_steps honest_context V s t \<Longrightarrow> F s \<Longrightarrow> F t"
  using grows_steps unfolding lasting_def by blast

lemma lasting_known [lasting_intros]: "lasting (\<lambda>s. known s k v)"
  by (auto simp: lasting_def grows_def known_iff)

lemma lasting_delivered [lasting_intros]: "lasting (\<lambda>s. d \<in> delivered s)"
  by (auto simp: lasting_def grows_def)

lemma lasting_tables [lasting_intros]: "lasting (\<lambda>s. tbl \<in> tables s)"
  by (auto simp: lasting_def grows_def)

lemma honest_iff:
  "honest_context s k ctx \<longleftrightarrow> (case ctx of None \<Rightarrow> True
     | Some c \<Rightarrow> c = empty_clock \<or> (\<exists>v. known s k v \<and> c = vv_clock v))"
  by (force simp: honest_context_def known_iff image_iff split: option.split)

lemma lasting_honest [lasting_intros]: "lasting (\<lambda>s. honest_context s k ctx)"
  using lasting_known by (fastforce simp: lasting_def honest_iff split: option.split)

lemma lasting_logic [lasting_intros]:
  "lasting F \<Longrightarrow> lasting G \<Longrightarrow> lasting (\<lambda>s. F s \<and> G s)"
  "(\<And>x. lasting (H x)) \<Longrightarrow> lasting (\<lambda>s. \<forall>x. H x s)"
  "lasting F \<Longrightarrow> lasting (\<lambda>s. p \<longrightarrow> F s)"
  "(\<And>x. lasting (H x)) \<Longrightarrow> lasting (\<lambda>s. \<forall>x \<in> B. H x s)"
  "lasting (\<lambda>s. p)"
  by (auto simp: lasting_def)

lemma honest_empty [simp]: "honest_context s k (Some empty_clock)"
  by (simp add: honest_context_def)

lemma honest_known: "known s k v \<Longrightarrow> honest_context s k (Some (vv_clock v))"
  by (auto simp: honest_iff)

subsection \<open>Worlds that are runs of sections\<close>

definition runs_as :: "(node_id \<Rightarrow> int) \<Rightarrow> (cloud \<Rightarrow> bool) \<Rightarrow> world \<Rightarrow> bool" where
  "runs_as V F w \<longleftrightarrow> (\<exists>s. interleaved honest_context V s \<and> live s = nodes w \<and>
     (\<forall>j \<in> set (jobs w). known s (job_key j) (job_winner j)) \<and> F s)"

lemma runs_weaken: "runs_as V F w \<Longrightarrow> (\<And>s. F s \<Longrightarrow> G s) \<Longrightarrow> runs_as V G w"
  by (auto simp: runs_as_def)

lemma runs_advance [simp]: "runs_as V F (advance w) = runs_as V F w"
  by (simp add: runs_as_def)

text \<open>The rule for one operation: sections that take the servers where the operation takes them.\<close>

lemma runs_by:
  assumes "runs_as V F w" and "lasting F" and "set (jobs w') \<subseteq> set (jobs w)"
    and "\<And>s. interleaved honest_context V s \<Longrightarrow> live s = nodes w \<Longrightarrow> F s \<Longrightarrow>
      \<exists>t. section_steps honest_context V s t \<and> live t = nodes w' \<and> G t"
  shows "runs_as V (\<lambda>s. F s \<and> G s) w'"
proof -
  obtain s where s: "interleaved honest_context V s" "live s = nodes w" "F s"
    "\<forall>j \<in> set (jobs w). known s (job_key j) (job_winner j)"
    using assms(1) by (auto simp: runs_as_def)
  obtain t where t: "section_steps honest_context V s t" "live t = nodes w'" "G t" using assms(4) [OF s(1-3)] by blast
  have "F t" "\<forall>j \<in> set (jobs w'). known t (job_key j) (job_winner j)"
    using lastingD [OF assms(2) t(1) s(3)] lastingD [OF lasting_known t(1)] s(4) assms(3) by auto
  with t interleaved_steps [OF t(1) s(1)] show ?thesis by (auto simp: runs_as_def)
qed

lemma runs_wf:
  assumes "runs_as V F w" and "tokens_disjoint (tokens_of V)"
  shows "wf_world (tokens_of V) w"
proof -
  obtain s where s: "interleaved honest_context V s" "live s = nodes w"
    "\<forall>j \<in> set (jobs w). known s (job_key j) (job_winner j)"
    using assms(1) by (auto simp: runs_as_def)
  note wf = honest.interleaved_wf [OF s(1) assms(2)]
  show ?thesis
    using wf_cloudD(1,2) [OF wf] s(2,3) wf_cloud_known [OF wf] by (auto simp: wf_world_def wf_job_def)
qed

text \<open>Every version that a server holds has been built by a coordinator.\<close>

lemma runs_versions:
  assumes "runs_as V F w" and "tokens_disjoint (tokens_of V)"
  shows "runs_as V (\<lambda>s. F s \<and> (\<forall>a nd. nodes w a = Some nd \<longrightarrow> node_versions (known s) nd)) w"
  using assms wf_cloudD(3) honest.interleaved_wf unfolding runs_as_def by fastforce

lemma lasting_versions [lasting_intros]: "lasting (\<lambda>s. node_versions (known s) nd)"
  using lasting_known node_versions_mono unfolding lasting_def by (metis (no_types, lifting))

text \<open>A server's own section; a server that does not run takes none.\<close>

lemma runs_update:
  assumes "runs_as V F w" and "lasting F"
    and "\<And>s nd. interleaved honest_context V s \<Longrightarrow> F s \<Longrightarrow> live s a = Some nd \<Longrightarrow>
      \<exists>t. section_steps honest_context V s t \<and> live t = (live s)(a \<mapsto> f nd)"
  shows "runs_as V F (update_node a f w)"
proof -
  have "runs_as V (\<lambda>s. F s \<and> True) (update_node a f w)"
  proof (rule runs_by [OF assms(1,2)])
    fix s assume s: "interleaved honest_context V s" "live s = nodes w" "F s"
    show "\<exists>t. section_steps honest_context V s t \<and> live t = nodes (update_node a f w) \<and> True"
    proof (cases "nodes w a")
      case None
      with s show ?thesis by (intro exI [of _ s]) (simp add: update_node_def)
    next
      case (Some nd)
      with s assms(3) [OF s(1,3), of nd] show ?thesis by (simp add: update_node_def)
    qed
  qed simp
  then show ?thesis by (rule runs_weaken) simp
qed

lemma one_section: "section_step honest_context V s (put_live a nd u) \<Longrightarrow> live u = live s \<Longrightarrow>
  \<exists>t. section_steps honest_context V s t \<and> live t = (live s)(a \<mapsto> nd)"
  by (intro exI [of _ "put_live a nd u"]) auto

lemma runs_marks:
  assumes "runs_as V F w" and "lasting F"
  shows "runs_as V F (update_node a (markUnreachable p) w)"
    and "runs_as V F (update_node a (markReachable p) w)"
  using runs_update [OF assms, of a "markUnreachable p"] runs_update [OF assms, of a "markReachable p"]
    one_section [OF mark] one_section [OF unmark] by blast+

subsection \<open>Replicated writes\<close>

lemma request_of_version: "version_request (rw_key req) (request_version req) (rw_hint_for req) = req"
  by (simp add: version_request_def request_version_def)

lemma hold_sections:
  assumes "known s k v" and "live s a = Some nd"
  shows "\<exists>u. section_steps honest_context V s u \<and> live u = (live s)(a \<mapsto> receiveHint t (version_hint k v now) nd)"
proof -
  let ?req = "version_request k v (Some t)" and ?m = "markUnreachable t nd"
  let ?s = "s\<lparr>in_flight := insert ?req (in_flight s)\<rparr>"
  let ?u = "put_live a (hold_hint t (version_hint k v now) ?m) (put_live a ?m ?s)"
  have "section_step honest_context V s ?s" by (rule replicate [OF assms(1)])
  moreover have "section_step honest_context V ?s (put_live a ?m ?s)" using assms(2) by (intro mark) simp
  moreover have "section_step honest_context V (put_live a ?m ?s) ?u"
    using hold [of "put_live a ?m ?s" a ?m ?req t honest_context V now]
    by (simp add: version_request_def request_version_def)
  ultimately have "section_steps honest_context V s ?u" by (meson converse_rtranclp_into_rtranclp r_into_rtranclp)
  then show ?thesis by (intro exI [of _ ?u]) (simp add: receiveHint_sections)
qed

lemma ReplicateWrite_sections:
  assumes "known s (rw_key req) (request_version req)" and "live s a = Some nd"
    and "ReplicateWrite req now nd = Some (resp, nd')"
  shows "\<exists>t. section_steps honest_context V s t \<and> live t = (live s)(a \<mapsto> nd') \<and>
    (rwr_success resp \<longrightarrow> rw_hint_for req = None \<longrightarrow> (a, req) \<in> delivered t)"
proof (cases "isSelfRemoved nd")
  case None
  with assms(3) show ?thesis by (simp add: ReplicateWrite_def)
next
  case (Some removed)
  show ?thesis
  proof (cases removed)
    case True
    with Some assms(2,3) have "nd' = nd" "\<not> rwr_success resp" by (auto simp: ReplicateWrite_def)
    with assms(2) show ?thesis by (intro exI [of _ s]) auto
  next
    case False
    show ?thesis
    proof (cases "rw_hint_for req")
      case None
      then have "nd' = snd (storeReplicatedWrite (rw_key req) (request_version req) nd)"
        using Some False assms(3)
        by (auto simp: ReplicateWrite_def request_version_def Let_def split: prod.splits)
      with deliver_sections [OF assms(1,2)] None request_of_version [of req] show ?thesis by fastforce
    next
      case (Some t)
      then have "nd' = receiveHint t (version_hint (rw_key req) (request_version req) now) nd"
        using \<open>isSelfRemoved nd = Some removed\<close> False assms(3)
        by (auto simp: ReplicateWrite_def request_version_def version_hint_def Let_def)
      with hold_sections [OF assms(1,2)] Some show ?thesis by auto
    qed
  qed
qed

lemma runs_rpc_write:
  assumes "rpc E a (ReplicateWrite req) w = (r, w')" and "runs_as V F w" and "lasting F"
    and "\<And>s. F s \<Longrightarrow> known s (rw_key req) (request_version req)"
  shows "runs_as V (\<lambda>s. F s \<and> (\<forall>x. r = Some x \<longrightarrow> rwr_success x \<longrightarrow> rw_hint_for req = None \<longrightarrow> (a, req) \<in> delivered s)) w'"
  using assms(1)
proof (cases rule: rpc_cases)
  case failed
  with assms(2) show ?thesis by simp
next
  case (handled nd x nd')
  show ?thesis
  proof (rule runs_by [OF assms(2,3)])
    fix s assume s: "live s = nodes w" "F s"
    from ReplicateWrite_sections [OF assms(4) [OF s(2)], of a nd] handled s(1) show
      "\<exists>t. section_steps honest_context V s t \<and> live t = nodes w' \<and>
        (\<forall>x. r = Some x \<longrightarrow> rwr_success x \<longrightarrow> rw_hint_for req = None \<longrightarrow> (a, req) \<in> delivered t)"
      by fastforce
  qed (simp add: handled)
qed

lemma runs_rpc_write_keeps:
  "rpc E a (ReplicateWrite req) w = (r, w') \<Longrightarrow> runs_as V F w \<Longrightarrow> lasting F \<Longrightarrow>
   (\<And>s. F s \<Longrightarrow> known s (rw_key req) (request_version req)) \<Longrightarrow> runs_as V F w'"
  using runs_rpc_write runs_weaken by blast

text \<open>A call that changes nothing at its target.\<close>

lemma runs_observe:
  assumes "rpc E a h w = (r, w')" and "runs_as V F w" and "\<And>now nd x nd'. h now nd = Some (x, nd') \<Longrightarrow> nd' = nd"
  shows "runs_as V F w'"
  using assms(1)
proof (cases rule: rpc_cases)
  case (handled nd x nd')
  with assms(3) [OF handled(2)] assms(2) show ?thesis by (simp add: runs_as_def fun_upd_idem)
qed (use assms(2) in simp)

subsection \<open>Put\<close>

lemma runs_task_step:
  assumes "task_step E self k v c t w = (cont, ack, w')" and "runs_as V F w" and "lasting F"
    and "\<And>s. F s \<Longrightarrow> known s k \<lparr>vv_value = v, vv_clock = c\<rparr>"
  shows "runs_as V F w'"
proof -
  obtain r w1 where r: "rpc E (pt_target t) (ReplicateWrite (task_request k v c t)) w = (r, w1)" by fastforce
  have "runs_as V F w1"
    using r assms(2,3) by (rule runs_rpc_write_keeps) (use assms(4) in \<open>simp add: task_request_def request_version_def\<close>)
  with assms(1,3) r show ?thesis
    by (auto simp: task_step_def Let_def runs_marks split: option.splits if_splits)
qed

lemma runs_local_write:
  assumes "local_write E self k v ctx e w = (c, w')" and "runs_as V F w" and "lasting F"
    and "tokens_disjoint (tokens_of V)" and "nodes w self = Some nd" and "ple_node_id e = self"
    and "\<And>s. F s \<Longrightarrow> honest_context s k ctx"
  shows "runs_as V (\<lambda>s. F s \<and> known s k \<lparr>vv_value = v, vv_clock = c\<rparr>) w'"
proof (rule runs_by [OF assms(2,3)])
  fix s assume s: "interleaved honest_context V s" "live s = nodes w" "F s"
  have live: "live s self = Some nd" using s(2) assms(5) by simp
  let ?v = "\<lparr>vv_value = v, vv_clock = c\<rparr>"
  show "\<exists>t. section_steps honest_context V s t \<and> live t = nodes w' \<and> known t k ?v"
  proof (cases "hint_for_node_id e")
    case None
    obtain nd' where com: "commitCoordinatedWrite k v ctx (clock_at E (tick w)) nd = (c, nd')"
      and w': "w' = set_node self nd' (advance w)"
      using assms(1,5) None by (auto simp: local_write_def split: prod.splits)
    have "section_step honest_context V s (put_live self nd' (s\<lparr>minted := (self, k, ?v) # minted s\<rparr>))"
      by (rule commit [where C = honest_context, OF live assms(7) [OF s(3)] com])
    then show ?thesis
      using s(2) w' by (intro exI [of _ "put_live self nd' (s\<lparr>minted := (self, k, ?v) # minted s\<rparr>)"]) auto
  next
    case (Some owner)
    have c: "c = buildNewClock ctx None (nd_id nd) (clock_at E (tick w))"
      using assms(1,5,6) Some wf_cloudD(2) [OF honest.interleaved_wf [OF s(1) assms(4)] live]
      by (auto simp: local_write_def Let_def)
    let ?h = "version_hint k ?v (clock_at E (tick w + 1))"
    let ?s = "s\<lparr>minted := (self, k, ?v) # minted s\<rparr>"
    have w': "w' = set_node self (storeOwnHint owner ?h nd) (advance (advance w))"
      using assms(1,5) Some by (auto simp: local_write_def Let_def version_hint_def)
    have "section_step honest_context V s ?s" by (rule stand_in [where C = honest_context, OF live assms(7) [OF s(3)] c])
    moreover have "section_step honest_context V ?s (put_live self (storeOwnHint owner ?h nd) ?s)"
      by (rule own_hint) (use live in simp_all)
    ultimately have "section_steps honest_context V s (put_live self (storeOwnHint owner ?h nd) ?s)"
      by (meson converse_rtranclp_into_rtranclp r_into_rtranclp)
    then show ?thesis using s(2) w' by (intro exI [of _ "put_live self (storeOwnHint owner ?h nd) ?s"]) simp
  qed
next
  show "set (jobs w') \<subseteq> set (jobs w)"
    using assms(1,5) by (auto simp: local_write_def Let_def split: option.splits prod.splits)
qed

lemma runs_coordinatePut:
  assumes "coordinatePut E self k v ctx pref W w = (resp, w')" and "runs_as V F w" and "lasting F"
    and "tokens_disjoint (tokens_of V)" and "nodes w self = Some nd" and "self \<in> set (map ple_node_id pref)"
    and "\<And>s. F s \<Longrightarrow> honest_context s k ctx"
  shows "runs_as V (\<lambda>s. F s \<and> honest_context s k (Some (pr_context resp))) w'"
proof (cases "int (length pref) < W mod 2 ^ 64")
  case True
  with assms(1,2) show ?thesis by (auto simp: coordinatePut_def put_refused_def intro: runs_weaken)
next
  case False
  obtain e where e: "find (\<lambda>e. ple_node_id e = self) pref = Some e"
    using assms(6) by (cases "find (\<lambda>e. ple_node_id e = self) pref") (auto simp: find_None_iff)
  then have id: "ple_node_id e = self" by (auto simp: find_Some_iff)
  obtain c w1 where lw: "local_write E self k v ctx e w = (c, w1)" by fastforce
  let ?F = "\<lambda>s. F s \<and> known s k \<lparr>vv_value = v, vv_clock = c\<rparr>"
  let ?pool = "map (initial_task (map ple_node_id pref)) (filter (\<lambda>e. ple_node_id e \<noteq> self) pref)"
  obtain n where run: "run_writes E self k v c ?pool 1 w1 = (n, w')" and resp: "pr_context resp = c"
    using assms(1) False e lw by (auto simp: coordinatePut_def Let_def split: prod.splits)
  have F: "lasting ?F" by (intro lasting_intros assms(3))
  have "runs_as V ?F w1" by (rule runs_local_write [OF lw assms(2-5) id assms(7)])
  then have "runs_as V ?F w'"
    by (rule run_writes_invariant [where P = "\<lambda>M acks x. runs_as V ?F x", OF run])
      (rule runs_task_step [OF _ _ F], assumption, assumption, erule conjunct2)
  then show ?thesis by (rule runs_weaken) (use resp honest_known in force)
qed

definition put_answered :: "(cloud \<Rightarrow> bool) \<Rightarrow> key \<Rightarrow> PutResponse option \<Rightarrow> cloud \<Rightarrow> bool" where
  "put_answered F k r s \<longleftrightarrow> F s \<and> (\<forall>x. r = Some x \<longrightarrow> honest_context s k (Some (pr_context x)))"

lemma runs_Put_if:
  assumes "Put E self req w = (r, w')" and "runs_as V F w" and "lasting F" and "tokens_disjoint (tokens_of V)"
    and "\<And>s. F s \<Longrightarrow> honest_context s (pq_key req) (Some (pq_context req))"
    and "\<And>resp ts. \<not> pq_forwarded req \<Longrightarrow> forward_loop E self ts req (advance w) = (resp, w') \<Longrightarrow>
      runs_as V (\<lambda>s. F s \<and> honest_context s (pq_key req) (Some (pr_context resp))) w'"
  shows "runs_as V (put_answered F (pq_key req) r) w'"
proof (cases "nodes w self")
  case None
  with assms(1,2) show ?thesis by (auto simp: Put.simps put_answered_def elim: runs_weaken)
next
  case (Some nd)
  from Some assms(1) show ?thesis
  proof (cases rule: Put_unforwarded_cases)
    case stay
    with assms(2) show ?thesis by (auto simp: put_refused_def put_answered_def elim: runs_weaken)
  next
    case (coordinate resp)
    from runs_coordinatePut [OF coordinate(3) assms(2-4) Some coordinate(2) assms(5)] coordinate(1) show ?thesis
      by (simp add: put_answered_def [abs_def])
  next
    case (forward resp ts)
    with assms(6) [OF forward(2,3)] show ?thesis by (simp add: put_answered_def [abs_def])
  qed
qed

lemma runs_forward_loop:
  assumes "forward_loop E self ts req w = (resp, w')" and "runs_as V F w" and "lasting F" and "tokens_disjoint (tokens_of V)"
    and "\<And>s. F s \<Longrightarrow> honest_context s (pq_key req) (Some (pq_context req))"
  shows "runs_as V (\<lambda>s. F s \<and> honest_context s (pq_key req) (Some (pr_context resp))) w'"
  using assms(1,2)
proof (induction ts arbitrary: w)
  case Nil
  then show ?case by (auto simp: put_refused_def elim: runs_weaken)
next
  case (Cons t ts)
  obtain r w1 where put: "Put E t (req\<lparr>pq_forwarded := True\<rparr>) (advance w) = (r, w1)" by fastforce
  have "runs_as V F (advance w)" using Cons.prems(2) by simp
  then have run: "runs_as V (put_answered F (pq_key req) r) w1"
    using runs_Put_if [OF put _ assms(3,4)] assms(5) by simp
  have F1: "runs_as V F w1" using run by (rule runs_weaken) (simp add: put_answered_def)
  have marked: "runs_as V F (update_node self (markUnreachable t) x)" if "runs_as V F x" for x
    using that assms(3) by (rule runs_marks(1))
  consider (more) x where "forward_loop E self ts req x = (resp, w')" "runs_as V F x" | (answered) "r = Some resp" "w' = w1"
    using Cons.prems put F1 marked [OF F1] marked [of "advance w"] by (auto split: if_splits option.splits)
  then show ?case
  proof cases
    case more
    then show ?thesis by (rule Cons.IH)
  next
    case answered
    with run show ?thesis by (simp add: put_answered_def [abs_def])
  qed
qed

lemma runs_Put:
  assumes "Put E self req w = (r, w')" and "runs_as V F w" and "lasting F" and "tokens_disjoint (tokens_of V)"
    and "\<And>s. F s \<Longrightarrow> honest_context s (pq_key req) (Some (pq_context req))"
  shows "runs_as V (put_answered F (pq_key req) r) w'"
  using runs_forward_loop [OF _ _ assms(3,4), of E self _ req "advance w" _ w'] assms(2,5)
  by (intro runs_Put_if [OF assms]) simp_all


subsection \<open>Get and the repairs\<close>

lemma runs_fan_out:
  assumes "run_once E step pool res w = (res', w')" and "runs_as V F w"
    and "\<And>t res w res1 w1. t \<in> set pool \<Longrightarrow> runs_as V F w \<Longrightarrow> step t res w = (res1, w1) \<Longrightarrow> runs_as V F w1"
  shows "runs_as V F w'"
  by (rule run_once_keeps [where Q = "runs_as V F", OF assms(1,2)]) (rule assms(3))

lemma runs_read_step:
  assumes "read_step E self k p res w = (res', w')" and "runs_as V F w" and "lasting F"
  shows "runs_as V F w'"
proof -
  obtain r w1 where r: "rpc E p (\<lambda>now nd. ReplicateRead k nd) w = (r, w1)" by fastforce
  have "runs_as V F w1" using r assms(2) by (rule runs_observe) (rule ReplicateRead_state)
  with assms(1,3) r show ?thesis by (auto simp: read_step_def runs_marks split: option.splits)
qed

lemma runs_start_repair:
  assumes "runs_as V F w" and "lasting F" and "\<And>s. F s \<Longrightarrow> known s k win"
  shows "runs_as V F (start_repair self k win results w)"
proof -
  have upd: "runs_as V F (update_node self (\<lambda>nd. snd (storeReplicatedWrite k win nd)) w)"
    using assms deliver_sections by (intro runs_update) blast+
  have queue: "runs_as V F (x\<lparr>jobs := jobs x @ [\<lparr>job_node = self, job_key = k, job_winner = win, job_peers = ps\<rparr>]\<rparr>)"
    if "runs_as V F x" for x ps
    using that assms(3) by (fastforce simp: runs_as_def)
  show ?thesis using assms(1) upd queue by (simp add: start_repair_def Let_def)
qed

definition get_answered :: "(cloud \<Rightarrow> bool) \<Rightarrow> key \<Rightarrow> GetResponse option \<Rightarrow> cloud \<Rightarrow> bool" where
  "get_answered F k r s \<longleftrightarrow> F s \<and> (\<forall>x. r = Some x \<longrightarrow> ge_found x \<longrightarrow> honest_context s k (Some (ge_context x)))"

lemma get_not_found: "runs_as V F w \<Longrightarrow> (\<And>x. r = Some x \<Longrightarrow> \<not> ge_found x) \<Longrightarrow> runs_as V (get_answered F k r) w"
  by (auto simp: get_answered_def elim: runs_weaken)

definition read_fan_out :: "env \<Rightarrow> node_id \<Rightarrow> key \<Rightarrow> node \<Rightarrow> world \<Rightarrow> ReplicaResult list \<times> world" where
  "read_fan_out E self k nd w =
     (let ids = map ple_node_id (preferenceListForKey nd k (nd_N nd))
      in run_once E (read_step E self k) (filter (\<lambda>p. p \<noteq> self) ids)
           (if self \<in> set ids then [local_result nd k] else []) w)"

lemma Get_run_cases:
  assumes "Get E self k w = (r, w')" and "nodes w self = Some nd"
  obtains (stay) "w' = w" "r = None \<or> r = Some get_refused"
  | (unanswered) results where "read_fan_out E self k nd w = (results, w')" "\<And>x. r = Some x \<Longrightarrow> \<not> ge_found x"
  | (found) results w1 v where "read_fan_out E self k nd w = (results, w1)"
      "resolveGetResult (found_versions results) = Some v"
      "r = Some \<lparr>ge_found = True, ge_value = vv_value (winner v), ge_responses = length results,
         ge_context = vv_clock (winner v)\<rparr>" "w' = start_repair self k (winner v) results w1"
proof -
  obtain results w1 where run: "read_fan_out E self k nd w = (results, w1)" by fastforce
  note eq = assms(1) [unfolded Get_def assms(2) option.case Let_def run [unfolded read_fan_out_def Let_def] prod.case]
  show ?thesis
  proof (cases "isSelfRemoved nd = Some False \<and> \<not> int (length (preferenceListForKey nd k (nd_N nd))) < nd_R nd")
    case False
    with eq show ?thesis by (intro stay) (auto split: option.splits bool.splits if_splits)
  next
    case True
    show ?thesis
    proof (cases "resolveGetResult (found_versions results)")
      case None
      with eq True run show ?thesis by (intro unanswered) (auto simp: get_refused_def split: if_splits)
    next
      case (Some v)
      with eq True run found unanswered show ?thesis by (auto simp: get_refused_def split: if_splits)
    qed
  qed
qed

lemma runs_read_fan_out:
  "read_fan_out E self k nd w = (results, w1) \<Longrightarrow> runs_as V F w \<Longrightarrow> lasting F \<Longrightarrow> runs_as V F w1"
  unfolding read_fan_out_def Let_def by (erule runs_fan_out) (auto intro: runs_read_step)

lemma runs_Get:
  assumes "Get E self k w = (r, w')" and "runs_as V F w" and "lasting F" and "tokens_disjoint (tokens_of V)"
  shows "runs_as V (get_answered F k r) w'"
proof (cases "nodes w self")
  case None
  with assms(1,2) show ?thesis by (auto simp: Get_def intro: get_not_found)
next
  case (Some nd)
  from assms(1) Some show ?thesis
  proof (cases rule: Get_run_cases)
    case stay
    with assms(2) show ?thesis by (auto simp: get_refused_def intro: get_not_found)
  next
    case (unanswered results)
    with runs_read_fan_out [OF unanswered(1) assms(2,3)] show ?thesis by (auto intro: get_not_found)
  next
    case (found results w1 v)
    have wf: "wf_world (tokens_of V) w" using assms(2,4) by (rule runs_wf)
    have col: "collected w self k (map ple_node_id (preferenceListForKey nd k (nd_N nd))) results w1"
      using found(1) Some wf_worldD [OF wf Some] unfolding read_fan_out_def Let_def
      by (intro run_reads_collected) (auto simp: preferenceListForKey_def Let_def preference_ids_distinct)
    obtain q nq where q: "nodes w q = Some nq" "nd_kv nq k = Some (winner v)"
      using found_versions_answer [OF winner_facts(1) [OF wf col found(2)] col] by blast
    let ?F = "\<lambda>s. F s \<and> known s k (winner v)"
    have "runs_as V ?F w"
      using runs_versions [OF assms(2,4)] by (rule runs_weaken) (use q in \<open>auto simp: node_versions_def\<close>)
    moreover have F: "lasting ?F" by (intro lasting_intros assms(3))
    ultimately have "runs_as V ?F w1" using runs_read_fan_out [OF found(1)] by blast
    then have "runs_as V ?F w'" unfolding found(4) using F by (rule runs_start_repair) simp
    then show ?thesis by (rule runs_weaken) (use found(3) honest_known in \<open>auto simp: get_answered_def\<close>)
  qed
qed

lemma runs_run_job:
  assumes "runs_as V F w" and "lasting F"
  shows "runs_as V F (run_job E i w)"
proof (cases "i < length (jobs w)")
  case True
  let ?j = "jobs w ! i" and ?w = "w\<lparr>jobs := drop_nth i (jobs w)\<rparr>"
  let ?F = "\<lambda>s. F s \<and> known s (job_key ?j) (job_winner ?j)"
  obtain w' where run: "run_once E (repair_step E (job_node ?j) (job_key ?j) (job_winner ?j))
      (job_peers ?j) () ?w = ((), w')"
    by (cases "run_once E (repair_step E (job_node ?j) (job_key ?j) (job_winner ?j)) (job_peers ?j) () ?w") simp
  have "?j \<in> set (jobs w)" using True by simp
  with assms(1) have F: "runs_as V ?F ?w"
    using set_drop_nth_subset [of i "jobs w"] by (fastforce simp: runs_as_def)
  have L: "lasting ?F" by (intro lasting_intros assms(2))
  have step: "runs_as V ?F x'"
    if "runs_as V ?F x" "repair_step E self (job_key ?j) (job_winner ?j) p u x = (u', x')" for self p u u' x x'
  proof -
    obtain r x1 where r: "rpc E p (ReplicateWrite (repair_request (job_key ?j) (job_winner ?j))) x = (r, x1)"
      by fastforce
    have "runs_as V ?F x1"
      using r that(1) L by (rule runs_rpc_write_keeps) (simp add: repair_request_def request_version_def)
    with that(2) r runs_marks(1) [OF _ L] show ?thesis by (auto simp: repair_step_def split: option.splits)
  qed
  have "runs_as V ?F w'" using run F by (rule runs_fan_out) (rule step)
  with True run show ?thesis by (simp add: run_job_def repairReplicas_def Let_def runs_weaken)
qed (use assms in \<open>simp add: run_job_def\<close>)

subsection \<open>Handoff\<close>

lemma runs_deliver_step:
  assumes "deliver_step E self t p u w = (u', w')" and "runs_as V F w" and "lasting F"
    and "\<And>s. F s \<Longrightarrow> known s (hint_key (snd p)) (hint_version (snd p))" and "fst p = hint_key (snd p)"
  shows "runs_as V F w'"
proof -
  let ?req = "hint_request (snd p)"
  obtain r w1 where r: "rpc E t (ReplicateWrite ?req) w = (r, w1)" by fastforce
  let ?F = "\<lambda>s. F s \<and> (\<forall>x. r = Some x \<longrightarrow> rwr_success x \<longrightarrow> rw_hint_for ?req = None \<longrightarrow> (t, ?req) \<in> delivered s)"
  have w1: "runs_as V ?F w1" by (rule runs_rpc_write [OF r assms(2,3)]) (simp add: assms(4))
  have L: "lasting ?F" by (intro lasting_intros assms(3))
  show ?thesis
  proof (cases "\<exists>x. r = Some x \<and> rwr_success x")
    case True
    have "runs_as V ?F (update_node self (drop_hint t (fst p) (snd p)) w1)"
    proof (rule runs_update [OF w1 L])
      fix s nd assume "?F s" "live s self = Some nd"
      with True show
        "\<exists>u. section_steps honest_context V s u \<and> live u = (live s)(self \<mapsto> drop_hint t (fst p) (snd p) nd)"
        unfolding assms(5) by (intro one_section [OF drop]) (auto simp: hint_request_def)
    qed
    with True assms(1) r show ?thesis
      by (cases p) (auto simp: deliver_step_def elim: runs_weaken)
  next
    case False
    have "runs_as V F w1" using w1 by (rule runs_weaken) simp
    with False assms(1,3) r show ?thesis
      by (cases p) (auto simp: deliver_step_def runs_marks split: option.splits)
  qed
qed

lemma runs_deliverHints:
  assumes "runs_as V F w" and "lasting F" and "tokens_disjoint (tokens_of V)"
  shows "runs_as V F (deliverHints E self t w)"
proof (cases "\<exists>nd hs. nodes w self = Some nd \<and> nd_hints nd t = Some hs")
  case False
  with assms(1) show ?thesis by (auto simp: deliverHints_def split: option.split)
next
  case True
  then obtain nd hs where nd: "nodes w self = Some nd" and hs: "nd_hints nd t = Some hs" by blast
  obtain w' where run: "run_once E (deliver_step E self t) hs () w = ((), w')"
    by (cases "run_once E (deliver_step E self t) hs () w") simp
  have wfh: "wf_hints hs"
    using wf_worldD [OF runs_wf [OF assms(1,3)] nd] hs by (auto simp: wf_node_def wf_hint_table_def)
  then have entry: "fst p = hint_key (snd p)" "hint_at t (fst p) nd = Some (snd p)" if "p \<in> set hs" for p
    using that hs by (auto simp: wf_hints_def hint_at_def)
  let ?F = "\<lambda>s. F s \<and> (\<forall>p \<in> set hs. known s (hint_key (snd p)) (hint_version (snd p)))"
  have start: "runs_as V ?F w"
    using runs_versions [OF assms(1,3)]
    by (rule runs_weaken) (use nd entry in \<open>fastforce simp: node_versions_def\<close>)
  have L: "lasting ?F" by (intro lasting_intros assms(2))
  have "runs_as V ?F w'"
    using run start
  proof (rule runs_fan_out)
    fix p u x u1 x1 assume p: "p \<in> set hs" and x: "runs_as V ?F x" "deliver_step E self t p u x = (u1, x1)"
    show "runs_as V ?F x1"
      by (rule runs_deliver_step [OF x(2,1) L]) (use p entry in auto)
  qed
  then have "runs_as V F w'" by (rule runs_weaken) simp
  with nd hs run show ?thesis by (simp add: deliverHints_def)
qed

lemma runs_settle:
  assumes "lasting F" and "tokens_disjoint (tokens_of V)"
  shows "runs_as V F w \<Longrightarrow> runs_as V F (settle_peers E self ps answered w)"
  by (induction ps arbitrary: w) (simp_all add: runs_deliverHints runs_marks assms)

lemma runs_reachabilityRound:
  assumes "runs_as V F w" and "lasting F" and "tokens_disjoint (tokens_of V)"
  shows "runs_as V F (reachabilityRound E self w)"
proof (cases "nodes w self")
  case None
  with assms show ?thesis by (simp add: reachabilityRound_def)
next
  case (Some nd)
  obtain ans w1 where run: "run_once E (probe_step E) (unreachableSnapshot nd) [] w = (ans, w1)" by fastforce
  have "runs_as V F w1"
  proof (rule runs_fan_out [OF run assms(1)])
    fix p res x res1 x1 assume x: "runs_as V F x" "probe_step E p res x = (res1, x1)"
    obtain r x2 where r: "rpc E p (\<lambda>now nd. Some (Ping nd, nd)) x = (r, x2)" by fastforce
    have "runs_as V F x2" using r x(1) by (rule runs_observe) simp
    with x(2) r show "runs_as V F x1" by (auto simp: probe_step_def pingPeer_def)
  qed
  with Some run assms show ?thesis by (simp add: reachabilityRound_def Let_def runs_settle)
qed

subsection \<open>Membership\<close>

lemma runs_snapshot:
  assumes "runs_as V F w" and "lasting F" and "nodes w a = Some nd"
  shows "runs_as V (\<lambda>s. F s \<and> nd_table nd \<in> tables s) w"
proof (rule runs_by [OF assms(1,2)])
  fix s :: cloud assume s: "live s = nodes w"
  with assms(3) have "section_step honest_context V s (s\<lparr>tables := insert (nd_table nd) (tables s)\<rparr>)"
    by (intro snapshot) simp
  with s show "\<exists>t. section_steps honest_context V s t \<and> live t = nodes w \<and> nd_table nd \<in> tables t"
    by (intro exI [of _ "s\<lparr>tables := insert (nd_table nd) (tables s)\<rparr>"]) auto
qed simp

lemma GossipExchange_parts:
  "snd (GossipExchange \<lparr>gq_sender = a, gq_table = tbl\<rparr> nd) = snd (applyGossip tbl nd)"
  "gr_table (fst (GossipExchange \<lparr>gq_sender = a, gq_table = tbl\<rparr> nd)) = nd_table (snd (applyGossip tbl nd))"
  by (simp_all add: GossipExchange_def applyGossip_table split: prod.split)

lemma runs_SendGossip:
  assumes "SendGossip E self peer tbl w = (r, w')" and "runs_as V F w" and "lasting F"
    and "\<And>s. F s \<Longrightarrow> tbl \<in> tables s"
  shows "runs_as V (\<lambda>s. F s \<and> (\<forall>x. r = Some x \<longrightarrow> gr_table x \<in> tables s)) w'"
proof -
  let ?h = "\<lambda>now nd. Some (GossipExchange \<lparr>gq_sender = self, gq_table = tbl\<rparr> nd)"
  obtain q w1 where q: "rpc E peer ?h w = (q, w1)" by fastforce
  have "runs_as V (\<lambda>s. F s \<and> (\<forall>x. q = Some x \<longrightarrow> gr_table x \<in> tables s)) w1"
    using q
  proof (cases rule: rpc_cases)
    case failed
    with assms(2) show ?thesis by simp
  next
    case (handled nd x nd')
    then have x: "nd' = snd (applyGossip tbl nd)" "gr_table x = nd_table nd'"
      using GossipExchange_parts [of self tbl nd] by (metis option.inject fst_conv snd_conv)+
    have "update_node peer (\<lambda>nd. snd (applyGossip tbl nd)) (advance w) = w1"
      using handled x by (simp add: update_node_def)
    moreover have "runs_as V F (update_node peer (\<lambda>nd. snd (applyGossip tbl nd)) (advance w))"
      using assms(2,3) by (intro runs_update) (auto intro!: one_section gossip assms(4))
    ultimately have "runs_as V F w1" by simp
    from runs_snapshot [OF this assms(3), of peer nd'] handled(3,4) x(2) show ?thesis by (auto elim: runs_weaken)
  qed
  moreover have "runs_as V F (update_node self (markUnreachable peer) w1)"
    by (rule runs_marks(1) [OF runs_weaken [OF calculation] assms(3)]) simp
  ultimately show ?thesis
    using assms(1) q by (auto simp: SendGossip_def split: option.splits)
qed

lemma runs_apply_response:
  assumes "runs_as V F w" and "lasting F" and "\<And>s. F s \<Longrightarrow> gr_table resp \<in> tables s"
  shows "runs_as V F (apply_response self resp w)"
  unfolding apply_response_def using assms by (intro runs_update) (auto intro!: one_section gossip)

lemma runs_gossip_exchange:
  assumes "SendGossip E self peer (nd_table nd) x = (r, w1)" and "runs_as V F x" and "lasting F"
    and "nodes x self = Some nd"
  shows "runs_as V F w1" and "r = Some resp \<Longrightarrow> runs_as V F (apply_response self resp w1)"
proof -
  let ?F = "\<lambda>s. F s \<and> nd_table nd \<in> tables s"
  let ?G = "\<lambda>s. ?F s \<and> (\<forall>x. r = Some x \<longrightarrow> gr_table x \<in> tables s)"
  have L: "lasting ?F" "lasting ?G" by (intro lasting_intros assms(3))+
  have G: "runs_as V ?G w1"
    by (rule runs_SendGossip [OF assms(1) runs_snapshot [OF assms(2-4)] L(1)]) simp
  then show "runs_as V F w1" by (rule runs_weaken) simp
  assume "r = Some resp"
  with runs_apply_response [OF G L(2), of resp self] show "runs_as V F (apply_response self resp w1)"
    by (auto elim: runs_weaken)
qed

lemma runs_gossipRound:
  assumes "runs_as V F w" and "lasting F"
  shows "runs_as V F (gossipRound E self w)"
proof (cases "nodes w self")
  case None
  with assms show ?thesis by (simp add: gossipRound_def)
next
  case (Some nd)
  have "runs_as V F (advance w)" "nodes (advance w) self = Some nd" using assms(1) Some by simp_all
  with Some assms runs_gossip_exchange [where x = "advance w"] show ?thesis
    by (fastforce simp: gossipRound_def split: option.split prod.split)
qed

lemma runs_try_seeds:
  assumes "lasting F"
  shows "try_seeds E self seeds w = (ok, w') \<Longrightarrow> runs_as V F w \<Longrightarrow> runs_as V F w'"
proof (induction seeds arbitrary: w)
  case (Cons a seeds)
  show ?case
  proof (cases "nodes w self")
    case None
    with Cons.prems show ?thesis by simp
  next
    case (Some nd)
    obtain r w1 where r: "SendGossip E self a (nd_table nd) w = (r, w1)" by fastforce
    note v = runs_gossip_exchange [OF r Cons.prems(2) assms Some]
    with Cons.prems(1) Some r Cons.IH [OF _ v(1)] show ?thesis by (auto split: option.splits)
  qed
qed simp

lemma runs_bootstrap:
  assumes "bootstrapFromSeed E self seeds w = (ok, w')" and "runs_as V F w" and "lasting F"
  shows "runs_as V F w'"
proof -
  have "bootstrap_passes n E self seeds w = (ok, w') \<Longrightarrow> runs_as V F w \<Longrightarrow> runs_as V F w'" for n w
    by (induction n arbitrary: w) (auto split: prod.splits bool.splits dest: runs_try_seeds [OF assms(3)])
  with assms show ?thesis by (auto simp: bootstrapFromSeed_def)
qed

subsection \<open>Processes\<close>

lemma runs_stop_process:
  assumes "runs_as V F w" and "lasting F"
  shows "runs_as V F (stop_process a w)"
proof -
  have "runs_as V (\<lambda>s. F s \<and> True) (stop_process a w)"
  proof (rule runs_by [OF assms])
    fix s :: cloud assume "live s = nodes w"
    then show "\<exists>t. section_steps honest_context V s t \<and> live t = nodes (stop_process a w) \<and> True"
      using crash [of honest_context V s a]
      by (intro exI [of _ "s\<lparr>live := (live s)(a := None)\<rparr>"]) (auto simp: stop_process_def)
  qed (auto simp: stop_process_def)
  then show ?thesis by (rule runs_weaken) simp
qed

lemma runs_launch:
  assumes "runs_as V F w" and "lasting F" and "nodes w a = None" and "valid_quorum N W R"
  shows "runs_as V F (launch_service E a (V a) N W R w)"
proof -
  have "runs_as V (\<lambda>s. F s \<and> True) (launch_service E a (V a) N W R w)"
  proof (rule runs_by [OF assms(1,2)])
    fix s :: cloud assume s: "live s = nodes w"
    let ?t = "put_live a (NodeServiceImpl a (V a) N W R (clock_at E (tick w))) s"
    have "section_step honest_context V s ?t" using assms(3,4) s by (intro start) simp_all
    with s show "\<exists>t. section_steps honest_context V s t \<and> live t = nodes (launch_service E a (V a) N W R w) \<and> True"
      by (intro exI [of _ ?t]) (auto simp: launch_service_def)
  qed (simp add: launch_service_def)
  then show ?thesis by (rule runs_weaken) simp
qed

lemma runs_node_main:
  assumes "node_main E argv w = (r, w')" and "runs_as V F w" and "lasting F"
    and "nodes w (na_listen (parse_args argv)) = None"
    and "\<forall>n. stoi (na_vnodes (parse_args argv)) = Inr n \<longrightarrow> n = V (na_listen (parse_args argv))"
  shows "runs_as V F w'"
  using assms(1)
proof (cases rule: node_main_cases)
  case refused
  with assms(2) show ?thesis by simp
next
  case (launched N W R n ok w1)
  let ?a = "na_listen (parse_args argv)"
  have "runs_as V F (launch_service E ?a n N W R w)"
    using runs_launch [OF assms(2-4) launched(2)] assms(5) launched(3) by simp
  then have "runs_as V F w1"
    using launched(4) runs_bootstrap [OF _ _ assms(3)] by (auto simp: join_seeds_def split: if_splits)
  then show ?thesis using launched(5) runs_stop_process [OF _ assms(3)] by auto
qed

subsection \<open>Clients\<close>

lemma runs_ping: "pingAddr E a w = (ok, w') \<Longrightarrow> runs_as V F w \<Longrightarrow> runs_as V F w'"
  using runs_observe [where h = "\<lambda>now nd. Some (Ping nd, nd)"] by (fastforce simp: pingAddr_def split: prod.splits)

lemma runs_connect:
  assumes "connect E seeds w = (c, w')" and "runs_as V F w"
  shows "runs_as V F w'" and "c = Some d \<Longrightarrow> dc_context d = Map.empty"
proof -
  have "first_alive E addrs w = (ok, w1) \<Longrightarrow> runs_as V F w \<Longrightarrow> runs_as V F w1" for addrs ok w w1
    by (induction addrs arbitrary: w) (auto split: prod.splits bool.splits dest: runs_ping)
  with assms show "runs_as V F w'" by (auto simp: connect_def split: if_splits prod.splits bool.splits)
  show "c = Some d \<Longrightarrow> dc_context d = Map.empty"
    using assms(1) by (auto simp: connect_def split: if_splits prod.splits bool.splits)
qed

text \<open>A client that only sends contexts which it has got from answers.\<close>

definition honest_client :: "DriftClient \<Rightarrow> cloud \<Rightarrow> bool" where
  "honest_client d s \<longleftrightarrow> (\<forall>k. honest_context s k (dc_context d k))"

lemma lasting_client [lasting_intros]: "lasting (honest_client d)"
  unfolding honest_client_def [abs_def] by (intro lasting_intros)

definition honest_request :: "PutRequest \<Rightarrow> cloud \<Rightarrow> bool" where
  "honest_request req s \<longleftrightarrow> honest_context s (pq_key req) (Some (pq_context req))"

text \<open>
  The interface between a client and the calls it makes: what a call needs of the cloud (\<open>H\<close>), and
  what its answer tells the client (\<open>G\<close>).
\<close>

locale simulated_call =
  fixes call :: "node_id \<Rightarrow> world \<Rightarrow> 'r option \<times> world"
    and V :: "node_id \<Rightarrow> int" and H :: "cloud \<Rightarrow> bool" and G :: "'r \<Rightarrow> cloud \<Rightarrow> bool"
  assumes call_runs: "call a w = (r, w') \<Longrightarrow> runs_as V F w \<Longrightarrow> lasting F \<Longrightarrow> tokens_disjoint (tokens_of V) \<Longrightarrow>
      (\<And>s. F s \<Longrightarrow> H s) \<Longrightarrow> runs_as V (\<lambda>s. F s \<and> (\<forall>x. r = Some x \<longrightarrow> G x s)) w'"
begin

lemma dial_runs:
  assumes "dial E call a w = (r, w')" and "runs_as V F w" and "lasting F" and "tokens_disjoint (tokens_of V)"
    and "\<And>s. F s \<Longrightarrow> H s"
  shows "runs_as V (\<lambda>s. F s \<and> (\<forall>x. r = Some x \<longrightarrow> G x s)) w'"
proof -
  obtain q w1 where q: "call a (advance w) = (q, w1)" by fastforce
  have adv: "runs_as V F (advance w)" using assms(2) by simp
  have "runs_as V (\<lambda>s. F s \<and> (\<forall>x. q = Some x \<longrightarrow> G x s)) w1" by (rule call_runs [OF q adv assms(3,4)]) (rule assms(5))
  with adv show ?thesis
    using assms(1) q by (auto simp: dial_def split: if_splits option.splits elim: runs_weaken)
qed

lemma attempts_run:
  assumes "lasting F" and "tokens_disjoint (tokens_of V)" and "\<And>s. F s \<Longrightarrow> H s"
  shows "attempt_seeds (dial E call) addrs w = (r, w') \<Longrightarrow> runs_as V F w \<Longrightarrow>
    runs_as V (\<lambda>s. F s \<and> (\<forall>x. r = Some x \<longrightarrow> G x s)) w'"
proof (induction addrs arbitrary: w)
  case Nil
  then show ?case by (auto elim: runs_weaken)
next
  case (Cons a addrs)
  obtain q w1 where q: "dial E call a w = (q, w1)" by fastforce
  have run: "runs_as V (\<lambda>s. F s \<and> (\<forall>x. q = Some x \<longrightarrow> G x s)) w1"
    by (rule dial_runs [OF q Cons.prems(2) assms(1,2)]) (rule assms(3))
  show ?case
  proof (cases q)
    case None
    have "runs_as V F w1" using run by (rule runs_weaken) simp
    with Cons q None show ?thesis by simp
  next
    case (Some x)
    with Cons.prems(1) q run show ?thesis by simp
  qed
qed

end

interpretation put_call: simulated_call "\<lambda>addr. Put E addr req" V "honest_request req"
    "\<lambda>x s. honest_context s (pq_key req) (Some (pr_context x))" for E req V
  by unfold_locales
    (use runs_Put in \<open>simp add: put_answered_def [abs_def] honest_request_def\<close>)

interpretation get_call: simulated_call "\<lambda>addr. Get E addr k" V "\<lambda>s. True"
    "\<lambda>x s. ge_found x \<longrightarrow> honest_context s k (Some (ge_context x))" for E k V
  by unfold_locales (use runs_Get in \<open>simp add: get_answered_def [abs_def]\<close>)

lemma honest_client_upd:
  "honest_client d s \<Longrightarrow> honest_context s k (Some c) \<Longrightarrow> dc_context d' = (dc_context d)(k \<mapsto> c) \<Longrightarrow> honest_client d' s"
  by (simp add: honest_client_def)

lemma honest_client_same: "honest_client d s \<Longrightarrow> dc_context d' = dc_context d \<Longrightarrow> honest_client d' s"
  by (simp add: honest_client_def)

lemma honest_client_request: "honest_client d s \<Longrightarrow> honest_request (client_request d k v) s"
  by (auto simp: honest_client_def honest_request_def client_request_def split: option.split dest: spec [of _ k])

lemma runs_client_put:
  assumes "client_put E k v d w = (res, d', w')" and "runs_as V F w" and "lasting F" and "tokens_disjoint (tokens_of V)"
    and "\<And>s. F s \<Longrightarrow> honest_client d s"
  shows "runs_as V (\<lambda>s. F s \<and> honest_client d' s) w'"
proof -
  let ?req = "client_request d k v" and ?order = "attempt_order (fst (nextStart d)) (dc_seeds d)"
  obtain q w1 where run: "attempt_seeds (dial E (\<lambda>addr. Put E addr ?req)) ?order w = (q, w1)" by fastforce
  have key: "pq_key ?req = k" by (simp add: client_request_def)
  have "runs_as V (\<lambda>s. F s \<and> (\<forall>x. q = Some x \<longrightarrow> honest_context s k (Some (pr_context x)))) w1"
    using put_call.attempts_run [OF assms(3,4) _ run assms(2)] honest_client_request assms(5) by (simp add: key)
  then have "runs_as V (\<lambda>s. F s \<and> (\<forall>x. q = Some x \<longrightarrow> honest_context s k (Some (pr_context x)))) w'" using assms(1) run by (auto simp: client_put_def nextStart_def split: option.splits)
  then show ?thesis
  proof (rule runs_weaken)
    fix s assume s: "F s \<and> (\<forall>x. q = Some x \<longrightarrow> honest_context s k (Some (pr_context x)))"
    note d = assms(5) [of s]
    show "F s \<and> honest_client d' s"
    proof (cases q)
      case None
      with assms(1) run have "dc_context d' = dc_context d" by (auto simp: client_put_def nextStart_def)
      with s d show ?thesis using honest_client_same by blast
    next
      case (Some x)
      with assms(1) run have "dc_context d' \<in> {dc_context d, (dc_context d)(k \<mapsto> pr_context x)}"
        by (auto simp: client_put_def nextStart_def remember_put_def split: if_splits)
      with s d Some show ?thesis using honest_client_same honest_client_upd by blast
    qed
  qed
qed

lemma runs_client_get:
  assumes "client_get E k d w = (res, d', w')" and "runs_as V F w" and "lasting F" and "tokens_disjoint (tokens_of V)"
    and "\<And>s. F s \<Longrightarrow> honest_client d s"
  shows "runs_as V (\<lambda>s. F s \<and> honest_client d' s) w'"
proof -
  let ?order = "attempt_order (fst (nextStart d)) (dc_seeds d)"
  obtain q w1 where run: "attempt_seeds (dial E (\<lambda>addr. Get E addr k)) ?order w = (q, w1)" by fastforce
  have "runs_as V (\<lambda>s. F s \<and> (\<forall>x. q = Some x \<longrightarrow> ge_found x \<longrightarrow> honest_context s k (Some (ge_context x)))) w1"
    using get_call.attempts_run [OF assms(3,4) _ run assms(2)] by simp
  then have "runs_as V (\<lambda>s. F s \<and> (\<forall>x. q = Some x \<longrightarrow> ge_found x \<longrightarrow> honest_context s k (Some (ge_context x)))) w'" using assms(1) run by (auto simp: client_get_def nextStart_def split: option.splits)
  then show ?thesis
  proof (rule runs_weaken)
    fix s assume s: "F s \<and> (\<forall>x. q = Some x \<longrightarrow> ge_found x \<longrightarrow> honest_context s k (Some (ge_context x)))"
    note d = assms(5) [of s]
    show "F s \<and> honest_client d' s"
    proof (cases "\<exists>x. q = Some x \<and> ge_found x")
      case False
      with assms(1) run have "dc_context d' = dc_context d"
        by (auto simp: client_get_def nextStart_def remember_get_def split: option.splits)
      with s d show ?thesis using honest_client_same by blast
    next
      case True
      with assms(1) run obtain x where "q = Some x" "ge_found x" "dc_context d' = (dc_context d)(k \<mapsto> ge_context x)"
        by (auto simp: client_get_def nextStart_def remember_get_def)
      with s d show ?thesis using honest_client_upd by blast
    qed
  qed
qed

subsection \<open>The administration client\<close>

text \<open>
  The mode \<open>--replicate-write\<close> sends a server a version that no coordinator has built; every other
  command line of the tool is an honest client.
\<close>

definition no_replicate_write :: "string list \<Rightarrow> bool" where
  "no_replicate_write argv \<longleftrightarrow> ca_rwrite (fold client_arg (tl argv) no_args) = []"

lemma runs_remove_run:
  assumes "remove_run E a n w = (r, w')" and "runs_as V F w" and "lasting F"
  shows "runs_as V F w'"
proof -
  obtain q w1 where q: "rpc E a (\<lambda>now nd. Some (RemoveNode n now nd)) w = (q, w1)" by fastforce
  have "runs_as V F w1"
    using q
  proof (cases rule: rpc_cases)
    case (handled nd x nd')
    then have "update_node a (\<lambda>nd. snd (RemoveNode n (clock_at E (tick w)) nd)) (advance w) = w1"
      by (cases "RemoveNode n (clock_at E (tick w)) nd") (simp add: update_node_def)
    moreover have "runs_as V F (update_node a (\<lambda>nd. snd (RemoveNode n (clock_at E (tick w)) nd)) (advance w))"
      using assms(2,3) by (intro runs_update) (auto intro!: one_section remove)
    ultimately show ?thesis by simp
  qed (use assms(2) in simp)
  then show ?thesis using assms(1) q by (auto simp: remove_run_def split: option.splits)
qed

lemma runs_look:
  "status_run E a w = (r, w') \<Longrightarrow> runs_as V F w \<Longrightarrow> runs_as V F w'"
  "ping_run E a w = (r, w') \<Longrightarrow> runs_as V F w \<Longrightarrow> runs_as V F w'"
  "rread_run E a k w = (r, w') \<Longrightarrow> runs_as V F w \<Longrightarrow> runs_as V F w'"
proof -
  have "rpc E a h w = (q, w1) \<Longrightarrow> (\<And>now nd x nd'. h now nd = Some (x, nd') \<Longrightarrow> nd' = nd) \<Longrightarrow> runs_as V F w \<Longrightarrow>
    runs_as V F w1" for h :: "millis \<Rightarrow> node \<Rightarrow> ('x \<times> node) option" and q w1
    using runs_observe by blast
  then show "status_run E a w = (r, w') \<Longrightarrow> runs_as V F w \<Longrightarrow> runs_as V F w'"
    using runs_observe [where h = "\<lambda>now nd. Some (GetStatus nd, nd)"]
    by (fastforce simp: status_run_def split: prod.splits option.splits)
  show "ping_run E a w = (r, w') \<Longrightarrow> runs_as V F w \<Longrightarrow> runs_as V F w'"
    using runs_observe [where h = "\<lambda>now nd. Some (Ping nd, nd)"]
    by (fastforce simp: ping_run_def split: prod.splits option.splits)
  show "rread_run E a k w = (r, w') \<Longrightarrow> runs_as V F w \<Longrightarrow> runs_as V F w'"
    using runs_observe [where h = "\<lambda>now nd. ReplicateRead k nd"] ReplicateRead_state
    by (fastforce simp: rread_run_def split: prod.splits option.splits)
qed

lemma runs_put_run:
  assumes "put_run E a kv w = (r, w')" and "runs_as V F w" and "lasting F" and "tokens_disjoint (tokens_of V)"
  shows "runs_as V F w'"
proof (cases "split_kv kv")
  case None
  with assms(1,2) show ?thesis by (simp add: put_run_def)
next
  case (Some p)
  let ?req = "\<lparr>pq_key = fst p, pq_value = snd p, pq_context = empty_clock, pq_forwarded = False\<rparr>"
  obtain q w1 where run: "dial E (\<lambda>addr. Put E addr ?req) a w = (q, w1)" by fastforce
  have "runs_as V F w1"
    by (rule runs_weaken [OF put_call.dial_runs [OF run assms(2-4)]]) (simp_all add: honest_request_def)
  with assms(1) Some run show ?thesis by (cases p) (auto simp: put_run_def split: option.splits)
qed

lemma runs_get_run:
  assumes "get_run E a k w = (r, w')" and "runs_as V F w" and "lasting F" and "tokens_disjoint (tokens_of V)"
  shows "runs_as V F w'"
proof -
  obtain q w1 where run: "dial E (\<lambda>addr. Get E addr k) a w = (q, w1)" by fastforce
  have "runs_as V F w1" by (rule runs_weaken [OF get_call.dial_runs [OF run assms(2-4)]]) simp_all
  with assms(1) run show ?thesis by (auto simp: get_run_def split: option.splits)
qed

lemma runs_client_main:
  assumes "client_main E argv w = (r, w')" and "runs_as V F w" and "lasting F" and "tokens_disjoint (tokens_of V)"
    and "no_replicate_write argv"
  shows "runs_as V F w'"
  using assms runs_remove_run runs_look runs_put_run runs_get_run
  by (fastforce simp: client_main_def Let_def no_replicate_write_def split: if_splits)

subsection \<open>The whole system\<close>

definition programs_honest :: "(nat \<rightharpoonup> DriftClient) \<Rightarrow> cloud \<Rightarrow> bool" where
  "programs_honest ps s \<longleftrightarrow> (\<forall>i. \<forall>d \<in> set_option (ps i). honest_client d s)"

lemma lasting_programs [lasting_intros]: "lasting (programs_honest ps)"
  unfolding programs_honest_def [abs_def] by (intro lasting_intros)

lemma runs_system_step:
  assumes "system_step no_replicate_write V s t" and "runs_as V (programs_honest (programs s)) (servers s)"
    and "tokens_disjoint (tokens_of V)"
  shows "runs_as V (programs_honest (programs t)) (servers t)"
  using assms(1)
proof cases
  case (start argv E r w')
  with runs_node_main [OF start(4) assms(2) lasting_programs] show ?thesis by simp
next
  case (kill a)
  with runs_stop_process [OF assms(2) lasting_programs] show ?thesis by simp
next
  case (command argv E r w')
  with runs_client_main [OF command(3) assms(2) lasting_programs assms(3)] show ?thesis by simp
next
  case (connect E seeds c w' i)
  have "programs_honest (programs s) u \<Longrightarrow> programs_honest ((programs s)(i := c)) u" for u
    using runs_connect(2) [OF connect(2) assms(2)]
    by (auto simp: programs_honest_def honest_client_def honest_context_def)
  with runs_connect(1) [OF connect(2) assms(2)] connect(1) show ?thesis by (auto elim: runs_weaken)
next
  case (put i c E k v res c' w')
  have c: "programs_honest (programs s) u \<Longrightarrow> honest_client c u" for u
    using put(2) by (auto simp: programs_honest_def)
  have "runs_as V (\<lambda>u. programs_honest (programs s) u \<and> honest_client c' u) w'"
    by (rule runs_client_put [OF put(3) assms(2) lasting_programs assms(3)]) (rule c)
  then show ?thesis using put(1) by (auto simp: programs_honest_def elim!: runs_weaken)
next
  case (get i c E k got c' w')
  have c: "programs_honest (programs s) u \<Longrightarrow> honest_client c u" for u
    using get(2) by (auto simp: programs_honest_def)
  have "runs_as V (\<lambda>u. programs_honest (programs s) u \<and> honest_client c' u) w'"
    by (rule runs_client_get [OF get(3) assms(2) lasting_programs assms(3)]) (rule c)
  then show ?thesis using get(1) by (auto simp: programs_honest_def elim!: runs_weaken)
next
  case (repair E i)
  with runs_run_job [OF assms(2) lasting_programs] show ?thesis by simp
next
  case (gossip E a)
  with runs_gossipRound [OF assms(2) lasting_programs] show ?thesis by simp
next
  case (probe E a)
  with runs_reachabilityRound [OF assms(2) lasting_programs assms(3)] show ?thesis by simp
qed

lemma reachable_runs:
  "reachable no_replicate_write V s \<Longrightarrow> tokens_disjoint (tokens_of V) \<Longrightarrow>
   runs_as V (programs_honest (programs s)) (servers s)"
proof (induction rule: reachable.induct)
  case initial
  have "interleaved honest_context V empty_cloud" by (rule interleaved.initial)
  then show ?case
    by (auto simp: runs_as_def empty_system_def no_process_def empty_cloud_def programs_honest_def)
next
  case (step s t)
  then show ?case using runs_system_step by blast
qed

subsection \<open>Properties\<close>

text \<open>
C4. The whole system refines its locked sections: for every reachable system there is an interleaving of
sections, under honest contexts, in which exactly the same servers run in exactly the same states, the
waiting repairs carry versions that coordinators have built, and every context that a client program holds
for a key is the clock of a version built for that key.
\<close>
theorem system_is_interleaved:
  assumes "reachable no_replicate_write V s" and "tokens_disjoint (tokens_of V)"
  shows "\<exists>c. interleaved honest_context V c \<and> live c = nodes (servers s) \<and>
    (\<forall>j \<in> set (jobs (servers s)). \<exists>b. (b, job_key j, job_winner j) \<in> set (minted c)) \<and>
    (\<forall>i d k ctx. programs s i = Some d \<longrightarrow> dc_context d k = Some ctx \<longrightarrow>
       ctx = empty_clock \<or> (\<exists>b v. (b, k, v) \<in> set (minted c) \<and> vv_clock v = ctx))"
proof -
  obtain c where c: "interleaved honest_context V c" "live c = nodes (servers s)"
    "\<forall>j \<in> set (jobs (servers s)). known c (job_key j) (job_winner j)" "programs_honest (programs s) c"
    using reachable_runs [OF assms] by (auto simp: runs_as_def)
  have "ctx = empty_clock \<or> (\<exists>b v. (b, k, v) \<in> set (minted c) \<and> vv_clock v = ctx)"
    if "programs s i = Some d" "dc_context d k = Some ctx" for i d k ctx
  proof -
    have "honest_context c k (Some ctx)"
      using c(4) that by (metis honest_client_def option.set_intros programs_honest_def)
    then show ?thesis by (auto simp: honest_iff known_iff)
  qed
  with c(1-3) show ?thesis unfolding known_iff by (intro exI [of _ c] conjI) blast+
qed

theorem system_is_interleaved_witness:
  "\<exists>c. interleaved honest_context solo_V c \<and> live c = [''A'' \<mapsto> solo_node [''k'' \<mapsto> vv ''v'' solo_clock]]"
  using system_is_interleaved [OF reachable_solo tokens_disjoint_solo] by (auto simp: solo_system_def)

end
