(* ===== verification/Background.thy ===== *)
theory Background
  imports Section_Refinement
begin

text \<open>
  The two threads that \<open>start\<close> (\<^verbatim>\<open>src/src/node_main.cpp\<close>) detaches: the endless loops
  \<open>gossipLoop\<close> (\<^verbatim>\<open>node_membership.cpp\<close>) and \<open>reachabilityLoop\<close>
  (\<^verbatim>\<open>node_reachability.cpp\<close>).  A turn of a thread is one pass through its loop: for gossip a round
  and the pause after it, for reachability one test of the inner condition, with a round and a pause when
  there are unreachable peers.  A schedule says whose turn is next; the loops never end, so what is shown
  holds for every schedule of any length.  The pauses only let time pass.
\<close>

datatype loop_thread = Gossip_Loop | Reachability_Loop

definition gossip_turn :: "env \<Rightarrow> node_id \<Rightarrow> world \<Rightarrow> world" where
  "gossip_turn E self w = advance (gossipRound E self w)"

text \<open>The flag tells whether the turn took a round and a pause.\<close>

definition reachability_turn :: "env \<Rightarrow> node_id \<Rightarrow> world \<Rightarrow> bool \<times> world" where
  "reachability_turn E self w =
     (case nodes w self of
        None \<Rightarrow> (False, w)
      | Some nd \<Rightarrow>
          if nd_unreachable nd \<noteq> [] then (True, advance (reachabilityRound E self w)) else (False, w))"

text \<open>The run of both threads under a schedule, with the number of pauses of the reachability thread.\<close>

fun start_threads :: "env \<Rightarrow> node_id \<Rightarrow> loop_thread list \<Rightarrow> world \<Rightarrow> nat \<times> world" where
  "start_threads E self [] w = (0, w)"
| "start_threads E self (Gossip_Loop # ts) w = start_threads E self ts (gossip_turn E self w)"
| "start_threads E self (Reachability_Loop # ts) w =
     (case reachability_turn E self w of (paused, w1) \<Rightarrow>
      (case start_threads E self ts w1 of (n, w2) \<Rightarrow> (if paused then Suc n else n, w2)))"

subsection \<open>What the threads keep\<close>

lemma wf_gossip_turn: "wf_world T w \<Longrightarrow> tokens_disjoint T \<Longrightarrow> wf_world T (gossip_turn E self w)"
  by (simp add: gossip_turn_def wf_gossipRound wf_advance)

lemma wf_reachability_turn: "wf_world T w \<Longrightarrow> wf_world T (snd (reachability_turn E self w))"
  by (simp add: reachability_turn_def wf_reachabilityRound wf_advance split: option.split)

lemma wf_start_threads:
  "tokens_disjoint T \<Longrightarrow> wf_world T w \<Longrightarrow> wf_world T (snd (start_threads E self ts w))"
proof (induction E self ts w rule: start_threads.induct)
  case (3 E self ts w)
  obtain b w1 where t: "reachability_turn E self w = (b, w1)" by fastforce
  have "wf_world T w1" using wf_reachability_turn [OF 3(3), of E self] t by simp
  with 3(1) [OF t [symmetric] 3(2)] t show ?case by (auto split: prod.split)
qed (simp_all add: wf_gossip_turn)

lemma runs_start_threads:
  "lasting F \<Longrightarrow> tokens_disjoint (tokens_of V) \<Longrightarrow> runs_as V F w \<Longrightarrow> runs_as V F (snd (start_threads E self ts w))"
proof (induction E self ts w rule: start_threads.induct)
  case (2 E self ts w)
  then show ?case by (simp add: gossip_turn_def runs_gossipRound)
next
  case (3 E self ts w)
  obtain b w1 where t: "reachability_turn E self w = (b, w1)" by fastforce
  then have "runs_as V F w1"
    using 3(2-4) runs_reachabilityRound by (auto simp: reachability_turn_def split: option.splits if_splits)
  with 3(1) [OF t [symmetric] 3(2,3)] t show ?case by (auto split: prod.split)
qed simp

text \<open>With no peer marked, a turn of the reachability thread changes nothing and does not pause: it spins.\<close>

lemma idle_turns:
  "nodes w self = Some nd \<Longrightarrow> nd_unreachable nd = [] \<Longrightarrow>
   start_threads E self (replicate n Reachability_Loop) w = (0, w)"
  by (induction n) (simp_all add: reachability_turn_def)

subsection \<open>Properties\<close>

text \<open>
Whatever the two background threads of a node do, in any order and for any time, the cluster stays
well-formed, and what they do is a run of locked sections.
\<close>
theorem background_keeps_cluster:
  assumes "runs_as V F w" and "lasting F" and "tokens_disjoint (tokens_of V)"
  shows "wf_world (tokens_of V) (snd (start_threads E self ts w)) \<and> runs_as V F (snd (start_threads E self ts w))"
  using runs_start_threads [OF assms(2,3,1)] runs_wf assms(3) by blast

end
