(* ===== verification/Value_Safety.thy ===== *)
theory Value_Safety
  imports Value_Origin
begin

text \<open>
  Which value survives.  The lemmas on writes, handoff and read repair so far follow a version by its
  clock; here they are joined with the origin of versions (theory \<open>Value_Origin\<close>): as long as no other
  copy carries the clock of a version, whoever holds that clock holds that value.  The premise is needed,
  because a coordinator can build a clock it has built before (theory \<open>Clock_Reuse\<close>).
\<close>

subsection \<open>The copies of a key\<close>

text \<open>What the cluster holds for a key: in stores, as hints, and as winners of waiting repair jobs.\<close>

definition copies :: "world \<Rightarrow> key \<Rightarrow> VersionedValue set" where
  "copies w k = {x. (\<exists>a nd. nodes w a = Some nd \<and>
       (nd_kv nd k = Some x \<or> (\<exists>t h. hint_at t k nd = Some h \<and> x = hint_version h))) \<or>
     (\<exists>j \<in> set (jobs w). job_key j = k \<and> x = job_winner j)}"

text \<open>No copy but \<open>x\<close> itself carries the clock of \<open>x\<close>.\<close>

definition unique_clock :: "world \<Rightarrow> key \<Rightarrow> VersionedValue \<Rightarrow> bool" where
  "unique_clock w k x \<longleftrightarrow> (\<forall>y \<in> copies w k. vv_counters y = vv_counters x \<longrightarrow> y = x)"

text \<open>The node holds the version itself, or one that is causally newer.\<close>

definition holds_at :: "world \<Rightarrow> key \<Rightarrow> VersionedValue \<Rightarrow> node_id \<Rightarrow> bool" where
  "holds_at w k x a \<longleftrightarrow> (\<exists>nd y. nodes w a = Some nd \<and> nd_kv nd k = Some y \<and>
     (y = x \<or> vv_counters x < vv_counters y))"

text \<open>Some node holds the version itself, or a newer one, as a hint for the owner.\<close>

definition hinted_for :: "world \<Rightarrow> key \<Rightarrow> VersionedValue \<Rightarrow> node_id \<Rightarrow> bool" where
  "hinted_for w k x t \<longleftrightarrow> (\<exists>a nd h. nodes w a = Some nd \<and> hint_at t k nd = Some h \<and>
     (hint_version h = x \<or> vv_counters x < counter_of (hint_clock h)))"

lemma hint_at_entry:
  assumes "wf_hint_table (nd_hints nd)" and "hint_at t k nd = Some h"
  shows "\<exists>hs. nd_hints nd t = Some hs \<and> (k, h) \<in> set hs" and "hint_key h = k"
proof -
  obtain hs where hs: "nd_hints nd t = Some hs" "map_of hs k = Some h"
    using assms(2) by (auto simp: hint_at_def split: option.splits)
  then show "\<exists>hs. nd_hints nd t = Some hs \<and> (k, h) \<in> set hs" by (blast dest: map_of_SomeD)
  show "hint_key h = k"
    using hs assms(1) map_of_SomeD [OF hs(2)] by (fastforce simp: wf_hint_table_def wf_hints_def)
qed

lemma copy_in_store: "nodes w a = Some nd \<Longrightarrow> nd_kv nd k = Some y \<Longrightarrow> y \<in> copies w k"
  by (auto simp: copies_def)

lemma copy_in_hint: "nodes w a = Some nd \<Longrightarrow> hint_at t k nd = Some h \<Longrightarrow> hint_version h \<in> copies w k"
  by (auto simp: copies_def)

text \<open>A predicate of the versions of one key is one that the operations follow.\<close>

lemma copies_values:
  assumes "wf_world T w"
  shows "world_values (\<lambda>l y. l = k \<longrightarrow> Q y) w \<longleftrightarrow> (\<forall>y \<in> copies w k. Q y)"
proof
  assume v: "world_values (\<lambda>l y. l = k \<longrightarrow> Q y) w"
  show "\<forall>y \<in> copies w k. Q y"
  proof
    fix y assume "y \<in> copies w k"
    then consider (store) a nd where "nodes w a = Some nd" "nd_kv nd k = Some y"
      | (hint) a nd t h where "nodes w a = Some nd" "hint_at t k nd = Some h" "y = hint_version h"
      | (job) j where "j \<in> set (jobs w)" "job_key j = k" "y = job_winner j"
      by (auto simp: copies_def)
    then show "Q y"
    proof cases
      case store
      with v show ?thesis unfolding world_values_def node_values_def by blast
    next
      case hint
      have "wf_hint_table (nd_hints nd)" using wf_worldD [OF assms hint(1)] by (simp add: wf_node_def)
      with hint_at_entry [OF this hint(2)] v hint(1,3) show ?thesis
        unfolding world_values_def node_values_def by fastforce
    qed (use v in \<open>auto simp: world_values_def\<close>)
  qed
next
  assume q: "\<forall>y \<in> copies w k. Q y"
  have "node_values (\<lambda>l y. l = k \<longrightarrow> Q y) nd" if nd: "nodes w a = Some nd" for a nd
    unfolding node_values_def
  proof (intro conjI allI impI)
    fix l y assume "nd_kv nd l = Some y" "l = k"
    with nd q show "Q y" by (auto simp: copies_def)
  next
    fix t hs p assume hs: "nd_hints nd t = Some hs" "p \<in> set hs" "hint_key (snd p) = k"
    have "wf_hints hs" using wf_worldD [OF assms nd] hs(1) by (auto simp: wf_node_def wf_hint_table_def)
    then have "hint_at t k nd = Some (snd p)" using hs by (cases p) (auto simp: hint_at_def wf_hints_def)
    with copy_in_hint [OF nd] q show "Q (hint_version (snd p))" by blast
  qed
  with q show "world_values (\<lambda>l y. l = k \<longrightarrow> Q y) w"
    by (auto simp: world_values_def copies_def)
qed

lemmas unique_clock_values = copies_values [where Q = "\<lambda>y. vv_counters y = vv_counters x \<longrightarrow> y = x" for x,
    folded unique_clock_def]

text \<open>From clocks to values.\<close>

lemma holds_at_unique:
  assumes "unique_clock w k x" and "keeps_at w k (vv_clock x) a"
  shows "holds_at w k x a"
proof -
  obtain nd y where y: "nodes w a = Some nd" "nd_kv nd k = Some y" "vv_counters x \<le> vv_counters y"
    using assms(2) by (auto simp: keeps_at_def node_keeps_def)
  with assms(1) copy_in_store [OF y(1,2)] have "y = x \<or> vv_counters x < vv_counters y"
    by (auto simp: unique_clock_def order_le_less)
  with y show ?thesis by (auto simp: holds_at_def)
qed

lemma hinted_for_unique:
  assumes "unique_clock w k x" and "nodes w a = Some nd" and "hint_keeps nd t k (vv_clock x)"
  shows "hinted_for w k x t"
proof -
  obtain h where h: "hint_at t k nd = Some h" "vv_counters x \<le> counter_of (hint_clock h)"
    using assms(3) by (auto simp: hint_keeps_def)
  with assms(1) copy_in_hint [OF assms(2) h(1)] have "hint_version h = x \<or> vv_counters x < counter_of (hint_clock h)"
    by (auto simp: unique_clock_def order_le_less)
  with h(1) assms(2) show ?thesis by (auto simp: hinted_for_def)
qed

lemma kept_for_unique:
  assumes "unique_clock w k x" and "kept_for w k (vv_clock x) t"
  shows "holds_at w k x t \<or> hinted_for w k x t"
  using assms holds_at_unique [OF assms(1), of t] hinted_for_unique [OF assms(1)]
  by (auto simp: kept_for_def keeps_at_def)

subsection \<open>Who keeps clocks unique\<close>

text \<open>A write whose clock is not in use is the only version with it afterwards.\<close>

lemma unique_coordinatePut:
  assumes "coordinatePut E self k v ctx pref W w = (resp, w')" and "wf_world T w" and "wf_world T w'"
    and "\<forall>y \<in> copies w k. vv_counters y \<noteq> counter_of (pr_context resp)"
  shows "unique_clock w' k (vv v (pr_context resp))"
  unfolding unique_clock_values [OF assms(3), symmetric]
proof (rule values_coordinatePut [OF assms(1)])
  have "unique_clock w k (vv v (pr_context resp))" using assms(4) by (auto simp: unique_clock_def)
  then show "world_values (\<lambda>l y. l = k \<longrightarrow>
      vv_counters y = vv_counters (vv v (pr_context resp)) \<longrightarrow> y = vv v (pr_context resp)) w"
    unfolding unique_clock_values [OF assms(2)] .
qed simp

lemma unique_transfer:
  assumes "\<And>P. world_values P w \<Longrightarrow> world_values P w'" and "wf_world T w" and "wf_world T w'"
    and "unique_clock w k x"
  shows "unique_clock w' k x"
  using assms(1) assms(4) unfolding unique_clock_values [OF assms(2), symmetric]
    unique_clock_values [OF assms(3), symmetric] .

lemma unique_deliverHints:
  assumes "unique_clock w k x" and "wf_world T w" and "nodes w self = Some nd"
  shows "unique_clock (deliverHints E self t w) k x"
  by (rule unique_transfer [OF values_deliverHints assms(2) deliverHints_safe(1) [OF assms(2,3)] assms(1)])

lemma unique_reachabilityRound:
  assumes "unique_clock w k x" and "wf_world T w" and "nodes w self = Some nd"
  shows "unique_clock (reachabilityRound E self w) k x"
  by (rule unique_transfer
      [OF values_reachabilityRound assms(2) reachabilityRound_safe(1) [OF assms(2,3)] assms(1)])

subsection \<open>Properties\<close>

text \<open>
C1. What a coordinator's acknowledgement count means, under every failure of calls and every order of
the threads: there are as many natural owners of the key as the response has acks such that, when
\<open>Put\<close> returns, each of them holds exactly the value that was written, under the clock of the
response, or a causally newer version, or some node holds that for it as a hint.  So a success stands
for \<open>W\<close> different owners.  The coordinator is a natural owner, not a stand-in, and no copy of the
key carried the clock of the response before.
\<close>
theorem Put_acks_are_kept:
  assumes "wf_world T w" and "nodes w self = Some nd" and "isSelfRemoved nd = Some False"
    and "wf_clock (pq_context req)"
    and "find (\<lambda>e. ple_node_id e = self) (preferenceListForKey nd (pq_key req) (nd_N nd)) = Some e"
    and "hint_for_node_id e = None" and "Put E self req w = (Some resp, w')"
    and "\<forall>y \<in> copies w (pq_key req). vv_counters y \<noteq> counter_of (pr_context resp)"
  shows "(\<exists>Q \<subseteq> set (natural_owners (nd_ring nd) (key_hash (pq_key req)) (nd_N nd)).
      card Q = pr_acks resp \<and>
      (\<forall>q \<in> Q. holds_at w' (pq_key req) (vv (pq_value req) (pr_context resp)) q \<or>
         hinted_for w' (pq_key req) (vv (pq_value req) (pr_context resp)) q)) \<and>
    (pr_success resp \<longrightarrow> nd_W nd \<le> int (pr_acks resp))"
proof -
  note c = Put_coordinates_obtain [OF assms(2,3,5,7)]
  have ctx: "wf_clock_opt (Some (pq_context req))" using assms(4) by simp
  have wf': "wf_world T w'" using wf_Put [OF assms(7,1,4)] by blast
  have "unique_clock w' (pq_key req) (vv (pq_value req) (pr_context resp))"
    by (rule unique_coordinatePut [OF c assms(1) wf' assms(8)])
  then have "holds_at w' (pq_key req) (vv (pq_value req) (pr_context resp)) q \<or>
      hinted_for w' (pq_key req) (vv (pq_value req) (pr_context resp)) q"
    if "kept_for w' (pq_key req) (pr_context resp) q" for q
    using that by (intro kept_for_unique) simp_all
  moreover have "pr_success resp \<longrightarrow> nd_W nd \<le> int (pr_acks resp)"
    using c assms(5) by (cases rule: coordinatePut_cases) (auto simp: put_refused_def)
  ultimately show ?thesis using coordinatePut_kept [OF c assms(1,2) ctx assms(5,6)] by blast
qed

lemma demo_no_copies: "copies demo_write_world k = {}"
  by (auto simp: copies_def demo_write_world_def hint_at_def split: if_splits)

theorem Put_acks_are_kept_witness:
  "\<exists>resp w' Q. Put calm ''A'' demo_request demo_write_world = (Some resp, w') \<and>
     Q \<subseteq> {''A'', ''B'', ''C''} \<and> card Q = pr_acks resp \<and>
     (\<forall>q \<in> Q. holds_at w' ''k'' (vv ''v'' (pr_context resp)) q \<or>
        hinted_for w' ''k'' (vv ''v'' (pr_context resp)) q)"
proof -
  let ?A = "demo_node ''A'' [] Map.empty Map.empty"
  obtain resp w' where put: "Put calm ''A'' demo_request demo_write_world = (Some resp, w')"
    using demo_put by blast
  have up: "isSelfRemoved ?A = Some False" by (simp add: demo_up)
  have f: "find (\<lambda>e. ple_node_id e = ''A'') (preferenceListForKey ?A (pq_key demo_request) (nd_N ?A)) =
      Some (natural_entry ''A'')"
    using demo_find_A by (simp add: demo_request_def)
  have "wf_clock (pq_context demo_request)" by (simp add: demo_request_def wf_intros)
  from Put_acks_are_kept [OF wf_demo_write_world demo_write_A up this f _ put] put
  show ?thesis by (auto simp: demo_request_def natural_owners_def demo_clockwise demo_no_copies)
qed

lemma deliverHints_stores:
  assumes "b \<noteq> t"
  shows "map_option nd_kv (nodes (deliverHints E self t w) b) = map_option nd_kv (nodes w b)"
proof (cases "nodes w self")
  case (Some nd)
  show ?thesis
  proof (cases "nd_hints nd t")
    case hints: (Some hs)
    obtain w' where run: "run_once E (deliver_step E self t) hs () w = ((), w')"
      by (cases "run_once E (deliver_step E self t) hs () w") simp
    have "map_option nd_kv (nodes w' b) = map_option nd_kv (nodes w b)"
    proof (rule run_once_keeps [OF run])
      fix kh u x u' x'
      assume inv: "map_option nd_kv (nodes x b) = map_option nd_kv (nodes w b)"
        and step: "deliver_step E self t kh u x = (u', x')"
      obtain resp x1 where r: "rpc E t (ReplicateWrite (hint_request (snd kh))) x = (resp, x1)"
        by (cases "rpc E t (ReplicateWrite (hint_request (snd kh))) x")
      have "nodes x1 b = nodes x b"
        using r assms by (auto simp: rpc_def Let_def split: option.splits if_splits)
      moreover have "map_option nd_kv (nodes x' b) = map_option nd_kv (nodes x1 b)"
        using step r
        by (cases "b = self")
          (auto simp: deliver_step_def nodes_update option.map_comp comp_def split: option.splits if_splits)
      ultimately show "map_option nd_kv (nodes x' b) = map_option nd_kv (nodes w b)" using inv by simp
    qed simp
    with Some hints run show ?thesis by (simp add: deliverHints_def)
  qed (use Some in \<open>simp add: deliverHints_def\<close>)
qed (simp add: deliverHints_def)

text \<open>
C11. Delivering hints loses none, whatever calls fail and in whatever order they run: a hint that was
held for a peer is, after the delivery, still held, or the peer itself holds the hinted version, value
and clock, or a causally newer one (if another copy has the clock of the hint, at least a version that
is not causally older).  Hints for other targets and the stores of all nodes but the peer are as before.
\<close>
theorem deliverHints_loses_none:
  assumes "wf_world T w" and "nodes w self = Some nd" and "hint_at t k nd = Some h"
  shows "wf_world T (deliverHints E self t w) \<and>
    (holds_hint (deliverHints E self t w) self t k h \<or>
     keeps_at (deliverHints E self t w) k (hint_clock h) t \<and>
     (unique_clock w k (hint_version h) \<longrightarrow> holds_at (deliverHints E self t w) k (hint_version h) t)) \<and>
    (\<forall>a u l g. u \<noteq> t \<longrightarrow> holds_hint (deliverHints E self t w) a u l g = holds_hint w a u l g) \<and>
    (\<forall>b. b \<noteq> t \<longrightarrow>
       map_option nd_kv (nodes (deliverHints E self t w) b) = map_option nd_kv (nodes w b))"
proof -
  let ?w = "deliverHints E self t w"
  have "holds_hint w self t k h" using assms(2,3) by (simp add: holds_hint_def)
  then have "holds_hint ?w self t k h \<or> keeps_at ?w k (hint_clock h) t"
    by (rule deliverHints_safe(3) [OF assms(1,2)])
  moreover have "holds_at ?w k (hint_version h) t"
    if "unique_clock w k (hint_version h)" "keeps_at ?w k (hint_clock h) t"
    by (rule holds_at_unique [OF unique_deliverHints [OF that(1) assms(1,2)]]) (simp add: that(2))
  ultimately show ?thesis
    using deliverHints_safe(1,4) [OF assms(1,2)] deliverHints_stores by blast
qed

lemma demo_hint_unique: "unique_clock demo_handoff_world ''k'' (hint_version demo_hint)"
  by (auto simp: unique_clock_def copies_def demo_handoff_world_def hint_at_def split: if_splits)

theorem deliverHints_loses_none_witness:
  "holds_hint (deliverHints (calm\<lparr>fate_at := \<lambda>_. ReplyLost\<rparr>) ''D'' ''B'' demo_handoff_world)
       ''D'' ''B'' ''k'' demo_hint \<or>
   holds_at (deliverHints (calm\<lparr>fate_at := \<lambda>_. ReplyLost\<rparr>) ''D'' ''B'' demo_handoff_world)
       ''k'' (hint_version demo_hint) ''B''"
  using deliverHints_loses_none [OF wf_demo_handoff_world demo_handoff_D, of "''B''" "''k''" demo_hint
      "calm\<lparr>fate_at := \<lambda>_. ReplyLost\<rparr>"] demo_hint_unique
  by (auto simp: hint_at_def)

text \<open>
C23. Handoff completes when peers are back: if the peers that a node believes unreachable run, none of
them is removed, and the calls are delivered, then one round of the reachability loop empties the set
of unreachable peers, no hint for them is left, and each of them holds every version that was hinted
for it, value and clock, or a causally newer one (if another copy has the clock of the hint, at least a
version that is not causally older).
\<close>
theorem reachabilityRound_hands_off:
  assumes "wf_world T w" and "nodes w self = Some nd" and "\<forall>i. fate_at E i = Delivered"
    and "\<forall>p \<in> set (nd_unreachable nd). up w p"
  shows "\<exists>nd'. nodes (reachabilityRound E self w) self = Some nd' \<and> nd_unreachable nd' = [] \<and>
    (\<forall>p \<in> set (nd_unreachable nd). \<forall>k. hint_at p k nd' = None \<and>
       (\<forall>h. hint_at p k nd = Some h \<longrightarrow> keeps_at (reachabilityRound E self w) k (hint_clock h) p \<and>
          (unique_clock w k (hint_version h) \<longrightarrow>
             holds_at (reachabilityRound E self w) k (hint_version h) p)))"
proof -
  have "holds_at (reachabilityRound E self w) k (hint_version h) p"
    if "unique_clock w k (hint_version h)" "keeps_at (reachabilityRound E self w) k (hint_clock h) p" for k h p
    by (rule holds_at_unique [OF unique_reachabilityRound [OF that(1) assms(1,2)]]) (simp add: that(2))
  with reachabilityRound_delivered [OF assms] show ?thesis by blast
qed

theorem reachabilityRound_hands_off_witness:
  "holds_at (reachabilityRound calm ''D'' demo_handoff_world) ''k'' (hint_version demo_hint) ''B''"
proof -
  let ?D = "demo_node ''D'' [''B''] Map.empty [''B'' \<mapsto> [(''k'', demo_hint)]]"
  have "\<forall>p \<in> set (nd_unreachable ?D). up demo_handoff_world p"
    by (simp add: up_def demo_handoff_world_def demo_up)
  moreover have "hint_at ''B'' ''k'' ?D = Some demo_hint" "''B'' \<in> set (nd_unreachable ?D)"
    by (simp_all add: hint_at_def)
  ultimately show ?thesis
    using reachabilityRound_hands_off [OF wf_demo_handoff_world demo_handoff_D, of calm] demo_hint_unique
    by fastforce
qed

text \<open>
C22. Read repair converges: after a successful read, when its repair job runs and its calls are
delivered, every node that answered the read, as many as the response counts, all of them from the
reader's list for the key, holds the value and the clock that the read returned, if no other copy
has this clock (in any case a version with an equal clock).  No running node is removed.
\<close>
theorem read_repair_converges:
  assumes "wf_world T w" and "nodes w self = Some nd" and "Get E self k w = (Some resp, w')"
    and "ge_found resp" and "\<forall>a n. nodes w a = Some n \<longrightarrow> isSelfRemoved n = Some False"
    and "\<forall>t. fate_at E' t = Delivered"
  shows "responded E self k w \<subseteq> set (map ple_node_id (preferenceListForKey nd k (nd_N nd))) \<and>
    card (responded E self k w) = ge_responses resp \<and>
    (\<forall>q \<in> responded E self k w. \<exists>n h. nodes (run_job E' (length (jobs w)) w') q = Some n \<and>
       nd_kv n k = Some h \<and> compareVectorClocks (vv_clock h) (ge_context resp) = EQUAL \<and>
       (unique_clock w k (vv (ge_value resp) (ge_context resp)) \<longrightarrow>
          h = vv (ge_value resp) (ge_context resp)))"
  using assms(3,1)
proof (cases rule: Get_SomeE)
  case (found m results w1 r)
  let ?Q = "rr_peer_id ` set results" and ?win = "winner r"
  have m: "m = nd" using found(1) assms(2) by simp
  have Q: "responded E self k w = ?Q" using found(8) by (simp add: responded_def)
  obtain w2 where w2: "w' = queue_repair self k ?win (stale_peers self ?win results) w2"
    "jobs w2 = jobs w" "\<forall>q \<in> ?Q. repairable w2 k ?win q"
    "\<forall>q \<in> ?Q. q \<in> set (stale_peers self ?win results) \<or> repaired w2 k ?win q"
    using start_repair_state [OF assms(1) found(3,5) assms(5)] found(7) by blast
  have sub: "set (stale_peers self ?win results) \<subseteq> ?Q" by (auto simp: stale_peers_def)
  have wfw: "wf_clock (vv_clock ?win)" using winner_facts [OF assms(1) found(3,5)] by blast
  let ?w = "run_job E' (length (jobs w)) w'"
  have rep: "\<forall>q \<in> ?Q. repaired ?w k ?win q"
    unfolding w2(1) w2(2) [symmetric] by (rule run_queued_repair [OF assms(6) wfw sub w2(3,4)])
  have win: "vv (ge_value resp) (ge_context resp) = ?win" using found(6) by simp
  have wf': "wf_world T w'" using wf_Get [OF assms(3,1)] by blast
  have "unique_clock ?w k ?win" if "unique_clock w k ?win"
    by (rule unique_transfer [OF values_run_job [OF values_Get(1) [OF assms(3,1)]] assms(1) wf_run_job [OF wf'] that])
  then have "h = ?win"
    if "unique_clock w k ?win" "nodes ?w q = Some n" "nd_kv n k = Some h" "vv_counters h = vv_counters ?win" for q n h
    using that copy_in_store [OF that(2,3)] unfolding unique_clock_def by blast
  with rep show ?thesis
    unfolding Q win using card_peers [OF found(3)] found(3,6) wfw m
    by (fastforce simp: repaired_def vc.cmp_EQUAL collected_def)
qed (use assms(4) in \<open>simp_all add: get_refused_def\<close>)

text \<open>In the witness \<open>A\<close>, which holds nothing, reads, and all three owners end up with the value.\<close>

lemma demo_read_unique: "unique_clock demo_read_world ''k'' demo_version"
  by (auto simp: unique_clock_def copies_def demo_read_world_def hint_at_def split: if_splits)

theorem read_repair_converges_witness:
  "\<exists>w' a b c. Get calm ''A'' ''k'' demo_read_world =
     (Some \<lparr>ge_found = True, ge_value = ''x'', ge_responses = 3, ge_context = clk [(''B'', 1)] 5 ''B''\<rparr>, w') \<and>
   responded calm ''A'' ''k'' demo_read_world = {''A'', ''B'', ''C''} \<and>
   nodes (run_job calm 0 w') ''A'' = Some a \<and> nd_kv a ''k'' = Some demo_version \<and>
   nodes (run_job calm 0 w') ''B'' = Some b \<and> nd_kv b ''k'' = Some demo_version \<and>
   nodes (run_job calm 0 w') ''C'' = Some c \<and> nd_kv c ''k'' = Some demo_version"
proof -
  let ?g = "Get calm ''A'' ''k'' demo_read_world"
  have get: "?g = (Some \<lparr>ge_found = True, ge_value = ''x'',
      ge_responses = 3, ge_context = clk [(''B'', 1)] 5 ''B''\<rparr>, snd ?g)"
    using demo_read by (metis prod.collapse)
  have A: "nodes demo_read_world ''A'' = Some (demo_node ''A'' [] Map.empty Map.empty)"
    by (simp add: demo_read_world_def)
  have up: "\<forall>a n. nodes demo_read_world a = Some n \<longrightarrow> isSelfRemoved n = Some False"
    by (simp add: demo_read_world_def demo_up)
  have v: "vv ''x'' (clk [(''B'', 1)] 5 ''B'') = demo_version" by (simp add: demo_version_def)
  have j: "jobs demo_read_world = []" by (simp add: demo_read_world_def)
  have d: "\<forall>t. fate_at calm t = Delivered" by simp
  note conv = read_repair_converges [OF wf_demo_read_world A get _ up d, simplified v j GetResponse.select_convs list.size,
      OF TrueI]
  have "responded calm ''A'' ''k'' demo_read_world \<subseteq> {''A'', ''B'', ''C''}"
    using conv by (simp add: demo_preference)
  then have all: "responded calm ''A'' ''k'' demo_read_world = {''A'', ''B'', ''C''}"
    using conv by (intro card_subset_eq) simp_all
  have "\<exists>n. nodes (run_job calm 0 (snd ?g)) q = Some n \<and> nd_kv n ''k'' = Some demo_version"
    if "q \<in> {''A'', ''B'', ''C''}" for q
    using conv demo_read_unique that unfolding all by blast
  from this [of "''A''"] this [of "''B''"] this [of "''C''"] get all show ?thesis by blast
qed

end
