(* ===== verification/Crash_Tolerance.thy ===== *)
theory Crash_Tolerance
  imports Value_Safety
begin

text \<open>
  Writes and crashes: a server keeps everything in memory, so a process that ends (\<open>stop_process\<close>)
  takes its copies with it.
\<close>

lemma nodes_stopped: "nodes (fold stop_process fs w) a = (if a \<in> set fs then None else nodes w a)"
  by (induction fs arbitrary: w) (auto simp: stop_process_def)

lemma wf_stopped: "wf_world T w \<Longrightarrow> wf_world T (fold stop_process fs w)"
  by (induction fs arbitrary: w) (auto intro: wf_stop_process)

lemma values_stopped: "world_values P w \<Longrightarrow> world_values P (fold stop_process fs w)"
  by (induction fs arbitrary: w) (auto intro: values_stop_process)

text \<open>What is true of the write and of every copy before it is true of what a read after the crashes finds.\<close>

lemma read_after_crash:
  assumes "coordinatePut E self k v ctx pref W w = (resp, w')" and "wf_world T w" and "wf_world T w'"
    and "Get F reader k (fold stop_process fs w') = (Some got, w'')" and "ge_found got"
    and "\<forall>y \<in> copies w k. P y" and "P (vv v (pr_context resp))"
  shows "P (vv (ge_value got) (ge_context got))"
proof -
  have "world_values (\<lambda>l y. l = k \<longrightarrow> P y) w" using copies_values [OF assms(2), of k P] assms(6) by blast
  then have "world_values (\<lambda>l y. l = k \<longrightarrow> P y) w'"
    by (rule values_coordinatePut [OF assms(1)]) (simp add: assms(7))
  from values_Get(2) [OF assms(4) wf_stopped [OF assms(3)] values_stopped [OF this] refl assms(5)]
  show ?thesis by simp
qed



end
