(* ===== verification/Timestamps.thy ===== *)
theory Timestamps
  imports Text_Format
begin

text \<open>
  The clock of \<^verbatim>\<open>src/src/logging.hpp\<close>: \<open>nowMillis\<close> and the time stamp of log lines,
  \<open>isoTimestampNow\<close>.  The argument is the reading of \<open>system_clock\<close>, the nanoseconds since 1970 (a
  clock set to an earlier time is not modelled).  \<open>gmtime_r\<close> is the calendar of POSIX in UTC, which
  counts no leap seconds; years are found by counting on from 1970.
\<close>

definition nowMillis :: "nat \<Rightarrow> millis" where
  "nowMillis now = int (now div 1000000)"

definition leap_year :: "nat \<Rightarrow> bool" where
  "leap_year y \<longleftrightarrow> y mod 4 = 0 \<and> (y mod 100 \<noteq> 0 \<or> y mod 400 = 0)"

definition year_days :: "nat \<Rightarrow> nat" where
  "year_days y = (if leap_year y then 366 else 365)"

definition month_days :: "nat \<Rightarrow> nat list" where
  "month_days y = [31, if leap_year y then 29 else 28, 31, 30, 31, 30, 31, 31, 30, 31, 30, 31]"

function year_loop :: "nat \<Rightarrow> nat \<Rightarrow> nat \<times> nat" where
  "year_loop y d = (if d < year_days y then (y, d) else year_loop (y + 1) (d - year_days y))"
  by pat_completeness auto
termination
  by (relation "measure snd") (auto simp: year_days_def split: if_splits)

declare year_loop.simps [simp del]

fun month_loop :: "nat list \<Rightarrow> nat \<Rightarrow> nat \<Rightarrow> nat \<times> nat" where
  "month_loop [] m d = (m, d)"
| "month_loop (n # ns) m d = (if d < n then (m, d) else month_loop ns (m + 1) (d - n))"

record tm =
  tm_year :: nat
  tm_mon :: nat
  tm_mday :: nat
  tm_hour :: nat
  tm_min :: nat
  tm_sec :: nat

definition gmtime :: "nat \<Rightarrow> tm" where
  "gmtime t =
     (let (y, yday) = year_loop 1970 (t div 86400);
          (m, mday) = month_loop (month_days y) 0 yday;
          s = t mod 86400
      in \<lparr>tm_year = y - 1900, tm_mon = m, tm_mday = mday + 1,
          tm_hour = s div 3600, tm_min = s div 60 mod 60, tm_sec = s mod 60\<rparr>)"

text \<open>The conversion \<open>%0wd\<close> of a number that is not negative.\<close>

definition zero_padded :: "nat \<Rightarrow> nat \<Rightarrow> string" where
  "zero_padded w n = replicate (w - length (to_string n)) CHR ''0'' @ to_string n"

text \<open>The buffer holds 31 characters.\<close>

definition isoTimestampNow :: "nat \<Rightarrow> string" where
  "isoTimestampNow now =
     (let ms = nat (nowMillis now) mod 1000; tm_utc = gmtime (now div 1000000000)
      in take 31 (zero_padded 4 (tm_year tm_utc + 1900) @ ''-'' @ zero_padded 2 (tm_mon tm_utc + 1) @ ''-'' @
           zero_padded 2 (tm_mday tm_utc) @ ''T'' @ zero_padded 2 (tm_hour tm_utc) @ '':'' @
           zero_padded 2 (tm_min tm_utc) @ '':'' @ zero_padded 2 (tm_sec tm_utc) @ ''.'' @
           zero_padded 3 ms @ ''Z''))"

subsection \<open>Fields of fixed width\<close>

lemma append_less:
  fixes xs ys :: "'a::linorder list"
  assumes "length xs = length ys"
  shows "xs @ us < ys @ vs \<longleftrightarrow> xs < ys \<or> (xs = ys \<and> us < vs)"
  using assms by (induction xs ys rule: list_induct2) auto

fun fixed_digits :: "nat \<Rightarrow> nat \<Rightarrow> string" where
  "fixed_digits 0 n = []"
| "fixed_digits (Suc w) n = fixed_digits w (n div 10) @ [char_of (48 + n mod 10)]"

lemma length_fixed_digits [simp]: "length (fixed_digits w n) = w"
  by (induction w n rule: fixed_digits.induct) auto

lemma fixed_digits_zero: "fixed_digits w 0 = replicate w CHR ''0''"
proof (induction w)
  case (Suc w)
  moreover have "(char_of (48 :: nat) :: char) = CHR ''0''" by code_simp
  ultimately show ?case by (simp flip: replicate_append_same)
qed simp

lemma to_string_length: "n < 10 ^ w \<Longrightarrow> 0 < w \<Longrightarrow> length (to_string n) \<le> w"
proof (induction w arbitrary: n)
  case (Suc w)
  show ?case
  proof (cases "n < 10")
    case False
    then have "0 < w" using Suc.prems(1) by (cases w) auto
    moreover have "n div 10 < 10 ^ w" using Suc.prems(1) by (simp add: less_mult_imp_div_less mult.commute)
    ultimately show ?thesis using Suc.IH [of "n div 10"] False by (subst to_string.simps) simp
  qed (subst to_string.simps, simp)
qed simp

lemma zero_padded_digits:
  "n < 10 ^ w \<Longrightarrow> 0 < w \<Longrightarrow> zero_padded w n = fixed_digits w n"
proof (induction w arbitrary: n)
  case (Suc w)
  show ?case
  proof (cases "n < 10")
    case True
    then show ?thesis by (subst zero_padded_def, subst (1 2) to_string.simps) (simp add: fixed_digits_zero)
  next
    case False
    then have "0 < w" using Suc.prems(1) by (cases w) auto
    moreover have d: "n div 10 < 10 ^ w" using Suc.prems(1) by (simp add: less_mult_imp_div_less mult.commute)
    ultimately have "zero_padded w (n div 10) = fixed_digits w (n div 10)" by (rule Suc.IH [rotated])
    then show ?thesis
      using False unfolding zero_padded_def by (subst (1 2) to_string.simps) simp
  qed
qed simp

lemma char_of_less: "a < b \<Longrightarrow> b < 256 \<Longrightarrow> (char_of (a :: nat) :: char) < char_of b"
  by (simp add: less_char_def)

lemma fixed_digits_less:
  "m < n \<Longrightarrow> n < 10 ^ w \<Longrightarrow> fixed_digits w m < fixed_digits w n"
proof (induction w arbitrary: m n)
  case (Suc w)
  have n: "n div 10 < 10 ^ w" using Suc.prems(2) by (simp add: less_mult_imp_div_less mult.commute)
  consider "m div 10 < n div 10" | "m div 10 = n div 10" "m mod 10 < n mod 10"
    using Suc.prems(1) by (metis div_le_mono div_mult_mod_eq le_neq_implies_less less_imp_le_nat
        nat_add_left_cancel_less)
  then show ?case
  proof cases
    case 1
    with Suc.IH [OF 1 n] show ?thesis by (simp add: append_less)
  next
    case 2
    moreover have "n mod 10 < 10" by simp
    ultimately show ?thesis by (simp add: append_less char_of_less)
  qed
qed simp

lemma zero_padded_less: "m < n \<Longrightarrow> n < 10 ^ w \<Longrightarrow> 0 < w \<Longrightarrow> zero_padded w m < zero_padded w n"
  by (simp add: zero_padded_digits fixed_digits_less)

lemma length_zero_padded: "n < 10 ^ w \<Longrightarrow> 0 < w \<Longrightarrow> length (zero_padded w n) = w"
  by (simp add: zero_padded_digits)

subsection \<open>The calendar keeps the order\<close>

lemma div_mod_less:
  assumes "(m :: nat) < n"
  shows "m div k < n div k \<or> (m div k = n div k \<and> m mod k < n mod k)"
  using assms
  by (metis div_le_mono div_mult_mod_eq le_neq_implies_less less_imp_le_nat nat_add_left_cancel_less)

lemma year_loop_facts:
  "y \<le> fst (year_loop y d) \<and> snd (year_loop y d) < year_days (fst (year_loop y d)) \<and>
   365 * fst (year_loop y d) \<le> 365 * y + d"
proof (induction y d rule: year_loop.induct)
  case (1 y d)
  show ?case
  proof (cases "d < year_days y")
    case True
    then show ?thesis by (subst (1 2 3 4) year_loop.simps) simp
  next
    case False
    moreover have "365 \<le> year_days y" by (simp add: year_days_def)
    moreover have "year_loop y d = year_loop (y + 1) (d - year_days y)"
      using False by (subst year_loop.simps) simp
    ultimately show ?thesis using 1 [OF False] by auto
  qed
qed

lemma year_loop_less: "d < e \<Longrightarrow> year_loop y d < year_loop y e"
proof (induction y d arbitrary: e rule: year_loop.induct)
  case (1 y d)
  show ?case
  proof (cases "d < year_days y")
    case True
    then have d: "year_loop y d = (y, d)" by (subst year_loop.simps) simp
    show ?thesis
    proof (cases "e < year_days y")
      case True
      then have "year_loop y e = (y, e)" by (subst year_loop.simps) simp
      with d 1(2) show ?thesis by simp
    next
      case False
      then have "year_loop y e = year_loop (y + 1) (e - year_days y)" by (subst year_loop.simps) simp
      with year_loop_facts [of "y + 1" "e - year_days y"] d show ?thesis
        by (cases "year_loop (y + 1) (e - year_days y)") simp
    qed
  next
    case False
    have "year_loop y d = year_loop (y + 1) (d - year_days y)"
      "year_loop y e = year_loop (y + 1) (e - year_days y)"
      using False 1(2) by (subst year_loop.simps; simp)+
    moreover have "d - year_days y < e - year_days y" using False 1(2) by simp
    ultimately show ?thesis using 1(1) [OF False] by simp
  qed
qed

lemma month_loop_ge: "m \<le> fst (month_loop ns m d)"
  by (induction ns m d rule: month_loop.induct) auto

lemma month_loop_less: "d < e \<Longrightarrow> month_loop ns m d < month_loop ns m e"
proof (induction ns m d arbitrary: e rule: month_loop.induct)
  case (2 n ns m d)
  show ?case
  proof (cases "d < n \<and> \<not> e < n")
    case True
    with month_loop_ge [of "m + 1" ns "e - n"] show ?thesis
      by (cases "month_loop ns (m + 1) (e - n)") simp
  next
    case False
    with 2 show ?thesis by auto
  qed
qed simp

lemma month_loop_bounds:
  "d < sum_list ns \<Longrightarrow> (\<And>n. n \<in> set ns \<Longrightarrow> n \<le> 31) \<Longrightarrow>
   fst (month_loop ns m d) < m + length ns \<and> snd (month_loop ns m d) < 31"
proof (induction ns m d rule: month_loop.induct)
  case (2 n ns m d)
  have "n \<le> 31" by (rule 2(3)) simp
  moreover have "d - n < sum_list ns" if "\<not> d < n" using 2(2) that by simp
  ultimately show ?case using 2(1) 2(3) by (cases "d < n") (simp_all add: less_le_trans)
qed simp

text \<open>The numbers of a time stamp, in the order in which it prints them.\<close>

definition stamp_fields :: "nat \<Rightarrow> nat \<times> nat \<times> nat \<times> nat \<times> nat \<times> nat \<times> nat" where
  "stamp_fields now =
     (let c = gmtime (now div 1000000000)
      in (tm_year c + 1900, tm_mon c + 1, tm_mday c, tm_hour c, tm_min c, tm_sec c, now div 1000000 mod 1000))"

lemma gmtime_fields:
  fixes t :: nat
  defines "y \<equiv> year_loop 1970 (t div 86400)"
  defines "m \<equiv> month_loop (month_days (fst y)) 0 (snd y)"
  shows "tm_year (gmtime t) + 1900 = fst y" "tm_mon (gmtime t) = fst m" "tm_mday (gmtime t) = snd m + 1"
    "tm_hour (gmtime t) = t mod 86400 div 3600" "tm_min (gmtime t) = t mod 86400 div 60 mod 60"
    "tm_sec (gmtime t) = t mod 86400 mod 60"
  using year_loop_facts [of 1970 "t div 86400"]
  unfolding gmtime_def y_def m_def Let_def case_prod_beta by simp_all

lemma sum_month_days: "sum_list (month_days y) = year_days y"
  by (simp add: month_days_def year_days_def)

lemma month_days_le: "n \<in> set (month_days y) \<Longrightarrow> n \<le> 31"
  by (auto simp: month_days_def split: if_splits)

lemma gmtime_bounds:
  assumes "t < 365 * 8029 * 86400"
  shows "tm_year (gmtime t) + 1900 < 10 ^ 4" "tm_mon (gmtime t) + 1 < 10 ^ 2" "tm_mday (gmtime t) < 10 ^ 2"
    "tm_hour (gmtime t) < 10 ^ 2" "tm_min (gmtime t) < 10 ^ 2" "tm_sec (gmtime t) < 10 ^ 2"
proof -
  let ?y = "year_loop 1970 (t div 86400)"
  note y = year_loop_facts [of 1970 "t div 86400"]
  have "t div 86400 < 365 * 8029" using assms by (simp add: less_mult_imp_div_less)
  with y show "tm_year (gmtime t) + 1900 < 10 ^ 4" unfolding gmtime_fields by simp
  have "fst (month_loop (month_days (fst ?y)) 0 (snd ?y)) < 0 + length (month_days (fst ?y)) \<and>
      snd (month_loop (month_days (fst ?y)) 0 (snd ?y)) < 31"
    using y by (intro month_loop_bounds) (auto simp: sum_month_days dest: month_days_le)
  moreover have "length (month_days (fst ?y)) = 12" by (simp add: month_days_def)
  ultimately show "tm_mon (gmtime t) + 1 < 10 ^ 2" "tm_mday (gmtime t) < 10 ^ 2"
    unfolding gmtime_fields by auto
  have "t mod 86400 < 86400" by simp
  then have "t mod 86400 div 3600 < 24" by (simp add: less_mult_imp_div_less)
  then show "tm_hour (gmtime t) < 10 ^ 2" unfolding gmtime_fields by simp
  have "x mod 60 < 10 ^ 2" for x :: nat
    using mod_less_divisor [of 60 x] by (simp del: mod_less_divisor)
  then show "tm_min (gmtime t) < 10 ^ 2" "tm_sec (gmtime t) < 10 ^ 2" unfolding gmtime_fields by blast+
qed

lemma digits_pair_less:
  assumes "(m :: nat) < n"
  shows "(m div k, m mod k) < (n div k, n mod k)"
  using div_mod_less [OF assms, of k] by auto

lemma clock_less:
  assumes "(s :: nat) < t"
  shows "(s div 3600, s div 60 mod 60, s mod 60) < (t div 3600, t div 60 mod 60, t mod 60)"
proof -
  have h: "x div 3600 = x div 60 div 60" for x :: nat
    unfolding div_mult2_eq [symmetric] by simp
  consider "s div 60 < t div 60" | "s div 60 = t div 60" "s mod 60 < t mod 60"
    using div_mod_less [OF assms, of 60] by blast
  then show ?thesis
  proof cases
    case 1
    from digits_pair_less [OF this, of 60] show ?thesis unfolding h less_prod_def by simp blast
  next
    case 2
    then show ?thesis unfolding h less_prod_def by simp
  qed
qed

lemma gmtime_less:
  assumes "s < t"
  shows "(tm_year (gmtime s) + 1900, tm_mon (gmtime s) + 1, tm_mday (gmtime s), tm_hour (gmtime s),
      tm_min (gmtime s), tm_sec (gmtime s)) <
    (tm_year (gmtime t) + 1900, tm_mon (gmtime t) + 1, tm_mday (gmtime t), tm_hour (gmtime t),
      tm_min (gmtime t), tm_sec (gmtime t))"
  using div_mod_less [OF assms, of 86400]
proof
  assume "s div 86400 < t div 86400"
  note y = year_loop_less [OF this, of 1970]
  show ?thesis
  proof (cases "fst (year_loop 1970 (s div 86400)) = fst (year_loop 1970 (t div 86400))")
    case True
    with y have "snd (year_loop 1970 (s div 86400)) < snd (year_loop 1970 (t div 86400))"
      by (simp add: less_prod_def)
    from month_loop_less [OF this, of "month_days (fst (year_loop 1970 (t div 86400)))" 0] True
    show ?thesis unfolding gmtime_fields less_prod_def by auto
  next
    case False
    with y show ?thesis unfolding gmtime_fields less_prod_def by auto
  qed
next
  assume d: "s div 86400 = t div 86400 \<and> s mod 86400 < t mod 86400"
  then have "s mod 86400 < t mod 86400" by blast
  from clock_less [OF this] d show ?thesis unfolding gmtime_fields less_prod_def by simp
qed

lemma stamp_fields_less:
  assumes "now div 1000000 < later div 1000000"
  shows "stamp_fields now < stamp_fields later"
proof -
  have e: "x div 1000000000 = x div 1000000 div 1000" for x :: nat
    unfolding div_mult2_eq [symmetric] by simp
  consider "now div 1000000 div 1000 < later div 1000000 div 1000"
    | "now div 1000000 div 1000 = later div 1000000 div 1000"
      "now div 1000000 mod 1000 < later div 1000000 mod 1000"
    using div_mod_less [OF assms, of 1000] by blast
  then show ?thesis
  proof cases
    case 1
    from gmtime_less [OF this] show ?thesis
      unfolding stamp_fields_def Let_def e less_prod_def by simp blast
  next
    case 2
    then show ?thesis unfolding stamp_fields_def Let_def e less_prod_def by simp
  qed
qed

lemma padded_iff:
  assumes "m < 10 ^ w" and "n < 10 ^ w" and "0 < w"
  shows "zero_padded w m < zero_padded w n \<longleftrightarrow> m < n" and "zero_padded w m = zero_padded w n \<longleftrightarrow> m = n"
  using assms zero_padded_less [of m n w] zero_padded_less [of n m w]
  by (metis less_irrefl less_linear less_imp_not_less)+

text \<open>The last moment of the calendar that is treated: some days before the year 10000.\<close>

definition stamp_limit :: nat where
  "stamp_limit = 365 * 8029 * 86400 * 1000000000"

definition stamp_string :: "nat \<times> nat \<times> nat \<times> nat \<times> nat \<times> nat \<times> nat \<Rightarrow> string" where
  "stamp_string = (\<lambda>(y, mo, d, h, mi, s, ms). zero_padded 4 y @ ''-'' @ zero_padded 2 mo @ ''-'' @
     zero_padded 2 d @ ''T'' @ zero_padded 2 h @ '':'' @ zero_padded 2 mi @ '':'' @ zero_padded 2 s @ ''.'' @
     zero_padded 3 ms @ ''Z'')"

lemma stamp_string_less:
  assumes "a < b"
    and "a \<in> {..<10 ^ 4} \<times> {..<10 ^ 2} \<times> {..<10 ^ 2} \<times> {..<10 ^ 2} \<times> {..<10 ^ 2} \<times> {..<10 ^ 2} \<times> {..<10 ^ 3}"
    and "b \<in> {..<10 ^ 4} \<times> {..<10 ^ 2} \<times> {..<10 ^ 2} \<times> {..<10 ^ 2} \<times> {..<10 ^ 2} \<times> {..<10 ^ 2} \<times> {..<10 ^ 3}"
  shows "stamp_string a < stamp_string b"
proof -
  obtain y mo d h mi s ms where a: "a = (y, mo, d, h, mi, s, ms)" by (cases a) auto
  obtain y' mo' d' h' mi' s' ms' where b: "b = (y', mo', d', h', mi', s', ms')" by (cases b) auto
  show ?thesis
    using assms unfolding a b stamp_string_def
    by (simp add: less_prod_def append_less padded_iff length_zero_padded) auto
qed

lemma stamp_fields_bounds:
  assumes "now < stamp_limit"
  shows "stamp_fields now \<in>
    {..<10 ^ 4} \<times> {..<10 ^ 2} \<times> {..<10 ^ 2} \<times> {..<10 ^ 2} \<times> {..<10 ^ 2} \<times> {..<10 ^ 2} \<times> {..<10 ^ 3}"
proof -
  have "now div 1000000000 < 365 * 8029 * 86400"
    using assms by (simp add: stamp_limit_def less_mult_imp_div_less)
  note b = gmtime_bounds [OF this]
  show ?thesis unfolding stamp_fields_def Let_def using b by (simp del: One_nat_def)
qed

lemma iso_stamp_string:
  assumes "now < stamp_limit"
  shows "isoTimestampNow now = stamp_string (stamp_fields now)" and "length (isoTimestampNow now) = 24"
proof -
  have iso: "isoTimestampNow now = take 31 (stamp_string (stamp_fields now))"
    by (simp add: isoTimestampNow_def stamp_string_def stamp_fields_def nowMillis_def Let_def)
  obtain y mo d h mi s ms where f: "stamp_fields now = (y, mo, d, h, mi, s, ms)"
    by (cases "stamp_fields now") auto
  have "length (stamp_string (stamp_fields now)) = 24"
    using stamp_fields_bounds [OF assms] unfolding f stamp_string_def by (simp add: length_zero_padded)
  with iso show "isoTimestampNow now = stamp_string (stamp_fields now)" "length (isoTimestampNow now) = 24"
    by simp_all
qed

lemma iso_less:
  assumes "now < stamp_limit" and "later < stamp_limit" and "now div 1000000 < later div 1000000"
  shows "isoTimestampNow now < isoTimestampNow later"
  unfolding iso_stamp_string(1) [OF assms(1)] iso_stamp_string(1) [OF assms(2)]
  by (rule stamp_string_less [OF stamp_fields_less [OF assms(3)]
        stamp_fields_bounds [OF assms(1)] stamp_fields_bounds [OF assms(2)]])

lemma zero_padded_chars: "c \<in> set (zero_padded w n) \<Longrightarrow> isdigit c"
  by (auto simp: zero_padded_def isdigit_def dest: to_string_digits)

lemma iso_chars: "c \<in> set (isoTimestampNow now) \<Longrightarrow> isdigit c \<or> c \<in> set ''-T:.Z''"
proof -
  assume "c \<in> set (isoTimestampNow now)"
  then have "c \<in> set (stamp_string (stamp_fields now))"
    by (auto simp: isoTimestampNow_def stamp_string_def stamp_fields_def nowMillis_def Let_def dest: in_set_takeD)
  then show ?thesis
    by (auto simp: stamp_string_def dest: zero_padded_chars split: prod.splits)
qed

lemma iso_no_space: "CHR '' '' \<notin> set (isoTimestampNow now)"
  using iso_chars [of "CHR '' ''" now] by (auto simp: isdigit_def)

lemma iso_no_nul: "CHR 0x00 \<notin> set (isoTimestampNow now)"
  using iso_chars [of "CHR 0x00" now] by (auto simp: isdigit_def)

end
