(* ===== verification/Logging.thy ===== *)
theory Logging
  imports Timestamps
begin

text \<open>
  The log of \<^verbatim>\<open>src/src/logging.hpp\<close>: the event types, their names, and the line that
  \<open>logEvent\<close> writes, on which the scripts under \<^verbatim>\<open>src/harness\<close> search.  The time stamp
  is that of theory \<open>Timestamps\<close>.
\<close>

datatype EventType =
  PING_SENT | PING_RECEIVED | PING_SUCCEEDED | PING_FAILED | NODE_INIT | GOSSIP_SENT |
  GOSSIP_RECEIVED | GOSSIP_SUCCEEDED | GOSSIP_FAILED | GOSSIP_NO_PEERS | GOSSIP_MERGED |
  BOOTSTRAP_INIT | BOOTSTRAP_SUCCEEDED | BOOTSTRAP_FAILED | REMOVE_INIT | REMOVE_FAILED |
  REMOVE_SUCCEEDED | NODE_REBOOTED | PROBE_SENT | PROBE_SUCCEEDED | PROBE_FAILED | GET_INIT |
  GET_SUCCEEDED | GET_FAILED | PUT_INIT | PUT_SUCCEEDED | PUT_FAILED | PUT_FORWARDED |
  PUT_FORWARD_FAILED | CONFLICT_RESOLVED | EQUAL_CLOCK_DETECTED | HINT_CREATED |
  HINT_SEARCH_EXHAUSTED | HINT_STORED | HINT_STORE_FAILED | HINT_DELIVERED | READ_REPAIR_INIT |
  READ_REPAIR_SUCCEEDED | READ_REPAIR_FAILED

text \<open>The events in the order of the declaration.\<close>

instantiation EventType :: enum
begin

definition enum_EventType :: "EventType list" where
  "enum_EventType =
    [PING_SENT, PING_RECEIVED, PING_SUCCEEDED, PING_FAILED, NODE_INIT, GOSSIP_SENT,
     GOSSIP_RECEIVED, GOSSIP_SUCCEEDED, GOSSIP_FAILED, GOSSIP_NO_PEERS, GOSSIP_MERGED,
     BOOTSTRAP_INIT, BOOTSTRAP_SUCCEEDED, BOOTSTRAP_FAILED, REMOVE_INIT, REMOVE_FAILED,
     REMOVE_SUCCEEDED, NODE_REBOOTED, PROBE_SENT, PROBE_SUCCEEDED, PROBE_FAILED, GET_INIT,
     GET_SUCCEEDED, GET_FAILED, PUT_INIT, PUT_SUCCEEDED, PUT_FAILED, PUT_FORWARDED,
     PUT_FORWARD_FAILED, CONFLICT_RESOLVED, EQUAL_CLOCK_DETECTED, HINT_CREATED,
     HINT_SEARCH_EXHAUSTED, HINT_STORED, HINT_STORE_FAILED, HINT_DELIVERED, READ_REPAIR_INIT,
     READ_REPAIR_SUCCEEDED, READ_REPAIR_FAILED]"

definition enum_all_EventType :: "(EventType \<Rightarrow> bool) \<Rightarrow> bool" where
  "enum_all_EventType P \<longleftrightarrow> list_all P enum_class.enum"

definition enum_ex_EventType :: "(EventType \<Rightarrow> bool) \<Rightarrow> bool" where
  "enum_ex_EventType P \<longleftrightarrow> list_ex P enum_class.enum"

instance
proof
  have all: "e \<in> set (enum_class.enum :: EventType list)" for e
    by (cases e) (simp_all add: enum_EventType_def)
  then show univ: "(UNIV :: EventType set) = set enum_class.enum" by auto
  show "distinct (enum_class.enum :: EventType list)" by (simp add: enum_EventType_def)
  show "enum_class.enum_all P \<longleftrightarrow> Ball UNIV P" for P :: "EventType \<Rightarrow> bool"
    unfolding enum_all_EventType_def univ by (simp add: list_all_iff)
  show "enum_class.enum_ex P \<longleftrightarrow> Bex UNIV P" for P :: "EventType \<Rightarrow> bool"
    unfolding enum_ex_EventType_def univ by (simp add: list_ex_iff)
qed

end

fun toString :: "EventType \<Rightarrow> string" where
  "toString PING_SENT = ''PING_SENT''"
| "toString PING_RECEIVED = ''PING_RECEIVED''"
| "toString PING_SUCCEEDED = ''PING_SUCCEEDED''"
| "toString PING_FAILED = ''PING_FAILED''"
| "toString NODE_INIT = ''NODE_INIT''"
| "toString GOSSIP_SENT = ''GOSSIP_SENT''"
| "toString GOSSIP_RECEIVED = ''GOSSIP_RECEIVED''"
| "toString GOSSIP_SUCCEEDED = ''GOSSIP_SUCCEEDED''"
| "toString GOSSIP_FAILED = ''GOSSIP_FAILED''"
| "toString GOSSIP_MERGED = ''GOSSIP_MERGED''"
| "toString GOSSIP_NO_PEERS = ''GOSSIP_NO_PEERS''"
| "toString BOOTSTRAP_INIT = ''BOOTSTRAP_INIT''"
| "toString BOOTSTRAP_SUCCEEDED = ''BOOTSTRAP_SUCCEEDED''"
| "toString BOOTSTRAP_FAILED = ''BOOTSTRAP_FAILED''"
| "toString REMOVE_INIT = ''REMOVE_INIT''"
| "toString REMOVE_FAILED = ''REMOVE_FAILED''"
| "toString REMOVE_SUCCEEDED = ''REMOVE_SUCCEEDED''"
| "toString NODE_REBOOTED = ''NODE_REBOOTED''"
| "toString PROBE_SENT = ''PROBE_SENT''"
| "toString PROBE_SUCCEEDED = ''PROBE_SUCCEEDED''"
| "toString PROBE_FAILED = ''PROBE_FAILED''"
| "toString GET_INIT = ''GET_INIT''"
| "toString GET_SUCCEEDED = ''GET_SUCCEEDED''"
| "toString GET_FAILED = ''GET_FAILED''"
| "toString PUT_INIT = ''PUT_INIT''"
| "toString PUT_SUCCEEDED = ''PUT_SUCCEEDED''"
| "toString PUT_FAILED = ''PUT_FAILED''"
| "toString PUT_FORWARDED = ''PUT_FORWARDED''"
| "toString PUT_FORWARD_FAILED = ''PUT_FORWARD_FAILED''"
| "toString CONFLICT_RESOLVED = ''CONFLICT_RESOLVED''"
| "toString EQUAL_CLOCK_DETECTED = ''EQUAL_CLOCK_DETECTED''"
| "toString HINT_CREATED = ''HINT_CREATED''"
| "toString HINT_SEARCH_EXHAUSTED = ''HINT_SEARCH_EXHAUSTED''"
| "toString HINT_STORED = ''HINT_STORED''"
| "toString HINT_STORE_FAILED = ''HINT_STORE_FAILED''"
| "toString HINT_DELIVERED = ''HINT_DELIVERED''"
| "toString READ_REPAIR_INIT = ''READ_REPAIR_INIT''"
| "toString READ_REPAIR_SUCCEEDED = ''READ_REPAIR_SUCCEEDED''"
| "toString READ_REPAIR_FAILED = ''READ_REPAIR_FAILED''"

text \<open>
  The line is printed with \<open>fprintf\<close> from C strings, so the node id and the details end at their
  first NUL; whether a space precedes the details is decided on the whole string.
\<close>

definition c_str :: "string \<Rightarrow> string" where
  "c_str s = takeWhile (\<lambda>c. c \<noteq> CHR 0x00) s"

lemma c_str_id [simp]: "CHR 0x00 \<notin> set s \<Longrightarrow> c_str s = s"
  unfolding c_str_def by (subst takeWhile_eq_all_conv) auto

definition logEvent :: "string \<Rightarrow> EventType \<Rightarrow> node_id \<Rightarrow> string \<Rightarrow> string" where
  "logEvent timestamp event n extra_kv =
     ''['' @ c_str timestamp @ ''] node='' @ c_str n @ '' event='' @ toString event @
     (if extra_kv = [] then [] else '' '') @ c_str extra_kv @ [CHR 0x0A]"

subsection \<open>Lines determine events\<close>

lemma toString_inj: "toString a = toString b \<longleftrightarrow> a = b"
proof
  assume eq: "toString a = toString b"
  have "distinct (map toString enum_class.enum)" by (simp add: enum_EventType_def)
  then have "inj_on toString (set enum_class.enum)" by (simp add: distinct_map)
  with eq show "a = b" by (simp add: inj_on_def flip: UNIV_enum)
qed simp

text \<open>The names are made of upper-case letters and underscores.\<close>

lemma toString_chars: "c \<in> set (toString e) \<Longrightarrow> c \<noteq> CHR '' '' \<and> c \<noteq> CHR 0x0A"
  by (cases e) auto

lemma split_at_separator:
  assumes "a @ sep # r = b @ sep # s" and "sep \<notin> set a" and "sep \<notin> set b"
  shows "a = b" and "r = s"
proof -
  from arg_cong [OF assms(1), of "takeWhile (\<lambda>c. c \<noteq> sep)"] assms(2,3) show "a = b"
    by (simp add: until_separator)
  with assms(1) show "r = s" by simp
qed

definition log_tail :: "EventType \<Rightarrow> string \<Rightarrow> string" where
  "log_tail e x = toString e @ (if x = [] then [] else '' '') @ c_str x @ [CHR 0x0A]"

lemma log_tail_inj:
  assumes "log_tail a x = log_tail b y"
  shows "a = b \<and> c_str x = c_str y"
proof -
  let ?p = "\<lambda>c. c \<noteq> CHR '' '' \<and> c \<noteq> CHR 0x0A"
  have "takeWhile ?p (log_tail e z) = toString e" for e z
  proof -
    have "takeWhile ?p ((if z = [] then [] else '' '') @ c_str z @ [CHR 0x0A]) = []" by (simp add: c_str_def)
    then show ?thesis
      using toString_chars [of _ e] unfolding log_tail_def by (subst takeWhile_append2) auto
  qed
  then have "toString a = toString b" using assms by metis
  then have "a = b" by (simp add: toString_inj)
  with assms show ?thesis by (auto simp: log_tail_def split: if_splits)
qed

text \<open>
  A log line can be taken apart: as long as time stamps and printed node ids contain no space, two calls
  of \<open>logEvent\<close> that write the same line report the same event at the same node and time with the same
  details, as far as these are printed; so searching the log for an event name finds exactly that event's
  lines.
\<close>

lemma line_determines_event:
  assumes "CHR '' '' \<notin> set (c_str ts)" and "CHR '' '' \<notin> set (c_str ts')"
    and "CHR '' '' \<notin> set (c_str n)" and "CHR '' '' \<notin> set (c_str n')"
    and eq: "logEvent ts e n x = logEvent ts' e' n' x'"
  shows "c_str ts = c_str ts' \<and> e = e' \<and> c_str n = c_str n' \<and> c_str x = c_str x'"
proof -
  have line: "logEvent t f m y = (CHR ''['' # c_str t @ '']'') @ CHR '' '' #
      ((''node='' @ c_str m) @ CHR '' '' # (''event='' @ log_tail f y))" for t f m y
    by (simp add: logEvent_def log_tail_def)
  note first = split_at_separator [OF eq [unfolded line]]
  have "CHR ''['' # c_str ts @ '']'' = CHR ''['' # c_str ts' @ '']''"
    by (rule first(1)) (use assms(1-4) in simp_all)
  moreover have rest: "(''node='' @ c_str n) @ CHR '' '' # (''event='' @ log_tail e x) =
      (''node='' @ c_str n') @ CHR '' '' # (''event='' @ log_tail e' x')"
    by (rule first(2)) (use assms(1-4) in simp_all)
  have "''node='' @ c_str n = ''node='' @ c_str n'"
    by (rule split_at_separator(1) [OF rest]) (use assms(1-4) in simp_all)
  moreover have "''event='' @ log_tail e x = ''event='' @ log_tail e' x'"
    by (rule split_at_separator(2) [OF rest]) (use assms(1-4) in simp_all)
  then have "log_tail e x = log_tail e' x'" by simp
  then have "e = e' \<and> c_str x = c_str x'" by (rule log_tail_inj)
  ultimately show ?thesis by simp
qed

text \<open>
C29. The logs of several nodes can be merged by sorting: until some days before the year 10000, every line
begins with a time stamp of fixed width, so that as strings a line of an earlier millisecond comes before
every line of a later one, whatever the two report; and two lines are the same only if they are of the
same millisecond and report the same event of the same node with the same details (node ids without
spaces), where node ids and details with a NUL count up to it, the part that is printed.
\<close>
theorem log_lines_sort_by_time:
  assumes "now < stamp_limit" and "later < stamp_limit" and "CHR '' '' \<notin> set n" and "CHR '' '' \<notin> set n'"
  shows "(nowMillis now < nowMillis later \<longrightarrow>
      logEvent (isoTimestampNow now) e n x < logEvent (isoTimestampNow later) e' n' x') \<and>
    (logEvent (isoTimestampNow now) e n x = logEvent (isoTimestampNow later) e' n' x' \<longrightarrow>
      nowMillis now = nowMillis later \<and> e = e' \<and> c_str n = c_str n' \<and> c_str x = c_str x' \<and>
      (CHR 0x00 \<notin> set n \<union> set n' \<union> set x \<union> set x' \<longrightarrow> n = n' \<and> x = x'))"
proof -
  have less: "logEvent (isoTimestampNow a) f m y < logEvent (isoTimestampNow b) f' m' y'"
    if "a < stamp_limit" "b < stamp_limit" "nowMillis a < nowMillis b" for a b f f' m m' y y'
    using iso_less [OF that(1,2)] that iso_stamp_string(2) [OF that(1)] iso_stamp_string(2) [OF that(2)]
    by (simp add: logEvent_def append_less nowMillis_def iso_no_nul)
  have printed: "CHR '' '' \<notin> set (c_str m)" if "CHR '' '' \<notin> set m" for m
    using that set_takeWhileD unfolding c_str_def by fastforce
  have "e = e' \<and> c_str n = c_str n' \<and> c_str x = c_str x'"
    if "logEvent (isoTimestampNow now) e n x = logEvent (isoTimestampNow later) e' n' x'"
    using line_determines_event [OF _ _ _ _ that] printed assms(3,4) by (simp add: iso_no_nul iso_no_space)
  moreover have "nowMillis now = nowMillis later"
    if "logEvent (isoTimestampNow now) e n x = logEvent (isoTimestampNow later) e' n' x'"
    using less [OF assms(1,2), of e n x e' n' x'] less [OF assms(2,1), of e' n' x' e n x] that
    by (metis less_irrefl linorder_neqE)
  moreover have "n = n' \<and> x = x'"
    if "c_str n = c_str n'" "c_str x = c_str x'" "CHR 0x00 \<notin> set n \<union> set n' \<union> set x \<union> set x'"
    using that by simp
  ultimately show ?thesis using less [OF assms(1,2)] by blast
qed

text \<open>The stamps of the first millisecond and of 29 February 2024.\<close>

lemma year_examples: "year_loop 1970 0 = (1970, 0)" "year_loop 1970 19782 = (2024, 59)"
  by (simp_all add: year_loop.simps year_days_def leap_year_def)

lemma gmtime_examples:
  "gmtime 0 = \<lparr>tm_year = 70, tm_mon = 0, tm_mday = 1, tm_hour = 0, tm_min = 0, tm_sec = 0\<rparr>"
  "gmtime 1709210096 = \<lparr>tm_year = 124, tm_mon = 1, tm_mday = 29, tm_hour = 12, tm_min = 34, tm_sec = 56\<rparr>"
  by (simp_all add: gmtime_def year_examples month_days_def leap_year_def)

lemma fixed_digits_numeral:
  "fixed_digits (numeral k) n = fixed_digits (pred_numeral k) (n div 10) @ [char_of (48 + n mod 10)]"
  by (metis fixed_digits.simps(2) numeral_eq_Suc)

lemma digit_chars:
  "char_of (48::nat) = CHR ''0''" "char_of (49::nat) = CHR ''1''" "char_of (50::nat) = CHR ''2''"
  "char_of (51::nat) = CHR ''3''" "char_of (52::nat) = CHR ''4''" "char_of (53::nat) = CHR ''5''"
  "char_of (54::nat) = CHR ''6''" "char_of (55::nat) = CHR ''7''" "char_of (56::nat) = CHR ''8''"
  "char_of (57::nat) = CHR ''9''"
  by code_simp+

lemma fixed_digits_one: "fixed_digits 1 n = [char_of (48 + n mod 10)]"
  by simp

lemma pad_examples:
  "zero_padded 4 1970 = ''1970''" "zero_padded 4 2024 = ''2024''" "zero_padded 2 0 = ''00''"
  "zero_padded 2 1 = ''01''" "zero_padded 2 2 = ''02''" "zero_padded 2 29 = ''29''" "zero_padded 2 12 = ''12''"
  "zero_padded 2 34 = ''34''" "zero_padded 2 56 = ''56''" "zero_padded 3 0 = ''000''" "zero_padded 3 789 = ''789''"
  by (simp_all add: zero_padded_digits fixed_digits_numeral fixed_digits_one digit_chars
      del: One_nat_def fixed_digits.simps)

lemma stamp_examples:
  "isoTimestampNow 0 = ''1970-01-01T00:00:00.000Z''"
  "isoTimestampNow 1709210096789000000 = ''2024-02-29T12:34:56.789Z''"
  by (simp_all add: iso_stamp_string stamp_limit_def stamp_fields_def gmtime_examples stamp_string_def
      pad_examples flip: One_nat_def numeral_2_eq_2)

theorem log_lines_sort_by_time_witness:
  "logEvent ''1970-01-01T00:00:00.000Z'' PUT_SUCCEEDED ''B'' [] <
   logEvent ''2024-02-29T12:34:56.789Z'' NODE_INIT ''A'' []"
  using log_lines_sort_by_time [of 0 1709210096789000000 "''B''" "''A''" PUT_SUCCEEDED "[]" NODE_INIT "[]"]
  by (simp add: stamp_examples stamp_limit_def nowMillis_def)

end
