(* ===== verification/Event_Log.thy ===== *)
theory Event_Log
  imports Logging Value_Safety
begin

text \<open>
  The lines that the operations log, the calls of \<open>logEvent\<close> in \<^verbatim>\<open>node_kv.cpp\<close>,
  \<^verbatim>\<open>node_membership.cpp\<close>, \<^verbatim>\<open>node_reachability.cpp\<close>,
  \<^verbatim>\<open>node_status.cpp\<close>, \<^verbatim>\<open>ring.hpp\<close>, \<^verbatim>\<open>node_main.cpp\<close> and
  \<^verbatim>\<open>client.cpp\<close>.  For every operation that logs there is a
  companion that yields its lines, of all the processes that take part and in the order in which they are
  written; it asks the environment the same questions as the operation.  A line is the logging node, the
  event and the details; \<open>logEvent\<close> prints it with the time.  The text of a failed call's status
  is gRPC's: an arbitrary function \<open>err\<close> of the time.
\<close>

type_synonym log_line = "node_id \<times> EventType \<times> string"

subsection \<open>Replica storage\<close>

definition storeReplicatedWrite_log :: "key \<Rightarrow> VersionedValue \<Rightarrow> node \<Rightarrow> log_line list" where
  "storeReplicatedWrite_log k incoming nd =
     (case nd_kv nd k of
        None \<Rightarrow> []
      | Some stored \<Rightarrow>
          if compareVectorClocks (vv_clock stored) (vv_clock incoming) = EQUAL
          then [(nd_id nd, EQUAL_CLOCK_DETECTED, ''key='' @ k @ '' stored_val='' @ vv_value stored @
                  '' incoming_val='' @ vv_value incoming @ '' clock='' @ renderClock (vv_clock incoming))]
          else [])"

definition ReplicateWrite_log :: "ReplicateWriteRequest \<Rightarrow> millis \<Rightarrow> node \<Rightarrow> log_line list" where
  "ReplicateWrite_log req now nd =
     (case isSelfRemoved nd of
        Some False \<Rightarrow>
          (case rw_hint_for req of
             Some t \<Rightarrow> [(nd_id nd, HINT_STORED, ''key='' @ rw_key req @ '' for='' @ t)]
           | None \<Rightarrow> storeReplicatedWrite_log (rw_key req)
                       \<lparr>vv_value = rw_value req, vv_clock = rw_clock req\<rparr> nd)
      | _ \<Rightarrow> [])"

text \<open>The lines of a handler that a call runs.\<close>

definition rpc_log :: "env \<Rightarrow> node_id \<Rightarrow> (millis \<Rightarrow> node \<Rightarrow> log_line list) \<Rightarrow> world \<Rightarrow> log_line list" where
  "rpc_log E target lines w =
     (case nodes w target of
        None \<Rightarrow> []
      | Some nd \<Rightarrow> if fate_at E (tick w) = RequestLost then [] else lines (clock_at E (tick w)) nd)"

subsection \<open>Coordination of writes\<close>

definition retry_log :: "node_id \<Rightarrow> key \<Rightarrow> put_task \<Rightarrow> world \<Rightarrow> log_line list" where
  "retry_log self k t w =
     (if task_retry self k t w = None
      then [(self, HINT_SEARCH_EXHAUSTED, ''key='' @ k @ '' original_target='' @ pt_owner t)] else [])"

definition hint_created :: "node_id \<Rightarrow> key \<Rightarrow> put_task \<Rightarrow> log_line" where
  "hint_created self k t =
     (self, HINT_CREATED, ''key='' @ k @ '' hint_for='' @ pt_owner t @ '' stored_on='' @ pt_target t)"

definition task_log :: "env \<Rightarrow> node_id \<Rightarrow> key \<Rightarrow> string \<Rightarrow> vector_clock \<Rightarrow> put_task \<Rightarrow> world
    \<Rightarrow> log_line list" where
  "task_log E self k v clock t w =
     rpc_log E (pt_target t) (ReplicateWrite_log (task_request k v clock t)) w @
     (case rpc E (pt_target t) (ReplicateWrite (task_request k v clock t)) w of
        (Some resp, w1) \<Rightarrow>
          if rwr_success resp then (if pt_hint t then [hint_created self k t] else [])
          else retry_log self k t w1
      | (None, w1) \<Rightarrow> retry_log self k t (update_node self (markUnreachable (pt_target t)) w1))"

text \<open>The fan-out, in the same order of turns as \<open>run_writes\<close>.\<close>

function run_writes_log :: "env \<Rightarrow> node_id \<Rightarrow> key \<Rightarrow> string \<Rightarrow> vector_clock \<Rightarrow> put_task list \<Rightarrow> world
    \<Rightarrow> log_line list" where
  "run_writes_log E self k v clock pool w =
     (if pool = [] then []
      else let i = next_thread E pool w in
        case task_step E self k v clock (pool ! i) w of
          (cont, ack, w') \<Rightarrow>
            task_log E self k v clock (pool ! i) w @
            run_writes_log E self k v clock (pool_after pool i cont) w')"
  by pat_completeness auto
termination
  by (relation "measure (\<lambda>(E, self, k, v, clock, pool, w). pool_budget (ring_of w self) pool)")
    (auto intro!: pool_after_budget [OF sym] next_thread_less)

declare run_writes_log.simps [simp del]

definition own_hint_log :: "node_id \<Rightarrow> key \<Rightarrow> PreferenceListEntry \<Rightarrow> log_line list" where
  "own_hint_log self k e =
     (case hint_for_node_id e of
        None \<Rightarrow> []
      | Some owner \<Rightarrow> [(self, HINT_STORED, ''key='' @ k @ '' original_owner='' @ owner @
          '' stored_on='' @ self @ '' source=local_coordinator'')])"

definition put_verdict :: "node_id \<Rightarrow> key \<Rightarrow> string \<Rightarrow> vector_clock \<Rightarrow> int \<Rightarrow> nat \<Rightarrow> log_line" where
  "put_verdict self k v clock W acks =
     (if int acks < W
      then (self, PUT_FAILED, ''key='' @ k @ '' val='' @ v @ '' W='' @ int_to_string W @
             '' acks='' @ to_string acks)
      else (self, PUT_SUCCEEDED, ''key='' @ k @ '' val='' @ v @ '' clock='' @ renderClock clock @
             '' W='' @ int_to_string W @ '' acks='' @ to_string acks))"

definition coordinatePut_log :: "env \<Rightarrow> node_id \<Rightarrow> key \<Rightarrow> string \<Rightarrow> vector_clock option
    \<Rightarrow> PreferenceListEntry list \<Rightarrow> int \<Rightarrow> world \<Rightarrow> log_line list" where
  "coordinatePut_log E self k v client_context pref_list W w =
     (if int (length pref_list) < W mod 2 ^ 64
      then [(self, PUT_FAILED, ''key='' @ k @ '' val='' @ v @ '' W='' @ int_to_string W @
              '' preference_list_size='' @ to_string (length pref_list))]
      else
        (let ids = map ple_node_id pref_list;
             (clock, acks, lines, w1) =
               (case find (\<lambda>e. ple_node_id e = self) pref_list of
                  None \<Rightarrow> (empty_clock, 0, [], w)
                | Some e \<Rightarrow>
                    (case local_write E self k v client_context e w of
                       (c, w1) \<Rightarrow> (c, 1, own_hint_log self k e, w1)));
             pool = map (initial_task ids) (filter (\<lambda>e. ple_node_id e \<noteq> self) pref_list);
             (acks', w2) = run_writes E self k v clock pool acks w1
         in lines @ run_writes_log E self k v clock pool w1 @ [put_verdict self k v clock W acks']))"

function (sequential) Put_log :: "(nat \<Rightarrow> string) \<Rightarrow> env \<Rightarrow> node_id \<Rightarrow> PutRequest \<Rightarrow> world \<Rightarrow> log_line list"
  and forward_log :: "(nat \<Rightarrow> string) \<Rightarrow> env \<Rightarrow> node_id \<Rightarrow> node_id list \<Rightarrow> PutRequest \<Rightarrow> world \<Rightarrow> log_line list"
where
  "Put_log err E self req w =
     (case nodes w self of
        None \<Rightarrow> []
      | Some nd \<Rightarrow>
          (case isSelfRemoved nd of
             None \<Rightarrow> []
           | Some True \<Rightarrow> [(self, PUT_FAILED, ''reason=self_removed'')]
           | Some False \<Rightarrow>
               (let pref_list = preferenceListForKey nd (pq_key req) (nd_N nd)
                in if self \<in> set (map ple_node_id pref_list) then
                     coordinatePut_log E self (pq_key req) (pq_value req) (Some (pq_context req))
                       pref_list (nd_W nd) w
                   else if pq_forwarded req then [(self, PUT_FAILED, ''reason=forward_loop_prevented'')]
                   else forward_log err E self
                          (rotate (choice_at E (tick w) mod length pref_list) (map ple_node_id pref_list))
                          req (advance w))))"
| "forward_log err E self [] req w =
     [(self, PUT_FAILED, ''key='' @ pq_key req @ '' reason=all_forward_targets_unreachable'')]"
| "forward_log err E self (target # rest) req w =
     (let failed = (self, PUT_FORWARD_FAILED,
            ''key='' @ pq_key req @ '' target='' @ target @ '' error='' @ err (tick w))
      in if fate_at E (tick w) = RequestLost
         then failed # forward_log err E self rest req (update_node self (markUnreachable target) (advance w))
         else
           Put_log err E target (req\<lparr>pq_forwarded := True\<rparr>) (advance w) @
           (case Put E target (req\<lparr>pq_forwarded := True\<rparr>) (advance w) of
              (None, w1) \<Rightarrow> failed # forward_log err E self rest req (update_node self (markUnreachable target) w1)
            | (Some resp, w1) \<Rightarrow>
                if fate_at E (tick w) = Delivered
                then [(self, PUT_FORWARDED, ''key='' @ pq_key req @ '' target='' @ target)]
                else failed # forward_log err E self rest req (update_node self (markUnreachable target) w1)))"
  by pat_completeness auto
termination
  by (relation "measures
      [\<lambda>x. case x of Inl (err, E, self, req, w) \<Rightarrow> if pq_forwarded req then 0 else 2
               | Inr (err, E, self, ts, req, w) \<Rightarrow> 1,
       \<lambda>x. case x of Inl _ \<Rightarrow> 0 | Inr (err, E, self, ts, req, w) \<Rightarrow> length ts]") auto

declare Put_log.simps [simp del]

subsection \<open>Coordination of reads\<close>

text \<open>The lines after the fan-out: the verdict, with what resolving and repairing report.\<close>

definition stale_count :: "VersionedValue \<Rightarrow> ReplicaResult list \<Rightarrow> node_id \<Rightarrow> nat" where
  "stale_count win results self =
     (let needs = filter (stale win) results
      in (if \<exists>r \<in> set needs. rr_peer_id r = self then 1 else 0) +
         length (filter (\<lambda>r. rr_peer_id r \<noteq> self) needs))"

definition self_repair_log :: "node_id \<Rightarrow> key \<Rightarrow> VersionedValue \<Rightarrow> ReplicaResult list \<Rightarrow> world \<Rightarrow> log_line list" where
  "self_repair_log self k win results w =
     (if \<exists>r \<in> set (filter (stale win) results). rr_peer_id r = self
      then (case nodes w self of None \<Rightarrow> [] | Some nd \<Rightarrow> storeReplicatedWrite_log k win nd) else [])"

definition resolved_log :: "node_id \<Rightarrow> key \<Rightarrow> GetResolution \<Rightarrow> ReplicaResult list \<Rightarrow> world \<Rightarrow> log_line list" where
  "resolved_log self k resolved results w =
     (let win = winner resolved; n = stale_count win results self
      in (if 1 < concurrent_count resolved
          then [(self, CONFLICT_RESOLVED, ''key='' @ k @ '' concurrent_versions='' @
                  to_string (concurrent_count resolved) @ '' winner_writer_id='' @ vc_writer_id (vv_clock win) @
                  '' winner_last_updated='' @ int_to_string (vc_last_updated (vv_clock win)))]
          else []) @
         (if 0 < n then [(self, READ_REPAIR_INIT, ''key='' @ k @ '' stale_count='' @ to_string n)] else []) @
         self_repair_log self k win results w @
         [(self, GET_SUCCEEDED, ''key='' @ k @ '' val='' @ vv_value win @ '' winning_clock='' @
             renderClock (vv_clock win))])"

definition Get_log :: "env \<Rightarrow> node_id \<Rightarrow> key \<Rightarrow> world \<Rightarrow> log_line list" where
  "Get_log E self k w =
     (case nodes w self of
        None \<Rightarrow> []
      | Some nd \<Rightarrow>
          (case isSelfRemoved nd of
             None \<Rightarrow> []
           | Some True \<Rightarrow> [(self, GET_FAILED, ''reason=self_removed'')]
           | Some False \<Rightarrow>
               (let pref_list = preferenceListForKey nd k (nd_N nd);
                    ids = map ple_node_id pref_list;
                    required = ''key='' @ k @ '' R='' @ int_to_string (nd_R nd)
                in if int (length pref_list) < nd_R nd
                   then [(self, GET_FAILED, required @ '' preference_list_size='' @ to_string (length pref_list))]
                   else
                     (let (results, w1) =
                            run_once E (read_step E self k) (filter (\<lambda>p. p \<noteq> self) ids)
                              (if self \<in> set ids then [local_result nd k] else []) w
                      in (self, GET_INIT, []) #
                         (if int (length results) < nd_R nd
                          then [(self, GET_FAILED, required @ '' responses='' @ to_string (length results))]
                          else if found_versions results = []
                          then [(self, GET_SUCCEEDED, ''key='' @ k @ '' reason=key_not_found'')]
                          else (case resolveGetResult (found_versions results) of
                                  None \<Rightarrow> []
                                | Some resolved \<Rightarrow> resolved_log self k resolved results w1))))))"

subsection \<open>Fan-outs of single calls\<close>

text \<open>A fan-out with the lines that its threads write, in the order in which the threads run.\<close>

definition logged :: "('t \<Rightarrow> 'r \<Rightarrow> world \<Rightarrow> 'r \<times> world) \<Rightarrow> ('t \<Rightarrow> world \<Rightarrow> log_line list)
    \<Rightarrow> 't \<Rightarrow> 'r \<times> log_line list \<Rightarrow> world \<Rightarrow> ('r \<times> log_line list) \<times> world" where
  "logged step lines t rl w =
     (case rl of (r, l) \<Rightarrow> (case step t r w of (r', w') \<Rightarrow> ((r', l @ lines t w), w')))"

definition run_once_log :: "env \<Rightarrow> ('t \<Rightarrow> 'r \<Rightarrow> world \<Rightarrow> 'r \<times> world) \<Rightarrow> ('t \<Rightarrow> world \<Rightarrow> log_line list)
    \<Rightarrow> 't list \<Rightarrow> 'r \<Rightarrow> world \<Rightarrow> log_line list" where
  "run_once_log E step lines pool r w = snd (fst (run_once E (logged step lines) pool (r, []) w))"

definition repair_log :: "env \<Rightarrow> node_id \<Rightarrow> key \<Rightarrow> VersionedValue \<Rightarrow> node_id \<Rightarrow> world \<Rightarrow> log_line list" where
  "repair_log E self k win peer w =
     rpc_log E peer (ReplicateWrite_log (repair_request k win)) w @
     (case rpc E peer (ReplicateWrite (repair_request k win)) w of
        (None, w1) \<Rightarrow> [(self, READ_REPAIR_FAILED, ''key='' @ k @ '' peer='' @ peer @ '' reason=transport'')]
      | (Some resp, w1) \<Rightarrow>
          if \<not> rwr_success resp
          then [(self, READ_REPAIR_FAILED, ''key='' @ k @ '' peer='' @ peer @ '' reason=refused'')]
          else [(self, READ_REPAIR_SUCCEEDED, ''key='' @ k @ '' peer='' @ peer @ '' outcome='' @
                  outcomeToString (rwr_outcome resp))])"

definition repairReplicas_log :: "env \<Rightarrow> node_id \<Rightarrow> key \<Rightarrow> VersionedValue \<Rightarrow> node_id list \<Rightarrow> world
    \<Rightarrow> log_line list" where
  "repairReplicas_log E self k win peers w =
     run_once_log E (repair_step E self k win) (repair_log E self k win) peers () w"

subsection \<open>Hinted handoff\<close>

definition deliver_log :: "env \<Rightarrow> node_id \<Rightarrow> node_id \<Rightarrow> key \<times> HeldHint \<Rightarrow> world \<Rightarrow> log_line list" where
  "deliver_log E self t kh w =
     rpc_log E t (ReplicateWrite_log (hint_request (snd kh))) w @
     (case rpc E t (ReplicateWrite (hint_request (snd kh))) w of
        (Some resp, w1) \<Rightarrow>
          if rwr_success resp then [(self, HINT_DELIVERED, ''key='' @ fst kh @ '' owner='' @ t)]
          else [(self, HINT_STORE_FAILED, ''key='' @ fst kh @ '' target_owner='' @ t)]
      | (None, w1) \<Rightarrow> [(self, HINT_STORE_FAILED, ''key='' @ fst kh @ '' target_owner='' @ t)])"

definition deliverHints_log :: "env \<Rightarrow> node_id \<Rightarrow> node_id \<Rightarrow> world \<Rightarrow> log_line list" where
  "deliverHints_log E self t w =
     (case nodes w self of
        None \<Rightarrow> []
      | Some nd \<Rightarrow>
          (case nd_hints nd t of
             None \<Rightarrow> []
           | Some hints_copy \<Rightarrow> run_once_log E (deliver_step E self t) (deliver_log E self t) hints_copy () w))"

definition Ping_log :: "node_id \<Rightarrow> node \<Rightarrow> log_line list" where
  "Ping_log sender nd = [(nd_id nd, PING_RECEIVED, ''sender='' @ sender)]"

definition pingPeer_log :: "env \<Rightarrow> node_id \<Rightarrow> node_id \<Rightarrow> world \<Rightarrow> log_line list" where
  "pingPeer_log E self p w =
     (self, PROBE_SENT, ''target='' @ p) # rpc_log E p (\<lambda>now. Ping_log self) w @
     [(self, if fst (pingPeer E p w) then PROBE_SUCCEEDED else PROBE_FAILED, ''target='' @ p)]"

fun settle_log :: "env \<Rightarrow> node_id \<Rightarrow> node_id list \<Rightarrow> node_id list \<Rightarrow> world \<Rightarrow> log_line list" where
  "settle_log E self [] answered w = []"
| "settle_log E self (p # ps) answered w =
     (if p \<in> set answered
      then (let w1 = update_node self (markReachable p) w
            in deliverHints_log E self p w1 @ settle_log E self ps answered (deliverHints E self p w1))
      else settle_log E self ps answered w)"

definition reachabilityRound_log :: "env \<Rightarrow> node_id \<Rightarrow> world \<Rightarrow> log_line list" where
  "reachabilityRound_log E self w =
     (case nodes w self of
        None \<Rightarrow> []
      | Some nd \<Rightarrow>
          (let peers = unreachableSnapshot nd
           in if peers = [] then []
              else (case run_once E (probe_step E) peers [] w of
                      (answered, w1) \<Rightarrow>
                        run_once_log E (probe_step E) (pingPeer_log E self) peers [] w @
                        settle_log E self peers answered w1)))"

subsection \<open>Membership\<close>

fun mergeInto_log :: "node_id \<Rightarrow> MembershipTable \<Rightarrow> MembershipTable \<Rightarrow> log_line list" where
  "mergeInto_log caller local [] = []"
| "mergeInto_log caller local ((n, incoming) # rest) =
     (case map_of local n of
        None \<Rightarrow> mergeInto_log caller (AList.update n incoming local) rest
      | Some local_entry \<Rightarrow>
          if incoming_wins incoming local_entry then
            (if status local_entry = REMOVED \<and> status incoming = UP
             then [(caller, NODE_REBOOTED, ''node_id='' @ n @ '' status=REMOVED'' @ '' writer_id='' @
                     me_writer_id incoming @ '' last_updated='' @ int_to_string (me_last_updated incoming))]
             else []) @ mergeInto_log caller (AList.update n incoming local) rest
          else mergeInto_log caller local rest)"

definition GossipExchange_log :: "GossipRequest \<Rightarrow> node \<Rightarrow> log_line list" where
  "GossipExchange_log req nd =
     (nd_id nd, GOSSIP_RECEIVED, ''sender='' @ gq_sender req) #
     mergeInto_log (nd_id nd) (nd_table nd) (gq_table req) @
     [(nd_id nd, GOSSIP_MERGED, ''sender='' @ gq_sender req)]"

definition RemoveNode_log :: "node_id \<Rightarrow> millis \<Rightarrow> node \<Rightarrow> log_line list" where
  "RemoveNode_log n now nd =
     (case map_of (nd_table (snd (RemoveNode n now nd))) n of
        None \<Rightarrow> []
      | Some e \<Rightarrow> [(nd_id nd, REMOVE_SUCCEEDED, ''node_id='' @ n @ '' status='' @
          (if status e = UP then ''UP'' else ''REMOVED'') @ '' writer_id='' @ nd_id nd @
          '' last_updated='' @ int_to_string (me_last_updated e))])"

definition SendGossip_log :: "(nat \<Rightarrow> string) \<Rightarrow> env \<Rightarrow> node_id \<Rightarrow> string \<Rightarrow> MembershipTable \<Rightarrow> world
    \<Rightarrow> log_line list" where
  "SendGossip_log err E self peer tbl w =
     (self, GOSSIP_SENT, ''target='' @ peer) #
     rpc_log E peer (\<lambda>now. GossipExchange_log \<lparr>gq_sender = self, gq_table = tbl\<rparr>) w @
     (case SendGossip E self peer tbl w of
        (Some resp, w1) \<Rightarrow> [(self, GOSSIP_SUCCEEDED, ''responder='' @ gr_responder resp)]
      | (None, w1) \<Rightarrow> [(self, GOSSIP_FAILED, ''target='' @ peer @ '' error='' @ err (tick w))])"

text \<open>The lines of merging a reply, and of the lines after it.\<close>

definition merge_response_log :: "node_id \<Rightarrow> GossipResponse \<Rightarrow> world \<Rightarrow> log_line list" where
  "merge_response_log self resp w =
     (case nodes w self of None \<Rightarrow> [] | Some nd \<Rightarrow> mergeInto_log self (nd_table nd) (gr_table resp))"

definition gossipRound_log :: "(nat \<Rightarrow> string) \<Rightarrow> env \<Rightarrow> node_id \<Rightarrow> world \<Rightarrow> log_line list" where
  "gossipRound_log err E self w =
     (case nodes w self of
        None \<Rightarrow> []
      | Some nd \<Rightarrow>
          (case selectGossipTarget self (nd_table nd) (choice_at E (tick w)) of
             None \<Rightarrow> [(self, GOSSIP_NO_PEERS, [])]
           | Some peer \<Rightarrow>
               SendGossip_log err E self peer (nd_table nd) (advance w) @
               (case SendGossip E self peer (nd_table nd) (advance w) of
                  (None, w1) \<Rightarrow> []
                | (Some resp, w1) \<Rightarrow>
                    merge_response_log self resp w1 @ [(self, GOSSIP_MERGED, ''source=round peer='' @ peer)])))"

fun try_seeds_log :: "(nat \<Rightarrow> string) \<Rightarrow> env \<Rightarrow> node_id \<Rightarrow> string list \<Rightarrow> world \<Rightarrow> log_line list" where
  "try_seeds_log err E self [] w = []"
| "try_seeds_log err E self (seed # seeds) w =
     (case nodes w self of
        None \<Rightarrow> []
      | Some nd \<Rightarrow>
          SendGossip_log err E self seed (nd_table nd) w @
          (case SendGossip E self seed (nd_table nd) w of
             (Some resp, w1) \<Rightarrow>
               merge_response_log self resp w1 @
               [(self, GOSSIP_MERGED, ''source=bootstrap seed='' @ seed), (self, BOOTSTRAP_SUCCEEDED, [])]
           | (None, w1) \<Rightarrow> try_seeds_log err E self seeds w1))"

fun bootstrap_log :: "nat \<Rightarrow> (nat \<Rightarrow> string) \<Rightarrow> env \<Rightarrow> node_id \<Rightarrow> string list \<Rightarrow> world \<Rightarrow> log_line list" where
  "bootstrap_log 0 err E self seeds w =
     [(self, BOOTSTRAP_FAILED, ''passes=3 seeds='' @ to_string (length seeds))]"
| "bootstrap_log (Suc n) err E self seeds w =
     try_seeds_log err E self seeds w @
     (case try_seeds E self seeds w of
        (True, w1) \<Rightarrow> []
      | (False, w1) \<Rightarrow> bootstrap_log n err E self seeds w1)"

definition bootstrapFromSeed_log :: "(nat \<Rightarrow> string) \<Rightarrow> env \<Rightarrow> node_id \<Rightarrow> string list \<Rightarrow> world
    \<Rightarrow> log_line list" where
  "bootstrapFromSeed_log err E self seeds w = bootstrap_log 3 err E self seeds w"

subsection \<open>Processes and programs\<close>

definition join_seeds_log :: "(nat \<Rightarrow> string) \<Rightarrow> env \<Rightarrow> node_id \<Rightarrow> string \<Rightarrow> world \<Rightarrow> log_line list" where
  "join_seeds_log err E listen seed_arg w =
     (if splitSeeds seed_arg \<noteq> []
      then (listen, BOOTSTRAP_INIT, ''source=bootstrap seeds='' @ seed_arg) #
        bootstrapFromSeed_log err E listen (splitSeeds seed_arg) w
      else [])"

definition node_main_log :: "(nat \<Rightarrow> string) \<Rightarrow> env \<Rightarrow> string list \<Rightarrow> world \<Rightarrow> log_line list" where
  "node_main_log err E argv w =
     (let a = parse_args argv; listen = na_listen a
      in if listen = [] then []
         else (case quorum_config a of
                 Inl _ \<Rightarrow> []
               | Inr (N, W, R) \<Rightarrow>
                   if \<not> valid_quorum N W R then []
                   else (case stoi (na_vnodes a) of
                           Inl _ \<Rightarrow> []
                         | Inr V \<Rightarrow>
                             (listen, NODE_INIT, []) #
                             join_seeds_log err E listen (na_seed a) (launch_service E listen V N W R w))))"

text \<open>The administration client logs its pings and removals (a removal under the name of the removed node).\<close>

definition remove_run_log :: "env \<Rightarrow> string \<Rightarrow> node_id \<Rightarrow> world \<Rightarrow> log_line list" where
  "remove_run_log E target n w =
     (n, REMOVE_INIT, []) # rpc_log E target (RemoveNode_log n) w @
     (case rpc E target (\<lambda>now nd. Some (RemoveNode n now nd)) w of
        (Some accepted, w1) \<Rightarrow> []
      | (None, w1) \<Rightarrow> [(n, REMOVE_FAILED, [])])"

definition ping_run_log :: "(nat \<Rightarrow> string) \<Rightarrow> env \<Rightarrow> node_id \<Rightarrow> string \<Rightarrow> world \<Rightarrow> log_line list" where
  "ping_run_log err E self target w =
     (self, PING_SENT, ''target='' @ target) # rpc_log E target (\<lambda>now. Ping_log self) w @
     (case rpc E target (\<lambda>now nd. Some (Ping nd, nd)) w of
        (Some responder, w1) \<Rightarrow> [(self, PING_SUCCEEDED, ''responder='' @ responder)]
      | (None, w1) \<Rightarrow> [(self, PING_FAILED, ''target='' @ target @ '' error='' @ err (tick w))])"

subsection \<open>What the lines of a write tell\<close>

abbreviation line_event :: "log_line \<Rightarrow> EventType" where
  "line_event l \<equiv> fst (snd l)"

definition verdict_line :: "log_line \<Rightarrow> bool" where
  "verdict_line l \<longleftrightarrow> line_event l \<in> {PUT_SUCCEEDED, PUT_FAILED, PUT_FORWARDED}"

lemma storeReplicatedWrite_log_events:
  "l \<in> set (storeReplicatedWrite_log k v nd) \<Longrightarrow> line_event l = EQUAL_CLOCK_DETECTED"
  by (auto simp: storeReplicatedWrite_log_def split: option.splits if_splits)

lemma ReplicateWrite_log_events:
  "l \<in> set (ReplicateWrite_log req now nd) \<Longrightarrow> line_event l \<in> {HINT_STORED, EQUAL_CLOCK_DETECTED}"
  by (auto simp: ReplicateWrite_log_def dest: storeReplicatedWrite_log_events
      split: option.splits bool.splits)

lemma rpc_log_events:
  "l \<in> set (rpc_log E p lines w) \<Longrightarrow> (\<And>now nd. l \<in> set (lines now nd) \<Longrightarrow> P l) \<Longrightarrow> P l"
  by (auto simp: rpc_log_def split: option.splits if_splits)

lemma rpc_write_log_events:
  "l \<in> set (rpc_log E p (ReplicateWrite_log req) w) \<Longrightarrow> line_event l \<in> {HINT_STORED, EQUAL_CLOCK_DETECTED}"
  by (erule rpc_log_events) (rule ReplicateWrite_log_events)

lemma task_log_events:
  assumes "l \<in> set (task_log E self k v clock t w)"
  shows "line_event l \<in> {HINT_STORED, EQUAL_CLOCK_DETECTED, HINT_CREATED, HINT_SEARCH_EXHAUSTED}"
  using assms rpc_write_log_events [of l E "pt_target t" "task_request k v clock t" w]
  by (auto simp: task_log_def retry_log_def hint_created_def split: option.splits prod.splits if_splits)

lemma run_writes_log_step:
  assumes "pool \<noteq> []" and "task_step E self k v clock (pool ! next_thread E pool w) w = (cont, ack, w')"
  shows "run_writes_log E self k v clock pool w =
    task_log E self k v clock (pool ! next_thread E pool w) w @
    run_writes_log E self k v clock (pool_after pool (next_thread E pool w) cont) w'"
  using assms by (subst run_writes_log.simps) (simp add: Let_def)

lemma run_writes_log_events:
  "l \<in> set (run_writes_log E self k v clock pool w) \<Longrightarrow>
   line_event l \<in> {HINT_STORED, EQUAL_CLOCK_DETECTED, HINT_CREATED, HINT_SEARCH_EXHAUSTED}"
proof (induction E self k v clock pool w rule: run_writes_log.induct)
  case (1 E self k v clock pool w)
  show ?case
  proof (cases "pool = []")
    case True
    with 1(2) show ?thesis by (simp add: run_writes_log.simps)
  next
    case False
    obtain cont ack w' where s: "task_step E self k v clock (pool ! next_thread E pool w) w = (cont, ack, w')"
      by (cases "task_step E self k v clock (pool ! next_thread E pool w) w")
    then show ?thesis
      using 1 False run_writes_log_step [OF False s] task_log_events [of l E self k v clock] by auto
  qed
qed

definition tells :: "node_id \<Rightarrow> log_line list \<Rightarrow> PutResponse \<Rightarrow> bool" where
  "tells self lines resp \<longleftrightarrow> (\<exists>pre x. lines = pre @ [(self, if pr_success resp then PUT_SUCCEEDED else PUT_FAILED, x)] \<and>
     (\<forall>l \<in> set pre. \<not> verdict_line l))"

lemma coordinatePut_log_tells:
  assumes "coordinatePut E self k v ctx pref W w = (resp, w')"
  shows "tells self (coordinatePut_log E self k v ctx pref W w) resp"
proof (cases "int (length pref) < W mod 2 ^ 64")
  case True
  with assms show ?thesis by (auto simp: tells_def coordinatePut_log_def coordinatePut_def put_refused_def)
next
  case False
  define start where "start = (case find (\<lambda>e. ple_node_id e = self) pref of
      None \<Rightarrow> (empty_clock, 0 :: nat, w)
    | Some e \<Rightarrow> (case local_write E self k v ctx e w of (c, w1) \<Rightarrow> (c, 1, w1)))"
  define own where "own = (case find (\<lambda>e. ple_node_id e = self) pref of None \<Rightarrow> [] | Some e \<Rightarrow> own_hint_log self k e)"
  define pool where "pool = map (initial_task (map ple_node_id pref)) (filter (\<lambda>e. ple_node_id e \<noteq> self) pref)"
  obtain c n w1 where start: "start = (c, n, w1)" by (cases start)
  obtain acks w2 where run: "run_writes E self k v c pool n w1 = (acks, w2)"
    by (cases "run_writes E self k v c pool n w1")
  have "coordinatePut_log E self k v ctx pref W w =
      (own @ run_writes_log E self k v c pool w1) @ [put_verdict self k v c W acks]"
    using False start run unfolding start_def own_def pool_def
    by (auto simp: coordinatePut_log_def Let_def split: option.splits prod.splits)
  moreover have "resp = \<lparr>pr_success = \<not> int acks < W, pr_acks = acks, pr_context = c\<rparr>"
    using assms False start run unfolding start_def pool_def
    by (auto simp: coordinatePut_def Let_def split: option.splits prod.splits)
  moreover have "\<not> verdict_line l" if "l \<in> set (own @ run_writes_log E self k v c pool w1)" for l
    using that run_writes_log_events [of l E self k v c pool w1]
    by (auto simp: own_def own_hint_log_def verdict_line_def split: option.splits)
  ultimately show ?thesis
    unfolding tells_def by (intro exI [of _ "own @ run_writes_log E self k v c pool w1"]) (auto simp: put_verdict_def)
qed

lemma forwarded_tells:
  assumes "Put E self req w = (Some resp, w')" and "pq_forwarded req"
  shows "tells self (Put_log err E self req w) resp"
proof -
  obtain nd b where nd: "nodes w self = Some nd" "isSelfRemoved nd = Some b"
    using assms(1) by (auto simp: Put.simps split: option.splits)
  show ?thesis
  proof (cases b)
    case True
    with assms(1) nd show ?thesis by (auto simp: Put.simps Put_log.simps tells_def put_refused_def)
  next
    case False
    let ?pref = "preferenceListForKey nd (pq_key req) (nd_N nd)"
    show ?thesis
    proof (cases "self \<in> set (map ple_node_id ?pref)")
      case True
      with assms nd False have "coordinatePut E self (pq_key req) (pq_value req) (Some (pq_context req))
          ?pref (nd_W nd) w = (resp, w')"
        by (auto simp: Put.simps Let_def split: prod.splits)
      from coordinatePut_log_tells [OF this] True nd False show ?thesis
        by (simp add: Put_log.simps Let_def)
    next
      case nself: False
      with assms nd False show ?thesis by (auto simp: Put.simps Put_log.simps Let_def tells_def put_refused_def)
    qed
  qed
qed

lemma forwarded_verdicts:
  assumes "pq_forwarded req" and "l \<in> set (Put_log err E self req w)" and "verdict_line l"
  shows "fst l = self"
proof -
  have "Put_log err E self req w = [] \<or> (\<exists>resp. tells self (Put_log err E self req w) resp)"
  proof (cases "Put E self req w")
    case (Pair r w')
    then show ?thesis
    proof (cases r)
      case None
      with Pair assms(1) have "Put_log err E self req w = []"
        by (auto simp: Put.simps Put_log.simps Let_def split: option.splits bool.splits if_splits prod.splits)
      then show ?thesis ..
    next
      case (Some resp)
      with Pair forwarded_tells [OF _ assms(1)] show ?thesis by blast
    qed
  qed
  with assms(2,3) show ?thesis by (auto simp: tells_def)
qed

text \<open>
  The log of a node that was asked for a write: its own verdict comes last and is its only one, or it
  relays the verdict of the node that coordinated, whose line comes just before.
\<close>

definition own_verdict_last :: "node_id \<Rightarrow> log_line list \<Rightarrow> log_line \<Rightarrow> bool" where
  "own_verdict_last self lines v \<longleftrightarrow>
     (\<exists>pre. lines = pre @ [v] \<and> (\<forall>l \<in> set pre. verdict_line l \<longrightarrow> fst l \<noteq> self))"

definition relays :: "node_id \<Rightarrow> key \<Rightarrow> log_line list \<Rightarrow> PutResponse \<Rightarrow> bool" where
  "relays self k lines resp \<longleftrightarrow>
     (\<exists>pre mid target. lines = pre @ mid @ [(self, PUT_FORWARDED, ''key='' @ k @ '' target='' @ target)] \<and>
        target \<noteq> self \<and> tells target mid resp \<and> (\<forall>l \<in> set (pre @ mid). verdict_line l \<longrightarrow> fst l \<noteq> self))"

definition put_told :: "node_id \<Rightarrow> key \<Rightarrow> log_line list \<Rightarrow> PutResponse \<Rightarrow> bool" where
  "put_told self k lines resp \<longleftrightarrow>
     (\<exists>x. own_verdict_last self lines (self, if pr_success resp then PUT_SUCCEEDED else PUT_FAILED, x)) \<or>
     relays self k lines resp"

lemma put_told_prefix:
  assumes "put_told self k lines resp" and "\<And>l. l \<in> set before \<Longrightarrow> verdict_line l \<Longrightarrow> fst l \<noteq> self"
  shows "put_told self k (before @ lines) resp"
  using assms(1) unfolding put_told_def
proof
  assume "\<exists>x. own_verdict_last self lines (self, if pr_success resp then PUT_SUCCEEDED else PUT_FAILED, x)"
  then obtain x pre where "lines = pre @ [(self, if pr_success resp then PUT_SUCCEEDED else PUT_FAILED, x)]"
    "\<forall>l \<in> set pre. verdict_line l \<longrightarrow> fst l \<noteq> self" by (auto simp: own_verdict_last_def)
  then have "own_verdict_last self (before @ lines) (self, if pr_success resp then PUT_SUCCEEDED else PUT_FAILED, x)"
    unfolding own_verdict_last_def using assms(2) by (intro exI [of _ "before @ pre"]) auto
  then show "(\<exists>x. own_verdict_last self (before @ lines)
      (self, if pr_success resp then PUT_SUCCEEDED else PUT_FAILED, x)) \<or> relays self k (before @ lines) resp"
    by blast
next
  assume "relays self k lines resp"
  then obtain pre mid target where
    "lines = pre @ mid @ [(self, PUT_FORWARDED, ''key='' @ k @ '' target='' @ target)]" "target \<noteq> self"
    "tells target mid resp" "\<forall>l \<in> set (pre @ mid). verdict_line l \<longrightarrow> fst l \<noteq> self"
    by (auto simp: relays_def)
  then have "relays self k (before @ lines) resp"
    unfolding relays_def using assms(2)
    by (intro exI [of _ "before @ pre"] exI [of _ mid] exI [of _ target]) auto
  then show "(\<exists>x. own_verdict_last self (before @ lines)
      (self, if pr_success resp then PUT_SUCCEEDED else PUT_FAILED, x)) \<or> relays self k (before @ lines) resp"
    by blast
qed

lemma forward_log_tells:
  assumes "forward_loop E self ts req w = (resp, w')" and "self \<notin> set ts"
  shows "put_told self (pq_key req) (forward_log err E self ts req w) resp"
  using assms
proof (induction ts arbitrary: w)
  case Nil
  then have "resp = put_refused" by simp
  moreover have "own_verdict_last self [v] v" for v by (simp add: own_verdict_last_def)
  ultimately show ?case unfolding put_told_def by (auto simp: put_refused_def)
next
  case (Cons t ts)
  let ?req = "req\<lparr>pq_forwarded := True\<rparr>"
  let ?failed = "(self, PUT_FORWARD_FAILED, ''key='' @ pq_key req @ '' target='' @ t @ '' error='' @ err (tick w))"
  have t: "t \<noteq> self" and ts: "self \<notin> set ts" using Cons.prems(2) by auto
  have other: "verdict_line l \<Longrightarrow> fst l \<noteq> self" if "l \<in> set (Put_log err E t ?req (advance w))" for l
    using forwarded_verdicts [of ?req l err E t "advance w"] that t by simp
  have retry: "put_told self (pq_key req)
      ((before @ [?failed]) @ forward_log err E self ts req w1) resp"
    if "forward_loop E self ts req w1 = (resp, w')" "\<And>l. l \<in> set before \<Longrightarrow> verdict_line l \<Longrightarrow> fst l \<noteq> self"
    for before w1
    using Cons.IH [OF that(1) ts] by (rule put_told_prefix) (use that(2) in \<open>auto simp: verdict_line_def\<close>)
  show ?case
  proof (cases "fate_at E (tick w) = RequestLost")
    case True
    with Cons.prems(1) retry [of _ "[]"] show ?thesis by (simp add: Let_def)
  next
    case False
    obtain r w1 where put: "Put E t ?req (advance w) = (r, w1)" by (cases "Put E t ?req (advance w)")
    show ?thesis
    proof (cases "r = None \<or> fate_at E (tick w) \<noteq> Delivered")
      case True
      then have "forward_log err E self (t # ts) req w = (Put_log err E t ?req (advance w) @ [?failed]) @
          forward_log err E self ts req (update_node self (markUnreachable t) w1)"
        using False put by (auto simp: Let_def split: option.split)
      moreover have "forward_loop E self ts req (update_node self (markUnreachable t) w1) = (resp, w')"
        using Cons.prems(1) False put True by (auto split: option.splits)
      ultimately show ?thesis using retry [OF _ other] by simp
    next
      case delivered: False
      then have resp: "r = Some resp" using Cons.prems(1) False put by auto
      have "tells t (Put_log err E t ?req (advance w)) resp"
        by (rule forwarded_tells [of E t ?req "advance w" resp w1]) (use put resp in simp_all)
      moreover have "forward_log err E self (t # ts) req w = [] @ Put_log err E t ?req (advance w) @
          [(self, PUT_FORWARDED, ''key='' @ pq_key req @ '' target='' @ t)]"
        using delivered False put resp by (simp add: Let_def)
      ultimately have "relays self (pq_key req) (forward_log err E self (t # ts) req w) resp"
        unfolding relays_def using t other
        by (intro exI [of _ "[]"] exI [of _ "Put_log err E t ?req (advance w)"] exI [of _ t]) auto
      then show ?thesis unfolding put_told_def by (rule disjI2)
    qed
  qed
qed

lemma tells_told: "tells self lines resp \<Longrightarrow> put_told self k lines resp"
  unfolding put_told_def tells_def own_verdict_last_def by fastforce

lemma Put_log_tells:
  assumes "Put E self req w = (Some resp, w')"
  shows "put_told self (pq_key req) (Put_log err E self req w) resp"
proof -
  obtain nd b where nd: "nodes w self = Some nd" "isSelfRemoved nd = Some b"
    using assms(1) by (auto simp: Put.simps split: option.splits)
  let ?ids = "map ple_node_id (preferenceListForKey nd (pq_key req) (nd_N nd))"
  show ?thesis
  proof (cases "b \<or> self \<in> set ?ids \<or> pq_forwarded req")
    case True
    have "tells self (Put_log err E self req w) resp"
    proof (cases "pq_forwarded req")
      case True
      with assms show ?thesis by (rule forwarded_tells)
    next
      case False
      have "coordinatePut E self (pq_key req) (pq_value req) (Some (pq_context req))
          (preferenceListForKey nd (pq_key req) (nd_N nd)) (nd_W nd) w = (resp, w')" if "\<not> b"
        using that assms nd True False by (auto simp: Put.simps Let_def split: prod.splits)
      then show ?thesis
        using assms nd True False coordinatePut_log_tells
        by (cases b) (auto simp: Put.simps Put_log.simps tells_def put_refused_def Let_def)
    qed
    then show ?thesis by (rule tells_told)
  next
    case False
    then have "forward_loop E self (rotate (choice_at E (tick w) mod length ?ids) ?ids) req (advance w) = (resp, w')"
      using assms nd by (auto simp: Put.simps Let_def split: prod.splits)
    from forward_log_tells [OF this, of err] False nd show ?thesis by (simp add: Put_log.simps Let_def)
  qed
qed

subsection \<open>What the lines of a read tell\<close>

text \<open>Two replicas whose stored versions are concurrent.\<close>

definition stored_conflict :: "world \<Rightarrow> key \<Rightarrow> bool" where
  "stored_conflict w k \<longleftrightarrow> (\<exists>a b na nb x y. nodes w a = Some na \<and> nodes w b = Some nb \<and>
     nd_kv na k = Some x \<and> nd_kv nb k = Some y \<and>
     compareVectorClocks (vv_clock x) (vv_clock y) = CONCURRENT)"

lemma conflict_is_stored:
  assumes "wf_world T w" and "collected w self k ids results w1"
    and "resolveGetResult (found_versions results) = Some r" and "1 < concurrent_count r"
  shows "stored_conflict w k"
proof -
  let ?F = "computeFrontier (found_versions results)"
  have wf: "wf_versions (found_versions results)" using collected_versions [OF assms(2,1)] .
  have "concurrent_count r = length ?F"
    using assms(3) by (auto simp: resolveGetResult_def Let_def split: if_splits list.splits)
  with assms(4) obtain x y rest where F: "?F = x # y # rest"
    by (cases ?F rule: remdups_adj.cases) auto
  have "vv_counters x \<noteq> vv_counters y" using frontier_distinct_values [OF wf] F by auto
  then have "compareVectorClocks (vv_clock x) (vv_clock y) = CONCURRENT"
    using frontier_pairwise [OF wf] F by simp
  moreover have "x \<in> set (found_versions results)" "y \<in> set (found_versions results)"
    using frontier_subset [OF wf] F by auto
  then obtain a na b nb where "nodes w a = Some na" "nd_kv na k = Some x" "nodes w b = Some nb" "nd_kv nb k = Some y"
    using found_versions_answer [OF _ assms(2)] by meson
  ultimately show ?thesis unfolding stored_conflict_def by blast
qed

lemma no_stale_no_repair:
  "stale_count win results self = 0 \<Longrightarrow> start_repair self k win results w = w"
  by (auto simp: stale_count_def start_repair_def Let_def filter_empty_conv split: if_splits)

definition read_verdict :: "log_line \<Rightarrow> bool" where
  "read_verdict l \<longleftrightarrow> line_event l \<in> {GET_SUCCEEDED, GET_FAILED}"

lemma self_repair_log_events:
  assumes "l \<in> set (self_repair_log self k win results w)"
  shows "line_event l = EQUAL_CLOCK_DETECTED"
proof (cases "\<exists>r \<in> set (filter (stale win) results). rr_peer_id r = self")
  case True
  then have "self_repair_log self k win results w =
      (case nodes w self of None \<Rightarrow> [] | Some nd \<Rightarrow> storeReplicatedWrite_log k win nd)"
    unfolding self_repair_log_def by (rule if_P)
  with assms storeReplicatedWrite_log_events show ?thesis by (cases "nodes w self") auto
next
  case False
  then have "self_repair_log self k win results w = []" unfolding self_repair_log_def by (rule if_not_P)
  with assms show ?thesis by simp
qed

lemma resolved_log_shape:
  "\<exists>pre. resolved_log self k r results w = pre @ [(self, GET_SUCCEEDED, ''key='' @ k @ '' val='' @
      vv_value (winner r) @ '' winning_clock='' @ renderClock (vv_clock (winner r)))] \<and>
     (\<forall>l \<in> set pre. \<not> read_verdict l) \<and>
     ((\<exists>l \<in> set pre. line_event l = CONFLICT_RESOLVED) \<longleftrightarrow> 1 < concurrent_count r) \<and>
     ((\<exists>l \<in> set pre. line_event l = READ_REPAIR_INIT) \<longleftrightarrow> 0 < stale_count (winner r) results self)"
proof -
  let ?own = "self_repair_log self k (winner r) results w"
  note own = self_repair_log_events [of _ self k "winner r" results w]
  define conflict where "conflict = (if 1 < concurrent_count r
    then [(self, CONFLICT_RESOLVED, ''key='' @ k @ '' concurrent_versions='' @
        to_string (concurrent_count r) @ '' winner_writer_id='' @ vc_writer_id (vv_clock (winner r)) @
        '' winner_last_updated='' @ int_to_string (vc_last_updated (vv_clock (winner r))))] else [])"
  define start where "start = (if 0 < stale_count (winner r) results self
    then [(self, READ_REPAIR_INIT, ''key='' @ k @ '' stale_count='' @
        to_string (stale_count (winner r) results self))] else [])"
  have "resolved_log self k r results w = (conflict @ start @ ?own) @ [(self, GET_SUCCEEDED, ''key='' @ k @
      '' val='' @ vv_value (winner r) @ '' winning_clock='' @ renderClock (vv_clock (winner r)))]"
    unfolding resolved_log_def conflict_def start_def Let_def append_assoc ..
  moreover have "\<not> read_verdict l" if "l \<in> set (conflict @ start @ ?own)" for l
    using that own [of l] by (auto simp: conflict_def start_def read_verdict_def split: if_splits)
  moreover have "(\<exists>l \<in> set (conflict @ start @ ?own). line_event l = CONFLICT_RESOLVED) \<longleftrightarrow> 1 < concurrent_count r"
    by (auto simp: conflict_def start_def dest: own split: if_splits)
  moreover have "(\<exists>l \<in> set (conflict @ start @ ?own). line_event l = READ_REPAIR_INIT) \<longleftrightarrow>
      0 < stale_count (winner r) results self"
    by (auto simp: conflict_def start_def dest: own split: if_splits)
  ultimately show ?thesis
    by (intro exI [of _ "conflict @ start @ ?own"] conjI ballI)
qed

text \<open>
  What the log of a read tells: \<open>v\<close> is its last line and its only verdict, and \<open>pre\<close> are the lines before.
\<close>

definition get_told :: "node_id \<Rightarrow> key \<Rightarrow> world \<Rightarrow> GetResponse \<Rightarrow> world \<Rightarrow> log_line list \<Rightarrow> log_line \<Rightarrow> bool" where
  "get_told self k w resp w' pre v \<longleftrightarrow>
     fst v = self \<and> read_verdict v \<and> (\<forall>l \<in> set pre. \<not> read_verdict l) \<and>
     (line_event v = GET_SUCCEEDED \<longleftrightarrow> (\<exists>nd. nodes w self = Some nd \<and> nd_R nd \<le> int (ge_responses resp))) \<and>
     (ge_found resp \<longrightarrow> v = (self, GET_SUCCEEDED, ''key='' @ k @ '' val='' @ ge_value resp @
        '' winning_clock='' @ renderClock (ge_context resp))) \<and>
     ((\<exists>l \<in> set pre. line_event l = CONFLICT_RESOLVED) \<longrightarrow> stored_conflict w k) \<and>
     ((\<forall>l \<in> set pre. line_event l \<noteq> READ_REPAIR_INIT) \<longrightarrow> same_data w w')"

lemma Get_log_tells:
  assumes "Get E self k w = (Some resp, w')" and "wf_world T w"
  shows "\<exists>pre v. Get_log E self k w = pre @ [v] \<and> get_told self k w resp w' pre v"
proof -
  obtain nd b where nd: "nodes w self = Some nd" and b: "isSelfRemoved nd = Some b"
    using assms(1) by (auto simp: Get_def split: option.splits)
  have R: "1 \<le> nd_R nd"
    using wf_worldD [OF assms(2) nd] by (auto simp: wf_node_def wf_member_def valid_quorum_def)
  have id: "nd_id nd = self" using wf_worldD [OF assms(2) nd] by simp
  let ?pl = "preferenceListForKey nd k (nd_N nd)"
  let ?ids = "map ple_node_id ?pl"
  let ?peers = "filter (\<lambda>p. p \<noteq> self) ?ids" and ?local = "if self \<in> set ?ids then [local_result nd k] else []"
  obtain results w1 where run: "run_once E (read_step E self k) ?peers ?local w = (results, w1)"
    by (cases "run_once E (read_step E self k) ?peers ?local w")
  have "distinct ?ids" unfolding preferenceListForKey_def Let_def by (rule preference_ids_distinct)
  from run_reads_collected [OF run this nd id] have col: "collected w self k ?ids results w1" .
  then have sd: "same_data w w1" by (simp add: collected_def)
  note get = assms(1) [unfolded Get_def nd option.case b Let_def run prod.case]
  note log = Get_log_def [of E self k w, unfolded nd option.case b Let_def run prod.case]
  consider (refused) "b \<or> int (length ?pl) < nd_R nd"
    | (unresolved) "\<not> b" "\<not> int (length ?pl) < nd_R nd"
        "int (length results) < nd_R nd \<or> found_versions results = []"
    | (resolved) "\<not> b" "\<not> int (length ?pl) < nd_R nd" "\<not> int (length results) < nd_R nd"
        "found_versions results \<noteq> []" by blast
  then show ?thesis
  proof cases
    case refused
    then have "resp = get_refused" "w' = w" using get by (cases b; simp split: if_splits)+
    moreover obtain x where "Get_log E self k w = [] @ [(self, GET_FAILED, x)]"
      using refused log by (cases b) auto
    ultimately show ?thesis
      using nd R unfolding get_told_def
      by (intro exI [of _ "[]"] exI [of _ "(self, GET_FAILED, x)"]) (simp add: get_refused_def read_verdict_def)
  next
    case unresolved
    then have "resp = get_refused\<lparr>ge_responses := length results\<rparr>" "w' = w1"
      using get by (cases b; simp split: if_splits)+
    moreover obtain x where "Get_log E self k w = [(self, GET_INIT, [])] @
        [(self, if int (length results) < nd_R nd then GET_FAILED else GET_SUCCEEDED, x)]"
      using unresolved log by (cases b; cases "int (length results) < nd_R nd") auto
    ultimately show ?thesis
      using nd sd unfolding get_told_def
      by (intro exI [of _ "[(self, GET_INIT, [])]"]
          exI [of _ "(self, if int (length results) < nd_R nd then GET_FAILED else GET_SUCCEEDED, x)"])
        (auto simp: get_refused_def read_verdict_def)
  next
    case resolved
    then obtain r where r: "resolveGetResult (found_versions results) = Some r"
      using get by (cases b) (auto split: option.splits)
    then have resp: "resp = \<lparr>ge_found = True, ge_value = vv_value (winner r), ge_responses = length results,
        ge_context = vv_clock (winner r)\<rparr>" and w': "w' = start_repair self k (winner r) results w1"
      using resolved get by (cases b; simp)+
    have lines: "Get_log E self k w = (self, GET_INIT, []) # resolved_log self k r results w1"
      using resolved log r by (cases b) auto
    obtain pre where pre: "resolved_log self k r results w1 = pre @ [(self, GET_SUCCEEDED, ''key='' @ k @
        '' val='' @ vv_value (winner r) @ '' winning_clock='' @ renderClock (vv_clock (winner r)))]"
      "\<forall>l \<in> set pre. \<not> read_verdict l"
      "(\<exists>l \<in> set pre. line_event l = CONFLICT_RESOLVED) \<longleftrightarrow> 1 < concurrent_count r"
      "(\<exists>l \<in> set pre. line_event l = READ_REPAIR_INIT) \<longleftrightarrow> 0 < stale_count (winner r) results self"
      using resolved_log_shape [of self k r results w1] by (elim exE conjE) (rule that)
    have repair: "same_data w w'" if "\<forall>l \<in> set pre. line_event l \<noteq> READ_REPAIR_INIT"
      using that pre(4) no_stale_no_repair [of "winner r" results self k w1] sd w' by auto
    have conflict: "stored_conflict w k" if "\<exists>l \<in> set pre. line_event l = CONFLICT_RESOLVED"
      using conflict_is_stored [OF assms(2) col r] pre(3) that by blast
    show ?thesis
      unfolding lines pre(1) append_Cons [symmetric] get_told_def resp
      by (intro exI conjI, rule refl)
        (use nd resolved(3) pre(2) repair conflict in \<open>auto simp: read_verdict_def\<close>)
  qed
qed

subsection \<open>What the lines of a delivery tell\<close>

definition delivered_line :: "node_id \<Rightarrow> node_id \<Rightarrow> key \<Rightarrow> log_line" where
  "delivered_line self t k = (self, HINT_DELIVERED, ''key='' @ k @ '' owner='' @ t)"

definition undelivered_line :: "node_id \<Rightarrow> node_id \<Rightarrow> key \<Rightarrow> log_line" where
  "undelivered_line self t k = (self, HINT_STORE_FAILED, ''key='' @ k @ '' target_owner='' @ t)"

lemma handoff_lines [simp]:
  "delivered_line self t k = delivered_line self t l \<longleftrightarrow> k = l"
  "undelivered_line self t k = undelivered_line self t l \<longleftrightarrow> k = l"
  "delivered_line self t k \<noteq> undelivered_line self t l"
  "undelivered_line self t k \<noteq> delivered_line self t l"
  by (simp_all add: delivered_line_def undelivered_line_def)

lemma replica_lines_no_handoff:
  "l \<in> set (rpc_log E p (ReplicateWrite_log req) w) \<Longrightarrow> l \<noteq> delivered_line self t k \<and> l \<noteq> undelivered_line self t k"
  using rpc_write_log_events [of l E p req w] by (auto simp: delivered_line_def undelivered_line_def)

lemma deliver_log_tells:
  assumes "deliver_step E self t kh () w = (u, w')" and "wf_world T w" and "wf_clock (hint_clock (snd kh))"
    and "hint_key (snd kh) = fst kh"
  obtains pre where "deliver_log E self t kh w = pre @ [delivered_line self t (fst kh)]"
      "\<And>l k. l \<in> set pre \<Longrightarrow> l \<noteq> delivered_line self t k \<and> l \<noteq> undelivered_line self t k"
      "keeps_at w' (fst kh) (hint_clock (snd kh)) t"
  | pre where "deliver_log E self t kh w = pre @ [undelivered_line self t (fst kh)]"
      "\<And>l k. l \<in> set pre \<Longrightarrow> l \<noteq> delivered_line self t k \<and> l \<noteq> undelivered_line self t k"
      "\<And>v l g. holds_hint w' self v l g = holds_hint w self v l g"
proof -
  obtain resp w1 where r: "rpc E t (ReplicateWrite (hint_request (snd kh))) w = (resp, w1)"
    by (cases "rpc E t (ReplicateWrite (hint_request (snd kh))) w")
  note rpc = deliver_rpc [OF r assms(2,3)]
  show ?thesis
  proof (cases "\<exists>x. resp = Some x \<and> rwr_success x")
    case True
    then have "w' = update_node self (drop_hint t (fst kh) (snd kh)) w1"
      using assms(1) r by (auto simp: deliver_step_def)
    then have "keeps_at w' (fst kh) (hint_clock (snd kh)) t"
      using rpc(5) True assms(4) by (auto simp: keeps_at_update)
    moreover have "deliver_log E self t kh w =
        rpc_log E t (ReplicateWrite_log (hint_request (snd kh))) w @ [delivered_line self t (fst kh)]"
      using True r by (auto simp: deliver_log_def delivered_line_def)
    ultimately show ?thesis using replica_lines_no_handoff by (intro that(1))
  next
    case False
    then have "w' = w1 \<or> w' = update_node self (markUnreachable t) w1"
      using assms(1) r by (auto simp: deliver_step_def split: option.splits if_splits)
    then have "holds_hint w' self v l g = holds_hint w self v l g" for v l g
      using rpc(3) holds_hint_update [of v l "markUnreachable t"] by auto
    moreover have "deliver_log E self t kh w =
        rpc_log E t (ReplicateWrite_log (hint_request (snd kh))) w @ [undelivered_line self t (fst kh)]"
      using False r by (auto simp: deliver_log_def undelivered_line_def split: option.splits)
    ultimately show ?thesis using replica_lines_no_handoff by (intro that(2))
  qed
qed

text \<open>
  A log that accounts for the hints taken so far: for each of them exactly one line, of the kind that is
  true, and none for another key.
\<close>

definition one_line :: "node_id \<Rightarrow> node_id \<Rightarrow> log_line list \<Rightarrow> world \<Rightarrow> key \<Rightarrow> HeldHint \<Rightarrow> bool" where
  "one_line self t lines w k h \<longleftrightarrow>
     count_list lines (delivered_line self t k) = 1 \<and> count_list lines (undelivered_line self t k) = 0 \<and>
       keeps_at w k (hint_clock h) t \<or>
     count_list lines (delivered_line self t k) = 0 \<and> count_list lines (undelivered_line self t k) = 1 \<and>
       holds_hint w self t k h"

definition no_line :: "node_id \<Rightarrow> node_id \<Rightarrow> log_line list \<Rightarrow> key \<Rightarrow> bool" where
  "no_line self t lines k \<longleftrightarrow>
     delivered_line self t k \<notin> set lines \<and> undelivered_line self t k \<notin> set lines"

definition accounts :: "node_id \<Rightarrow> node_id \<Rightarrow> (key \<times> HeldHint) set \<Rightarrow> log_line list \<Rightarrow> world \<Rightarrow> bool" where
  "accounts self t taken lines w \<longleftrightarrow> (\<forall>(k, h) \<in> taken. one_line self t lines w k h) \<and>
     (\<forall>k. k \<notin> fst ` taken \<longrightarrow> no_line self t lines k)"

lemma accounts_step:
  assumes "accounts self t taken lines w" and "deliver_step E self t kh () w = (u, w')" and "wf_world T w"
    and "wf_clock (hint_clock (snd kh))" and "hint_key (snd kh) = fst kh" and "fst kh \<notin> fst ` taken"
    and "holds_hint w self t (fst kh) (snd kh)"
  shows "accounts self t (insert kh taken) (lines @ deliver_log E self t kh w) w'"
proof -
  note facts = deliver_step_facts [OF assms(2-5)]
  let ?lines = "lines @ deliver_log E self t kh w"
  obtain pre l where log: "deliver_log E self t kh w = pre @ [l]"
    and pre: "\<And>k. delivered_line self t k \<notin> set pre \<and> undelivered_line self t k \<notin> set pre"
    and l: "l = delivered_line self t (fst kh) \<and> keeps_at w' (fst kh) (hint_clock (snd kh)) t \<or>
      l = undelivered_line self t (fst kh) \<and> holds_hint w' self t (fst kh) (snd kh)"
    using assms(2-5)
  proof (cases rule: deliver_log_tells)
    case (1 pre)
    with that [OF 1(1)] show ?thesis by blast
  next
    case (2 pre)
    with that [OF 2(1)] assms(7) show ?thesis by blast
  qed
  have count: "count_list ?lines (delivered_line self t k) = count_list lines (delivered_line self t k) +
      (if l = delivered_line self t k then 1 else 0)"
    "count_list ?lines (undelivered_line self t k) = count_list lines (undelivered_line self t k) +
      (if l = undelivered_line self t k then 1 else 0)" for k
    using pre [of k] by (simp_all add: log count_list_0_iff)
  have old: "one_line self t ?lines w' k h" if "(k, h) \<in> taken" for k h
  proof -
    have k: "k \<noteq> fst kh" using that assms(6) by (metis fst_conv image_eqI)
    have "one_line self t lines w k h" using assms(1) that by (auto simp: accounts_def)
    then show ?thesis
      using k l facts(3) [of t k self h] facts(4) [of k "hint_clock h"] unfolding one_line_def count by auto
  qed
  have "no_line self t lines (fst kh)" using assms(1,6) by (simp add: accounts_def)
  then have "one_line self t ?lines w' (fst kh) (snd kh)"
    using l unfolding one_line_def count no_line_def by (auto simp: count_list_0_iff)
  moreover have "no_line self t ?lines k" if "k \<notin> fst ` insert kh taken" for k
    using assms(1) that l pre [of k] by (auto simp: accounts_def no_line_def log)
  ultimately show ?thesis using old by (auto simp: accounts_def)
qed

text \<open>Logging leaves a fan-out as it is.\<close>

lemma run_once_logged:
  "\<exists>l'. run_once E (logged step lines) pool (r, l) w =
     ((fst (run_once E step pool r w), l'), snd (run_once E step pool r w))"
proof (induction E step pool r w arbitrary: l rule: run_once.induct)
  case (1 E step pool r w)
  show ?case
  proof (cases "pool = []")
    case False
    obtain r1 w1 where s: "step (pool ! next_thread E pool w) r w = (r1, w1)"
      by (cases "step (pool ! next_thread E pool w) r w")
    let ?l = "l @ lines (pool ! next_thread E pool w) w"
    have "run_once E (logged step lines) pool (r, l) w =
        run_once E (logged step lines) (drop_nth (next_thread E pool w) pool) (r1, ?l) w1"
      using False s by (subst run_once.simps) (simp add: logged_def Let_def)
    moreover have "run_once E step pool r w = run_once E step (drop_nth (next_thread E pool w) pool) r1 w1"
      using False s by (subst run_once.simps) (simp add: Let_def)
    ultimately show ?thesis using 1 [OF False refl s [symmetric], of ?l] by simp
  qed simp
qed

lemma deliverHints_log_accounts:
  assumes "wf_world T w" and "nodes w self = Some nd" and "nd_hints nd t = Some hs"
  shows "accounts self t (set hs) (deliverHints_log E self t w) (deliverHints E self t w)"
proof -
  have wfh: "wf_hints hs" using wf_worldD [OF assms(1,2)] assms(3) by (auto simp: wf_node_def wf_hint_table_def)
  let ?step = "logged (deliver_step E self t) (deliver_log E self t)"
  obtain lines w' where run: "run_once E ?step hs ((), []) w = (((), lines), w')"
    by (cases "run_once E ?step hs ((), []) w") auto
  define P where "P M ul x \<longleftrightarrow> delivery_invariant T w self t hs M x \<and> (\<forall>kh. count M kh \<le> 1) \<and>
      accounts self t (set hs - set_mset M) (snd ul) x" for M and ul :: "unit \<times> log_line list" and x
  have "holds_hint w self t (fst kh) (snd kh)" if "kh \<in> set hs" for kh
    using that assms wfh by (auto simp: holds_hint_def hint_at_def wf_hints_def)
  then have "P (mset hs) ((), []) w"
    using assms(1) wf_hints_distinct [OF wfh]
    by (auto simp: P_def delivery_invariant_def distinct_count_atmost_1 accounts_def no_line_def)
  then have "P {#} ((), lines) w'"
  proof (rule run_once_invariant [where P = P, OF run])
    fix kh M ul x ul' x'
    assume mem: "kh \<in># M" and inv: "P M ul x" and step: "?step kh ul x = (ul', x')"
    obtain l where ul: "ul = ((), l)" by (cases ul) auto
    have le: "count M y \<le> 1" for y using inv unfolding P_def by blast
    have one: "count M kh = 1" using mem le [of kh] by (metis count_greater_eq_one_iff le_antisym)
    have le': "count (M - {#kh#}) y \<le> 1" for y using le [of y] by simp
    have dinv: "delivery_invariant T w self t hs M x" and acc: "accounts self t (set hs - set_mset M) l x"
      using inv by (auto simp: P_def ul)
    have s: "deliver_step E self t kh () x = ((), x')" and ul': "ul' = ((), l @ deliver_log E self t kh x)"
      using step by (auto simp: ul logged_def split: prod.splits)
    have kh: "kh \<in> set hs" "wf_world T x" "holds_hint x self t (fst kh) (snd kh)"
      using dinv mem by (auto simp: delivery_invariant_def)
    then have key: "hint_key (snd kh) = fst kh" "wf_clock (hint_clock (snd kh))"
      using wfh by (auto simp: wf_hints_def)
    have fresh: "fst kh \<notin> fst ` (set hs - set_mset M)"
      using wfh kh(1) mem by (auto simp: wf_hints_def distinct_map dest: inj_onD)
    have gone: "kh \<notin># M - {#kh#}" using one by (simp add: not_in_iff)
    have rest: "insert kh (set hs - set_mset M) = set hs - set_mset (M - {#kh#})"
      using kh(1) gone mem by (auto dest: in_diffD) (metis insert_DiffM insert_noteq_member)
    have "delivery_invariant T w self t hs (M - {#kh#}) x'"
      by (rule delivery_invariant_step [OF mem dinv wfh one s])
    moreover have "accounts self t (set hs - set_mset (M - {#kh#})) (l @ deliver_log E self t kh x) x'"
      using accounts_step [OF acc s kh(2) key(2,1) fresh kh(3)] unfolding rest .
    ultimately show "P (M - {#kh#}) ul' x'" using le' by (simp add: P_def ul')
  qed
  moreover have "w' = deliverHints E self t w"
    using run run_once_logged [of E "deliver_step E self t" "deliver_log E self t" hs "()" "[]" w] assms
    by (auto simp: deliverHints_def)
  moreover have "lines = deliverHints_log E self t w"
    using run assms by (simp add: deliverHints_log_def run_once_log_def)
  ultimately show ?thesis by (simp add: P_def)
qed

subsection \<open>Hints that are logged are held\<close>

definition hint_held :: "world \<Rightarrow> node_id \<Rightarrow> node_id \<Rightarrow> key \<Rightarrow> vector_clock \<Rightarrow> bool" where
  "hint_held w a t k c \<longleftrightarrow> (\<exists>nd. nodes w a = Some nd \<and> hint_keeps nd t k c)"

lemma hint_held_rpc:
  assumes "rpc E (pt_target t) (ReplicateWrite (task_request k v c t)) w = (resp, w1)"
    and "wf_world T w" and "wf_clock c"
  shows "hint_held w a u k c \<Longrightarrow> hint_held w1 a u k c"
    and "resp = Some r \<Longrightarrow> rwr_success r \<Longrightarrow> pt_hint t \<Longrightarrow> hint_held w1 (pt_target t) (pt_owner t) k c"
proof -
  have "(hint_held w a u k c \<longrightarrow> hint_held w1 a u k c) \<and>
      (resp = Some r \<and> rwr_success r \<and> pt_hint t \<longrightarrow> hint_held w1 (pt_target t) (pt_owner t) k c)"
    using assms(1)
  proof (cases rule: rpc_cases)
    case (handled nd x nd')
    have wf: "wf_node T nd" using wf_worldD [OF assms(2) handled(1)] by simp
    note keeps = ReplicateWrite_keeps [OF wf assms(3) handled(2)]
    show ?thesis
      using handled keeps by (cases "a = pt_target t") (auto simp: hint_held_def)
  qed (simp add: hint_held_def)
  then show "hint_held w a u k c \<Longrightarrow> hint_held w1 a u k c"
    "resp = Some r \<Longrightarrow> rwr_success r \<Longrightarrow> pt_hint t \<Longrightarrow> hint_held w1 (pt_target t) (pt_owner t) k c"
    by auto
qed

lemma hint_held_mark: "hint_held (update_node b (markUnreachable p) w) a u k c = hint_held w a u k c"
  by (cases "a = b") (auto simp: hint_held_def nodes_update)

lemma hint_held_step:
  assumes "task_step E self k v c t w = (cont, ack, w1)" and "wf_world T w" and "wf_clock c"
  shows "hint_held w a u k c \<Longrightarrow> hint_held w1 a u k c"
    and "l \<in> set (task_log E self k v c t w) \<Longrightarrow> line_event l = HINT_CREATED \<Longrightarrow>
      l = hint_created self k t \<and> hint_held w1 (pt_target t) (pt_owner t) k c"
proof -
  obtain resp w0 where r: "rpc E (pt_target t) (ReplicateWrite (task_request k v c t)) w = (resp, w0)"
    by (cases "rpc E (pt_target t) (ReplicateWrite (task_request k v c t)) w")
  note held = hint_held_rpc [OF r assms(2,3)]
  have w1: "w1 = w0 \<or> w1 = update_node self (markUnreachable (pt_target t)) w0"
    using assms(1) r by (auto simp: task_step_def Let_def split: option.splits if_splits)
  then show "hint_held w a u k c \<Longrightarrow> hint_held w1 a u k c" using held(1) hint_held_mark by auto
  assume l: "l \<in> set (task_log E self k v c t w)" "line_event l = HINT_CREATED"
  then have "\<exists>x. resp = Some x \<and> rwr_success x \<and> pt_hint t \<and> l = hint_created self k t"
    using r rpc_write_log_events [of l E "pt_target t" "task_request k v c t" w]
    by (auto simp: task_log_def retry_log_def split: option.splits if_splits)
  then show "l = hint_created self k t \<and> hint_held w1 (pt_target t) (pt_owner t) k c"
    using held(2) w1 hint_held_mark by auto
qed

lemma wf_run_task:
  "task_step E self k v c t w = (cont, ack, w1) \<Longrightarrow> wf_world T w \<Longrightarrow> wf_clock c \<Longrightarrow> wf_world T w1"
proof -
  assume s: "task_step E self k v c t w = (cont, ack, w1)" and wf: "wf_world T w" "wf_clock c"
  obtain resp w0 where r: "rpc E (pt_target t) (ReplicateWrite (task_request k v c t)) w = (resp, w0)"
    by (cases "rpc E (pt_target t) (ReplicateWrite (task_request k v c t)) w")
  have "w1 = w0 \<or> w1 = update_node self (markUnreachable (pt_target t)) w0"
    using s r by (auto simp: task_step_def Let_def split: option.splits if_splits)
  then show "wf_world T w1" using wf_task_rpc [OF r wf] by (auto intro: wf_intros)
qed

lemma run_writes_step:
  assumes "pool \<noteq> []" and "task_step E self k v c (pool ! next_thread E pool w) w = (cont, ack, w1)"
  shows "run_writes E self k v c pool acks w =
    run_writes E self k v c (pool_after pool (next_thread E pool w) cont) (if ack then acks + 1 else acks) w1"
  using assms by (subst run_writes.simps) (simp add: Let_def pool_after_def)

lemma run_writes_hints:
  assumes "run_writes E self k v c pool acks w = (acks', w')" and "wf_world T w" and "wf_clock c"
  shows "hint_held w a u k c \<Longrightarrow> hint_held w' a u k c"
    and "l \<in> set (run_writes_log E self k v c pool w) \<Longrightarrow> line_event l = HINT_CREATED \<Longrightarrow>
      \<exists>t. l = hint_created self k t \<and> hint_held w' (pt_target t) (pt_owner t) k c"
proof -
  have "(hint_held w a u k c \<longrightarrow> hint_held w' a u k c) \<and>
      (l \<in> set (run_writes_log E self k v c pool w) \<and> line_event l = HINT_CREATED \<longrightarrow>
       (\<exists>t. l = hint_created self k t \<and> hint_held w' (pt_target t) (pt_owner t) k c))" for a u
    using assms
  proof (induction E self k v c pool w arbitrary: acks a u rule: run_writes_log.induct)
    case (1 E self k v c pool w)
    show ?case
    proof (cases "pool = []")
      case True
      with 1 show ?thesis by (simp add: run_writes.simps run_writes_log.simps)
    next
      case False
      let ?i = "next_thread E pool w"
      obtain cont ack w1 where s: "task_step E self k v c (pool ! ?i) w = (cont, ack, w1)"
        by (cases "task_step E self k v c (pool ! ?i) w")
      have wf1: "wf_world T w1" by (rule wf_run_task [OF s 1(3,4)])
      have rest: "run_writes E self k v c (pool_after pool ?i cont) (if ack then acks + 1 else acks) w1 = (acks', w')"
        using 1(2) run_writes_step [OF False s, of acks] by simp
      note IH = 1(1) [OF False refl s [symmetric] refl rest wf1 1(4)]
      note step = hint_held_step [OF s 1(3,4)]
      show ?thesis
        using IH [of a u] IH [of "pt_target (pool ! ?i)" "pt_owner (pool ! ?i)"] step(1) [of a u] step(2) [of l]
        unfolding run_writes_log_step [OF False s] by (auto simp del: split_paired_All)
    qed
  qed
  then show "hint_held w a u k c \<Longrightarrow> hint_held w' a u k c"
    "l \<in> set (run_writes_log E self k v c pool w) \<Longrightarrow> line_event l = HINT_CREATED \<Longrightarrow>
      \<exists>t. l = hint_created self k t \<and> hint_held w' (pt_target t) (pt_owner t) k c" by blast+
qed

lemma coordinatePut_hints:
  assumes "coordinatePut E self k v ctx pref W w = (resp, w')" and "wf_world T w" and "wf_clock_opt ctx"
    and "nodes w self = Some nd" and "find (\<lambda>e. ple_node_id e = self) pref = Some e"
    and "l \<in> set (coordinatePut_log E self k v ctx pref W w)" and "line_event l = HINT_CREATED"
  shows "\<exists>t. l = hint_created self k t \<and> hint_held w' (pt_target t) (pt_owner t) k (pr_context resp)"
  using assms(1,5)
proof (cases rule: coordinatePut_cases)
  case refused
  with assms(6,7) show ?thesis by (simp add: coordinatePut_log_def)
next
  case (run clock w1 acks)
  note loc = local_write_facts [OF run(2) assms(2,3,4)]
  have "l \<in> set (run_writes_log E self k v clock (map (initial_task (map ple_node_id pref))
      (filter (\<lambda>e. ple_node_id e \<noteq> self) pref)) w1)"
    using assms(5,6,7) run(1,2,3)
    by (auto simp: coordinatePut_log_def Let_def own_hint_log_def put_verdict_def split: option.splits if_splits)
  with run_writes_hints(2) [OF run(3) loc(1,2)] assms(7) run(4) show ?thesis by simp
qed

subsection \<open>Properties\<close>

text \<open>
C26. The log of a write tells its outcome, whatever calls fail and whoever coordinates: the node that was
asked logs exactly one verdict, as its last line, and it is \<open>PUT_SUCCEEDED\<close> or
\<open>PUT_FAILED\<close> as the response says; or it is \<open>PUT_FORWARDED\<close> and names another node,
whose own verdict comes just before and agrees with the response.
\<close>
theorem Put_log_tells_outcome:
  assumes "Put E self req w = (Some resp, w')"
  shows "put_told self (pq_key req) (Put_log err E self req w) resp"
  using assms by (rule Put_log_tells)

lemma demo_logged_put: "\<exists>resp w'. Put calm ''A'' demo_request demo_write_world = (Some resp, w')"
proof -
  let ?A = "demo_node ''A'' [] Map.empty Map.empty"
  have up: "isSelfRemoved ?A = Some False" by (simp add: demo_up)
  have f: "find (\<lambda>e. ple_node_id e = ''A'') (preferenceListForKey ?A (pq_key demo_request) (nd_N ?A)) =
      Some (natural_entry ''A'')"
    using demo_find_A by (simp add: demo_request_def)
  show ?thesis
    by (cases "coordinatePut calm ''A'' (pq_key demo_request) (pq_value demo_request)
        (Some (pq_context demo_request)) (preferenceListForKey ?A (pq_key demo_request) (nd_N ?A)) (nd_W ?A)
        demo_write_world") (blast dest: Put_coordinates [OF demo_write_A up f])
qed

theorem Put_log_tells_outcome_witness:
  "\<exists>resp. put_told ''A'' ''k'' (Put_log (\<lambda>_. []) calm ''A'' demo_request demo_write_world) resp"
proof -
  obtain resp w' where "Put calm ''A'' demo_request demo_write_world = (Some resp, w')" using demo_logged_put by blast
  from Put_log_tells_outcome [OF this, of "\<lambda>_. []"] show ?thesis by (auto simp: demo_request_def)
qed

text \<open>
C27. The log of a read tells its outcome: its last line is its only verdict; it is
\<open>GET_SUCCEEDED\<close> exactly if at least \<open>R\<close> replicas answered, and carries the value and the
clock that are returned.  A conflict is only logged if two nodes really hold concurrent versions of the
key, and a read that does not log the start of a repair changes no node's versions, hints or
membership and starts no repair.
\<close>
theorem Get_log_tells_outcome:
  assumes "Get E self k w = (Some resp, w')" and "wf_world T w"
  shows "\<exists>pre v. Get_log E self k w = pre @ [v] \<and> get_told self k w resp w' pre v"
  using assms by (rule Get_log_tells)

theorem Get_log_tells_outcome_witness:
  "\<exists>pre. Get_log calm ''A'' ''k'' demo_read_world =
     pre @ [(''A'', GET_SUCCEEDED, ''key=k val=x winning_clock='' @ renderClock (clk [(''B'', 1)] 5 ''B''))]"
proof -
  obtain w' where get: "Get calm ''A'' ''k'' demo_read_world = (Some \<lparr>ge_found = True, ge_value = ''x'',
      ge_responses = 3, ge_context = clk [(''B'', 1)] 5 ''B''\<rparr>, w')"
    using demo_read by (metis prod.collapse)
  from Get_log_tells_outcome [OF get wf_demo_read_world] show ?thesis
    by (auto simp: get_told_def)
qed

text \<open>
A hint that a coordinator reports as created is there: for every \<open>HINT_CREATED\<close> line of a
coordinated write, when the write is over the node that the line names holds, for the owner that it
names, a hint for the key with the clock of the write or a newer one.
\<close>
theorem created_hints_are_held:
  assumes "coordinatePut E self k v ctx pref W w = (resp, w')" and "wf_world T w" and "wf_clock_opt ctx"
    and "nodes w self = Some nd" and "find (\<lambda>e. ple_node_id e = self) pref = Some e"
    and "l \<in> set (coordinatePut_log E self k v ctx pref W w)" and "line_event l = HINT_CREATED"
  shows "\<exists>t. l = hint_created self k t \<and> hint_held w' (pt_target t) (pt_owner t) k (pr_context resp)"
  using assms by (rule coordinatePut_hints)

text \<open>In the witness \<open>D\<close> stands in for \<open>C\<close>, which \<open>A\<close> believes unreachable.\<close>

definition demo_hint_world :: world where
  "demo_hint_world = demo_world4 (demo_node ''A'' [''B'', ''C''] Map.empty Map.empty)
     (demo_node ''B'' [] Map.empty Map.empty) (demo_node ''C'' [] Map.empty Map.empty)
     (demo_node ''D'' [] Map.empty Map.empty)"

lemma wf_demo_hint_world: "wf_world demo_T demo_hint_world"
  unfolding demo_hint_world_def
  by (rule wf_demo_world4; (rule wf_demo_node)?) (simp_all add: wf_store_def wf_hint_table_def)

definition demo_hint_task :: put_task where
  "demo_hint_task = initial_task [''A'', ''D''] (hint_entry (''D'', ''B''))"

lemma demo_hint_log:
  "hint_created ''A'' ''k'' demo_hint_task \<in>
     set (coordinatePut_log calm ''A'' ''k'' ''v'' None [natural_entry ''A'', hint_entry (''D'', ''B'')] 2 demo_hint_world)"
proof -
  let ?e = "natural_entry ''A''"
  obtain c w1 where loc: "local_write calm ''A'' ''k'' ''v'' None ?e demo_hint_world = (c, w1)"
    by (cases "local_write calm ''A'' ''k'' ''v'' None ?e demo_hint_world")
  have D: "nodes w1 ''D'' = Some (demo_node ''D'' [] Map.empty Map.empty)"
    using loc by (auto simp: local_write_def demo_hint_world_def split: prod.splits)
  have up: "isSelfRemoved (demo_node ''D'' [] Map.empty Map.empty) = Some False" by (simp add: demo_up)
  have pool: "run_writes_log calm ''A'' ''k'' ''v'' c [demo_hint_task] w1 =
      task_log calm ''A'' ''k'' ''v'' c demo_hint_task w1"
    using D up
    by (subst run_writes_log.simps)
      (simp add: next_thread_def task_step_def rpc_def demo_hint_task_def initial_task_def task_request_def
        ReplicateWrite_def Let_def pool_after_def run_writes_log.simps [of _ _ _ _ _ "[]"])
  have "hint_created ''A'' ''k'' demo_hint_task \<in> set (task_log calm ''A'' ''k'' ''v'' c demo_hint_task w1)"
    using D up
    by (simp add: task_log_def rpc_def demo_hint_task_def initial_task_def task_request_def ReplicateWrite_def Let_def)
  then show ?thesis
    using loc pool unfolding demo_hint_task_def
    by (simp add: coordinatePut_log_def Let_def case_prod_unfold)
qed

theorem created_hints_are_held_witness:
  "\<exists>resp w'. coordinatePut calm ''A'' ''k'' ''v'' None [natural_entry ''A'', hint_entry (''D'', ''B'')] 2 demo_hint_world =
     (resp, w') \<and> (\<exists>t. hint_created ''A'' ''k'' t = (''A'', HINT_CREATED, ''key=k hint_for=B stored_on=D'') \<and>
       hint_held w' (pt_target t) (pt_owner t) ''k'' (pr_context resp))"
proof -
  let ?pref = "[natural_entry ''A'', hint_entry (''D'', ''B'')]"
  obtain resp w' where c: "coordinatePut calm ''A'' ''k'' ''v'' None ?pref 2 demo_hint_world = (resp, w')"
    by (cases "coordinatePut calm ''A'' ''k'' ''v'' None ?pref 2 demo_hint_world")
  have A: "nodes demo_hint_world ''A'' = Some (demo_node ''A'' [''B'', ''C''] Map.empty Map.empty)"
    by (simp add: demo_hint_world_def)
  have "\<exists>t. hint_created ''A'' ''k'' demo_hint_task = hint_created ''A'' ''k'' t \<and>
      hint_held w' (pt_target t) (pt_owner t) ''k'' (pr_context resp)"
    by (rule created_hints_are_held [OF c wf_demo_hint_world _ A _ demo_hint_log])
      (simp_all add: hint_created_def)
  moreover have "hint_created ''A'' ''k'' demo_hint_task = (''A'', HINT_CREATED, ''key=k hint_for=B stored_on=D'')"
    by (simp add: hint_created_def demo_hint_task_def initial_task_def)
  ultimately show ?thesis using c by metis
qed



end
