(* ===== verification/Clock_Reuse.thy ===== *)
theory Clock_Reuse
  imports Value_Safety
begin

text \<open>
  Clocks that are minted twice.  The clock of a coordinated write is built from the context, the
  coordinator's own copy and a step of its own counter; it is new only as long as the own copy never goes
  back.  Two runs show that it can: one without any crash, on the cluster of theory \<open>Scenario\<close>, and
  one with a restart, from the first process on.  Both are runs of the handlers, loops and clients
  themselves.
\<close>

subsection \<open>Four servers\<close>

definition quad :: "node \<Rightarrow> node \<Rightarrow> node \<Rightarrow> node \<Rightarrow> repair_job list \<Rightarrow> nat \<Rightarrow> world" where
  "quad a b c d js t =
     \<lparr>nodes = [''A'' \<mapsto> a, ''B'' \<mapsto> b, ''C'' \<mapsto> c, ''D'' \<mapsto> d], jobs = js, tick = t\<rparr>"

lemma quad_simps [simp]:
  "nodes (quad a b c d js t) ''A'' = Some a" "nodes (quad a b c d js t) ''B'' = Some b"
  "nodes (quad a b c d js t) ''C'' = Some c" "nodes (quad a b c d js t) ''D'' = Some d"
  "jobs (quad a b c d js t) = js" "tick (quad a b c d js t) = t"
  "advance (quad a b c d js t) = quad a b c d js (t + 1)"
  "(quad a b c d js t)\<lparr>jobs := js'\<rparr> = quad a b c d js' t"
  "set_node ''A'' n (quad a b c d js t) = quad n b c d js t"
  "set_node ''B'' n (quad a b c d js t) = quad a n c d js t"
  "set_node ''C'' n (quad a b c d js t) = quad a b n d js t"
  "set_node ''D'' n (quad a b c d js t) = quad a b c n js t"
  by (simp_all add: quad_def advance_def set_node_def fun_eq_iff)

text \<open>The calls that are lost: those of the first write to \<open>A\<close> and \<open>C\<close>, of the second to
  \<open>C\<close>, of the third to \<open>B\<close>, and two probes.\<close>

definition reuse_env :: env where
  "reuse_env = calm\<lparr>fate_at := \<lambda>t. if t \<in> {1, 3, 9, 13, 15, 16} then RequestLost else Delivered\<rparr>"

lemma reuse_env_simps [simp]:
  "fate_at reuse_env t = (if t \<in> {1, 3, 9, 13, 15, 16} then RequestLost else Delivered)"
  "clock_at reuse_env t = int t" "choice_at reuse_env t = 0"
  by (simp_all add: reuse_env_def)

abbreviation kept_hint :: "string \<Rightarrow> vector_clock \<Rightarrow> millis \<Rightarrow> (key \<times> HeldHint) list" where
  "kept_hint v c t \<equiv> [(''k'', \<lparr>hint_key = ''k'', hint_value = v, hint_clock = c, hint_created_at = t\<rparr>)]"

abbreviation reuse_D1 :: "string \<Rightarrow> node" where
  "reuse_D1 e \<equiv> demo_node ''D'' [''C'', ''A''] Map.empty
     [''A'' \<mapsto> kept_hint e (clk [(''B'', 1)] 0 ''B'') 2, ''C'' \<mapsto> kept_hint e (clk [(''B'', 1)] 0 ''B'') 4]"

lemmas reuse_eval = Put.simps blind_put_def demo_eval coordinatePut_def local_write_def Let_def
  commitCoordinatedWrite_def run_writes.simps next_thread_def task_step_def rpc_def
  initial_task_def task_request_def ReplicateWrite_def task_retry_def update_node_def
  markUnreachable_def receiveHint_alt hint_at_def put_hint_def storeReplicatedWrite_def
  buildNewClock_def mergeClocks_def empty_clock_def value_or_empty_def counter_of_def count_in_def

lemma reuse1: "Put reuse_env ''B'' (blind_put e) (quad (demo_node ''A'' [] Map.empty Map.empty)
     (demo_node ''B'' [] Map.empty Map.empty) (demo_node ''C'' [] Map.empty Map.empty)
     (demo_node ''D'' [] Map.empty Map.empty) [] 0) =
  (Some \<lparr>pr_success = True, pr_acks = 3, pr_context = clk [(''B'', 1)] 0 ''B''\<rparr>,
   quad (demo_node ''A'' [] Map.empty Map.empty)
     (demo_node ''B'' [''C'', ''A''] [''k'' \<mapsto> vv e (clk [(''B'', 1)] 0 ''B'')] Map.empty)
     (demo_node ''C'' [] Map.empty Map.empty) (reuse_D1 e) [] 5)"
  by (simp add: reuse_eval) (simp add: eval_nat_numeral)

lemma reuse2: "Get reuse_env ''A'' ''k'' (quad (demo_node ''A'' [] Map.empty Map.empty)
     (demo_node ''B'' [''C'', ''A''] [''k'' \<mapsto> vv e (clk [(''B'', 1)] 0 ''B'')] Map.empty)
     (demo_node ''C'' [] Map.empty Map.empty) (reuse_D1 e) [] 5) =
  (Some \<lparr>ge_found = True, ge_value = e, ge_responses = 3, ge_context = clk [(''B'', 1)] 0 ''B''\<rparr>,
   quad (demo_node ''A'' [] [''k'' \<mapsto> vv e (clk [(''B'', 1)] 0 ''B'')] Map.empty)
     (demo_node ''B'' [''C'', ''A''] [''k'' \<mapsto> vv e (clk [(''B'', 1)] 0 ''B'')] Map.empty)
     (demo_node ''C'' [] Map.empty Map.empty) (reuse_D1 e)
     [\<lparr>job_node = ''A'', job_key = ''k'', job_winner = vv e (clk [(''B'', 1)] 0 ''B''), job_peers = [''C'']\<rparr>] 7)"
  by (simp add: read_eval start_repair_def stale_def compareVectorClocks_def storeReplicatedWrite_def update_node_def Let_def)

lemma reuse3: "Put reuse_env ''A'' (blind_put x)
  (quad (demo_node ''A'' [] [''k'' \<mapsto> vv e (clk [(''B'', 1)] 0 ''B'')] Map.empty)
     (demo_node ''B'' [''C'', ''A''] [''k'' \<mapsto> vv e (clk [(''B'', 1)] 0 ''B'')] Map.empty)
     (demo_node ''C'' [] Map.empty Map.empty) (reuse_D1 e) js 7) =
  (Some \<lparr>pr_success = True, pr_acks = 3, pr_context = clk [(''B'', 1), (''A'', 1)] 7 ''A''\<rparr>,
   quad (demo_node ''A'' [''C''] [''k'' \<mapsto> vv x (clk [(''B'', 1), (''A'', 1)] 7 ''A'')] Map.empty)
     (demo_node ''B'' [''C'', ''A''] [''k'' \<mapsto> vv x (clk [(''B'', 1), (''A'', 1)] 7 ''A'')] Map.empty)
     (demo_node ''C'' [] Map.empty Map.empty)
     (demo_node ''D'' [''C'', ''A''] Map.empty
       [''A'' \<mapsto> kept_hint e (clk [(''B'', 1)] 0 ''B'') 2,
        ''C'' \<mapsto> kept_hint x (clk [(''B'', 1), (''A'', 1)] 7 ''A'') 10]) js 11)"
  by (simp add: reuse_eval compareVectorClocks_def)

lemma reuse4: "Put reuse_env ''C'' (blind_put f)
  (quad (demo_node ''A'' [''C''] [''k'' \<mapsto> vv x (clk [(''B'', 1), (''A'', 1)] 7 ''A'')] Map.empty)
     (demo_node ''B'' [''C'', ''A''] [''k'' \<mapsto> vv x (clk [(''B'', 1), (''A'', 1)] 7 ''A'')] Map.empty)
     (demo_node ''C'' [] Map.empty Map.empty)
     (demo_node ''D'' [''C'', ''A''] Map.empty
       [''A'' \<mapsto> kept_hint e (clk [(''B'', 1)] 0 ''B'') 2,
        ''C'' \<mapsto> kept_hint x (clk [(''B'', 1), (''A'', 1)] 7 ''A'') 10]) js 11) =
  (Some \<lparr>pr_success = True, pr_acks = 3, pr_context = clk [(''C'', 1)] 11 ''C''\<rparr>,
   quad (demo_node ''A'' [''C''] [''k'' \<mapsto> vv f (clk [(''C'', 1)] 11 ''C'')] Map.empty)
     (demo_node ''B'' [''C'', ''A''] [''k'' \<mapsto> vv x (clk [(''B'', 1), (''A'', 1)] 7 ''A'')] Map.empty)
     (demo_node ''C'' [''B''] [''k'' \<mapsto> vv f (clk [(''C'', 1)] 11 ''C'')] Map.empty)
     (demo_node ''D'' [''B'', ''C'', ''A''] Map.empty
       [''A'' \<mapsto> kept_hint e (clk [(''B'', 1)] 0 ''B'') 2,
        ''C'' \<mapsto> kept_hint x (clk [(''B'', 1), (''A'', 1)] 7 ''A'') 10,
        ''B'' \<mapsto> kept_hint f (clk [(''C'', 1)] 11 ''C'') 14]) js 15)"
  by (simp add: reuse_eval compareVectorClocks_def)

lemma reuse5: "reachabilityRound reuse_env ''D''
  (quad (demo_node ''A'' [''C''] [''k'' \<mapsto> vv f (clk [(''C'', 1)] 11 ''C'')] Map.empty)
     (demo_node ''B'' [''C'', ''A''] [''k'' \<mapsto> vv x (clk [(''B'', 1), (''A'', 1)] 7 ''A'')] Map.empty)
     (demo_node ''C'' [''B''] [''k'' \<mapsto> vv f (clk [(''C'', 1)] 11 ''C'')] Map.empty)
     (demo_node ''D'' [''B'', ''C'', ''A''] Map.empty
       [''A'' \<mapsto> kept_hint e (clk [(''B'', 1)] 0 ''B'') 2,
        ''C'' \<mapsto> kept_hint x (clk [(''B'', 1), (''A'', 1)] 7 ''A'') 10,
        ''B'' \<mapsto> kept_hint f (clk [(''C'', 1)] 11 ''C'') 14]) js 15) =
  quad (demo_node ''A'' [''C''] [''k'' \<mapsto> vv e (clk [(''B'', 1)] 0 ''B'')] Map.empty)
     (demo_node ''B'' [''C'', ''A''] [''k'' \<mapsto> vv x (clk [(''B'', 1), (''A'', 1)] 7 ''A'')] Map.empty)
     (demo_node ''C'' [''B''] [''k'' \<mapsto> vv f (clk [(''C'', 1)] 11 ''C'')] Map.empty)
     (demo_node ''D'' [''B'', ''C''] Map.empty
       [''C'' \<mapsto> kept_hint x (clk [(''B'', 1), (''A'', 1)] 7 ''A'') 10,
        ''B'' \<mapsto> kept_hint f (clk [(''C'', 1)] 11 ''C'') 14, ''A'' \<mapsto> []]) js 19"
  by (simp add: reachabilityRound_def unreachableSnapshot_def run_once.simps next_thread_def probe_step_def
      pingPeer_def rpc_def deliverHints_def deliver_step_def hint_request_def ReplicateWrite_def demo_up
      storeReplicatedWrite_def compareVectorClocks_def update_node_def drop_hint_def markReachable_def Let_def)

lemma reuse6: "Put reuse_env ''A'' (blind_put y)
  (quad (demo_node ''A'' [''C''] [''k'' \<mapsto> vv e (clk [(''B'', 1)] 0 ''B'')] Map.empty)
     (demo_node ''B'' [''C'', ''A''] [''k'' \<mapsto> vv x (clk [(''B'', 1), (''A'', 1)] 7 ''A'')] Map.empty)
     c (demo_node ''D'' [''B'', ''C''] Map.empty
       [''C'' \<mapsto> kept_hint x (clk [(''B'', 1), (''A'', 1)] 7 ''A'') 10,
        ''B'' \<mapsto> h, ''A'' \<mapsto> []]) js 19) =
  (Some \<lparr>pr_success = True, pr_acks = 3, pr_context = clk [(''B'', 1), (''A'', 1)] 19 ''A''\<rparr>,
   quad (demo_node ''A'' [''C''] [''k'' \<mapsto> vv y (clk [(''B'', 1), (''A'', 1)] 19 ''A'')] Map.empty)
     (demo_node ''B'' [''C'', ''A''] [''k'' \<mapsto> vv x (clk [(''B'', 1), (''A'', 1)] 7 ''A'')] Map.empty)
     c (demo_node ''D'' [''B'', ''C''] Map.empty
       [''C'' \<mapsto> kept_hint x (clk [(''B'', 1), (''A'', 1)] 7 ''A'') 10,
        ''B'' \<mapsto> h, ''A'' \<mapsto> []]) js 22)"
  by (simp add: reuse_eval compareVectorClocks_def)

definition reuse_start :: world where
  "reuse_start = demo_world4 (demo_node ''A'' [] Map.empty Map.empty) (demo_node ''B'' [] Map.empty Map.empty)
     (demo_node ''C'' [] Map.empty Map.empty) (demo_node ''D'' [] Map.empty Map.empty)"

lemma reuse_start_quad: "reuse_start = quad (demo_node ''A'' [] Map.empty Map.empty)
    (demo_node ''B'' [] Map.empty Map.empty) (demo_node ''C'' [] Map.empty Map.empty)
    (demo_node ''D'' [] Map.empty Map.empty) [] 0"
  by (simp add: reuse_start_def quad_def demo_world4_def)

lemma wf_reuse_start: "wf_world demo_T reuse_start"
  unfolding reuse_start_def
  by (rule wf_demo_world4; (rule wf_demo_node)?) (simp_all add: wf_store_def wf_hint_table_def)

text \<open>
C39. The clock of a coordinated write need not be new, without any crash.  Four servers, all writes without
context, all acknowledged by three owners: \<open>B\<close> coordinates a write whose calls to \<open>A\<close> and
\<open>C\<close> are lost, so \<open>D\<close> holds hints for both; a read at \<open>A\<close> repairs \<open>A\<close>; \<open>A\<close> writes
\<open>x\<close> on top, with the call to \<open>C\<close> lost; \<open>C\<close>, which still has nothing, writes, with the call
to \<open>B\<close> lost, and its concurrent version replaces \<open>x\<close> at \<open>A\<close>; \<open>D\<close>'s reachability round
reaches only \<open>A\<close> and delivers the hint with the first version, which is concurrent with that again.
So \<open>A\<close> is back where it was before \<open>x\<close>, and its next write \<open>y\<close> gets the clock of \<open>x\<close>.
\<open>A\<close> ends with \<open>y\<close> and \<open>B\<close> with \<open>x\<close>, and since their clocks are equal each refuses the
other's version as already current.
\<close>
theorem coordinator_reuses_clock:
  "\<exists>w1 w2 w3 w4 w5 got first c1 third c2 a b.
     wf_world demo_T reuse_start \<and>
     Put reuse_env ''B'' (blind_put e) reuse_start = (Some \<lparr>pr_success = True, pr_acks = 3, pr_context = first\<rparr>, w1) \<and>
     Get reuse_env ''A'' ''k'' w1 = (Some got, w2) \<and>
     Put reuse_env ''A'' (blind_put x) w2 = (Some \<lparr>pr_success = True, pr_acks = 3, pr_context = c1\<rparr>, w3) \<and>
     Put reuse_env ''C'' (blind_put f) w3 = (Some \<lparr>pr_success = True, pr_acks = 3, pr_context = third\<rparr>, w4) \<and>
     Put reuse_env ''A'' (blind_put y) (reachabilityRound reuse_env ''D'' w4) =
       (Some \<lparr>pr_success = True, pr_acks = 3, pr_context = c2\<rparr>, w5) \<and>
     nodes w5 ''A'' = Some a \<and> nd_kv a ''k'' = Some (vv y c2) \<and>
     nodes w5 ''B'' = Some b \<and> nd_kv b ''k'' = Some (vv x c1) \<and>
     compareVectorClocks c1 c2 = EQUAL \<and>
     storeReplicatedWrite ''k'' (vv x c1) a = (ALREADY_CURRENT, a) \<and>
     storeReplicatedWrite ''k'' (vv y c2) b = (ALREADY_CURRENT, b)"
  by (intro exI conjI, rule wf_reuse_start, unfold reuse_start_quad, rule reuse1, rule reuse2, rule reuse3,
      rule reuse4, unfold reuse5, rule reuse6, rule quad_simps(1), simp, rule quad_simps(2), simp)
    (simp_all add: compareVectorClocks_def storeReplicatedWrite_def)

subsection \<open>Two servers and a restart\<close>

definition pair_args :: "node_id \<Rightarrow> string list \<Rightarrow> string list" where
  "pair_args n seed = [''node'', ''--listen='' @ n, ''--vnodes=1'', ''--N=2'', ''--W=2'', ''--R=1''] @ seed"

definition pair_node :: "node_id \<Rightarrow> MembershipTable \<Rightarrow> (key \<rightharpoonup> VersionedValue) \<Rightarrow> node" where
  "pair_node n tbl kv =
     \<lparr>nd_id = n, nd_vnodes = 1, nd_table = tbl,
      nd_ring = [(6657648703523664764, ''B''), (9448397275428734702, ''A'')], nd_unreachable = [], nd_kv = kv,
      nd_hints = Map.empty, nd_N = 2, nd_W = 2, nd_R = 1\<rparr>"

text \<open>The tables of the two servers; \<open>t\<close> is the time of \<open>A\<close>'s last start, \<open>B\<close> starts at 1.\<close>

definition table_A :: "millis \<Rightarrow> MembershipTable" where
  "table_A t = [(''A'', mentry ''A'' UP [9448397275428734702] t ''A''), (''B'', mentry ''B'' UP [6657648703523664764] 1 ''B'')]"

definition table_B :: "millis \<Rightarrow> MembershipTable" where
  "table_B t = [(''B'', mentry ''B'' UP [6657648703523664764] 1 ''B''), (''A'', mentry ''A'' UP [9448397275428734702] t ''A'')]"

definition pair :: "millis \<Rightarrow> (key \<rightharpoonup> VersionedValue) \<Rightarrow> (key \<rightharpoonup> VersionedValue) \<Rightarrow> nat \<Rightarrow> world" where
  "pair t ka kb n =
     \<lparr>nodes = [''A'' \<mapsto> pair_node ''A'' (table_A t) ka, ''B'' \<mapsto> pair_node ''B'' (table_B t) kb], jobs = [], tick = n\<rparr>"

lemma pair_tokens: "computeTokens ''A'' 1 = [9448397275428734702]" "computeTokens ''B'' 1 = [6657648703523664764]"
proof -
  have "to_string 0 = ''0''" by (subst to_string.simps) code_simp
  then show "computeTokens ''A'' 1 = [9448397275428734702]" "computeTokens ''B'' 1 = [6657648703523664764]"
    by (simp_all add: computeTokens_def vnode_name_def fnv1a64_def mix64_def)
qed

lemma pair_args_parsed:
  "parse_args (pair_args ''A'' []) =
     default_args\<lparr>na_listen := ''A'', na_vnodes := ''1'', na_N := ''2'', na_W := ''2'', na_R := ''1''\<rparr>"
  "parse_args (pair_args ''A'' [''--seed=B'']) = default_args\<lparr>na_listen := ''A'', na_seed := ''B'', na_vnodes := ''1'',
     na_N := ''2'', na_W := ''2'', na_R := ''1''\<rparr>"
  "parse_args (pair_args ''B'' [''--seed=A'']) = default_args\<lparr>na_listen := ''B'', na_seed := ''A'', na_vnodes := ''1'',
     na_N := ''2'', na_W := ''2'', na_R := ''1''\<rparr>"
  by (simp_all add: parse_args_def pair_args_def node_arg_def eat_def default_args_def)

lemma pair_numbers: "stoi ''2'' = Inr 2"
  by (simp add: stoi_def ranged_int_def leading_int_def isspace_def isdigit_def digits_value_def Let_def)

lemmas pair_main = node_main_def pair_args_parsed lone_numbers pair_numbers default_args_def quorum_config_def
  valid_quorum_def join_seeds_def splitSeeds_def getlines.simps intervals_parse_def Let_def launch_service_def
  NodeServiceImpl_def pair_tokens put_tokens_def

lemmas pair_join = bootstrapFromSeed_def numeral_3_eq_3 SendGossip_def rpc_def GossipExchange_def applyGossip_def
  apply_response_def update_node_def incoming_wins_def

definition alone :: world where
  "alone = \<lparr>nodes = [''A'' \<mapsto> NodeServiceImpl ''A'' 1 2 2 1 0], jobs = [], tick = 1\<rparr>"

lemma pair_start: "node_main calm (pair_args ''A'' []) no_process = (Serving, alone)"
  by (simp add: pair_main no_process_def alone_def advance_def set_node_def)

lemma pair_second: "node_main calm (pair_args ''B'' [''--seed=A'']) alone = (Serving, pair 0 Map.empty Map.empty 3)"
  by (simp add: pair_main pair_join alone_def advance_def set_node_def pair_def pair_node_def table_A_def table_B_def
      fun_eq_iff)

lemma pair_simps [simp]:
  "nodes (pair t ka kb n) ''A'' = Some (pair_node ''A'' (table_A t) ka)"
  "nodes (pair t ka kb n) ''B'' = Some (pair_node ''B'' (table_B t) kb)"
  "jobs (pair t ka kb n) = []" "tick (pair t ka kb n) = n" "advance (pair t ka kb n) = pair t ka kb (n + 1)"
  "set_node ''A'' (pair_node ''A'' (table_A t) ka') (pair t ka kb n) = pair t ka' kb n"
  "set_node ''B'' (pair_node ''B'' (table_B t) kb') (pair t ka kb n) = pair t ka kb' n"
  "nd_id (pair_node a tbl kv) = a" "nd_kv (pair_node a tbl kv) = kv" "nd_unreachable (pair_node a tbl kv) = []"
  "nd_N (pair_node a tbl kv) = 2" "nd_W (pair_node a tbl kv) = 2" "nd_R (pair_node a tbl kv) = 1"
  "(pair_node a tbl kv)\<lparr>nd_kv := kv'\<rparr> = pair_node a tbl kv'"
  "isSelfRemoved (pair_node ''A'' (table_A t) kv) = Some False"
  "isSelfRemoved (pair_node ''B'' (table_B t) kv) = Some False"
  by (simp_all add: pair_def advance_def set_node_def fun_eq_iff pair_node_def isSelfRemoved_def table_A_def table_B_def)

lemma pair_preference:
  "preferenceListForKey (pair_node a tbl kv) ''k'' 2 = map natural_entry [''B'', ''A'']"
proof -
  have "clockwise [(6657648703523664764, ''B''), (9448397275428734702, ''A'')] (key_hash ''k'') = [''B'', ''A'']"
    by (simp add: clockwise_def upper_bound_def nub_def key_hash_def fnv1a64_def mix64_def)
  then show ?thesis
    by (simp add: preferenceListForKey_def unreachableSnapshot_def preferenceList_eq_spec
        preference_spec_def natural_owners_def pair_node_def)
qed

lemma pair_connect: "connect calm [''A''] (pair t ka kb n) =
    (Some \<lparr>dc_seeds = [''A''], dc_calls = 0, dc_context = Map.empty\<rparr>, pair t ka kb (n + 1))"
  by (simp add: connect_def pingAddr_def rpc_def Let_def)

text \<open>A first write of a client at \<open>A\<close>, which has nothing; what \<open>B\<close> makes of it is up to \<open>B\<close>.\<close>

lemma pair_put:
  assumes "snd (storeReplicatedWrite ''k'' (vv v (clk [(''A'', 1)] (1 + int n) ''A'')) (pair_node ''B'' (table_B t) kb)) =
      pair_node ''B'' (table_B t) kb'"
  shows "\<exists>c'. client_put calm ''k'' v \<lparr>dc_seeds = [''A''], dc_calls = 0, dc_context = Map.empty\<rparr> (pair t Map.empty kb n) =
    (\<lparr>pu_success = True, pu_acks = 2, pu_context = clk [(''A'', 1)] (1 + int n) ''A''\<rparr>, c',
     pair t [''k'' \<mapsto> vv v (clk [(''A'', 1)] (1 + int n) ''A'')] kb' (n + 3))"
proof -
  let ?c = "clk [(''A'', 1)] (1 + int n) ''A''"
  let ?req = "client_request \<lparr>dc_seeds = [''A''], dc_calls = 0, dc_context = Map.empty\<rparr> ''k'' v"
  obtain out where stored: "storeReplicatedWrite ''k'' (vv v ?c) (pair_node ''B'' (table_B t) kb) =
      (out, pair_node ''B'' (table_B t) kb')"
    using assms by (cases "storeReplicatedWrite ''k'' (vv v ?c) (pair_node ''B'' (table_B t) kb)") simp
  have clock: "buildNewClock (Some empty_clock) None ''A'' (1 + int n) = ?c"
    by (simp add: buildNewClock_def mergeClocks_def empty_clock_def value_or_empty_def counter_of_def count_in_def)
  have "Put calm ''A'' ?req (pair t Map.empty kb (n + 1)) =
    (Some \<lparr>pr_success = True, pr_acks = 2, pr_context = ?c\<rparr>, pair t [''k'' \<mapsto> vv v ?c] kb' (n + 3))"
    using stored clock
    by (simp add: Put.simps Let_def client_request_def coordinatePut_def local_write_def pair_preference
        commitCoordinatedWrite_def run_writes.simps next_thread_def task_step_def rpc_def initial_task_def
        task_request_def ReplicateWrite_def numeral_3_eq_3)
  then show ?thesis
    by (simp add: client_put_def nextStart_def attempt_order_def dial_def remember_put_def)
qed

lemma pair_restart: "node_main calm (pair_args ''A'' [''--seed=B'']) (stop_process ''A'' (pair 0 ka kb 7)) =
  (Serving, pair 7 Map.empty kb 9)"
  by (simp add: pair_main pair_join stop_process_def pair_def pair_node_def table_A_def table_B_def
      advance_def set_node_def fun_eq_iff)

text \<open>
C40. A restart makes a server reuse clocks: servers \<open>A\<close> and \<open>B\<close> are started (\<open>N = W = 2\<close>), a client
writes \<open>x\<close> at \<open>A\<close>, which both acknowledge; \<open>A\<close>'s process ends and is started again with
\<open>B\<close> as its seed; another client writes \<open>y\<close> at \<open>A\<close>, which both acknowledge.  \<open>A\<close> started
with an empty store, so the second clock is equal to the first: \<open>A\<close> holds \<open>y\<close>, \<open>B\<close> still
\<open>x\<close>, and each refuses the other's version as already current.  The second write is a success with
\<open>W\<close> acks although one server holds it.
\<close>
theorem restart_reuses_clock:
  "\<exists>w1 w2 w3 w4 w5 w6 w7 client1 client2 used1 used2 c1 c2 a b.
     node_main calm (pair_args ''A'' []) no_process = (Serving, w1) \<and>
     node_main calm (pair_args ''B'' [''--seed=A'']) w1 = (Serving, w2) \<and>
     connect calm [''A''] w2 = (Some client1, w3) \<and>
     client_put calm ''k'' x client1 w3 = (\<lparr>pu_success = True, pu_acks = 2, pu_context = c1\<rparr>, used1, w4) \<and>
     node_main calm (pair_args ''A'' [''--seed=B'']) (stop_process ''A'' w4) = (Serving, w5) \<and>
     connect calm [''A''] w5 = (Some client2, w6) \<and>
     client_put calm ''k'' y client2 w6 = (\<lparr>pu_success = True, pu_acks = 2, pu_context = c2\<rparr>, used2, w7) \<and>
     nodes w7 ''A'' = Some a \<and> nd_kv a ''k'' = Some (vv y c2) \<and>
     nodes w7 ''B'' = Some b \<and> nd_kv b ''k'' = Some (vv x c1) \<and>
     compareVectorClocks c1 c2 = EQUAL \<and>
     storeReplicatedWrite ''k'' (vv x c1) a = (ALREADY_CURRENT, a) \<and>
     storeReplicatedWrite ''k'' (vv y c2) b = (ALREADY_CURRENT, b)"
proof -
  let ?c1 = "clk [(''A'', 1)] 5 ''A''" and ?c2 = "clk [(''A'', 1)] 11 ''A''"
  let ?client = "\<lparr>dc_seeds = [''A''], dc_calls = 0, dc_context = Map.empty\<rparr>"
  have eq: "compareVectorClocks ?c1 ?c2 = EQUAL" "compareVectorClocks ?c2 ?c1 = EQUAL"
    by (simp_all add: compareVectorClocks_def)
  have refuse: "storeReplicatedWrite ''k'' (vv x ?c1) (pair_node ''A'' (table_A 7) [''k'' \<mapsto> vv y ?c2]) =
      (ALREADY_CURRENT, pair_node ''A'' (table_A 7) [''k'' \<mapsto> vv y ?c2])"
    "storeReplicatedWrite ''k'' (vv y ?c2) (pair_node ''B'' (table_B 7) [''k'' \<mapsto> vv x ?c1]) =
      (ALREADY_CURRENT, pair_node ''B'' (table_B 7) [''k'' \<mapsto> vv x ?c1])"
    by (simp_all add: storeReplicatedWrite_def eq)
  have "snd (storeReplicatedWrite ''k'' (vv x ?c1) (pair_node ''B'' (table_B 0) Map.empty)) =
      pair_node ''B'' (table_B 0) [''k'' \<mapsto> vv x ?c1]"
    by (simp add: storeReplicatedWrite_def)
  with pair_put [of x 4 0 Map.empty "[''k'' \<mapsto> vv x ?c1]"] obtain used1 where first:
    "client_put calm ''k'' x ?client (pair 0 Map.empty Map.empty 4) =
      (\<lparr>pu_success = True, pu_acks = 2, pu_context = ?c1\<rparr>, used1, pair 0 [''k'' \<mapsto> vv x ?c1] [''k'' \<mapsto> vv x ?c1] 7)"
    by auto
  from pair_put [of y 10 7 "[''k'' \<mapsto> vv x ?c1]" "[''k'' \<mapsto> vv x ?c1]"] refuse(2) obtain used2 where second:
    "client_put calm ''k'' y ?client (pair 7 Map.empty [''k'' \<mapsto> vv x ?c1] 10) =
      (\<lparr>pu_success = True, pu_acks = 2, pu_context = ?c2\<rparr>, used2, pair 7 [''k'' \<mapsto> vv y ?c2] [''k'' \<mapsto> vv x ?c1] 13)"
    by auto
  have connects: "connect calm [''A''] (pair 0 Map.empty Map.empty 3) = (Some ?client, pair 0 Map.empty Map.empty 4)"
    "connect calm [''A''] (pair 7 Map.empty [''k'' \<mapsto> vv x ?c1] 9) = (Some ?client, pair 7 Map.empty [''k'' \<mapsto> vv x ?c1] 10)"
    by (simp_all add: pair_connect)
  show ?thesis
    by (rule exI)+ (rule conjI, rule pair_start, rule conjI, rule pair_second, rule conjI, rule connects(1), rule conjI,
      rule first, rule conjI, rule pair_restart, rule conjI, rule connects(2), rule conjI, rule second,
      rule conjI, rule pair_simps(1), rule conjI, simp, rule conjI, rule pair_simps(2), rule conjI, simp,
      rule conjI, rule eq(1), rule conjI, rule refuse(1), rule refuse(2))
qed

end
