(* ===== verification/Eventual_Owners.thy ===== *)
theory Eventual_Owners
  imports Clock_Reuse
begin

text \<open>
  A write and the handoff after it: the acknowledgements of a write may stand for hints (theory
  \<open>Value_Safety\<close>), and a round of the reachability loop delivers the hints of one server (theory
  \<open>Handoff\<close>).  Here the two are joined over the rounds of several servers.  A delivery can replace a
  version by a concurrent one, so the write is one that supersedes every copy of its key.
\<close>

subsection \<open>The newest version\<close>

text \<open>Every copy of the key is the version \<open>x\<close> or causally older.\<close>

definition newest :: "world \<Rightarrow> key \<Rightarrow> VersionedValue \<Rightarrow> bool" where
  "newest w k x \<longleftrightarrow> (\<forall>y \<in> copies w k. y = x \<or> vv_counters y < vv_counters x)"

definition stored_at :: "world \<Rightarrow> key \<Rightarrow> VersionedValue \<Rightarrow> node_id \<Rightarrow> bool" where
  "stored_at w k x a \<longleftrightarrow> (\<exists>nd. nodes w a = Some nd \<and> nd_kv nd k = Some x)"

lemmas newest_values = copies_values [where Q = "\<lambda>y. y = x \<or> vv_counters y < vv_counters x" for x,
    folded newest_def]

lemma newest_stored:
  assumes "newest w k x" and "keeps_at w k (vv_clock x) a"
  shows "stored_at w k x a"
proof -
  obtain nd y where y: "nodes w a = Some nd" "nd_kv nd k = Some y" "vv_counters x \<le> vv_counters y"
    using assms(2) by (auto simp: keeps_at_def node_keeps_def)
  with assms(1) copy_in_store [OF y(1,2)] have "y = x" by (fastforce simp: newest_def)
  with y show ?thesis by (auto simp: stored_at_def)
qed

lemma newest_hinted:
  assumes "newest w k x" and "nodes w a = Some nd" and "hint_keeps nd t k (vv_clock x)"
  shows "\<exists>h. hint_at t k nd = Some h \<and> hint_version h = x"
proof -
  obtain h where h: "hint_at t k nd = Some h" "vv_counters x \<le> counter_of (hint_clock h)"
    using assms(3) by (auto simp: hint_keeps_def)
  with assms(1) copy_in_hint [OF assms(2) h(1)] have "hint_version h = x" by (fastforce simp: newest_def)
  with h(1) show ?thesis by blast
qed

text \<open>A server that has the newest version keeps it when it is sent that version or an older one.\<close>

lemma stored_write:
  assumes "nd_kv nd k = Some x" and "wf_clock (vv_clock x)" and "wf_clock (vv_clock v)"
    and "l = k \<longrightarrow> v = x \<or> vv_counters v < vv_counters x"
  shows "nd_kv (snd (storeReplicatedWrite l v nd)) k = Some x"
proof (cases "l = k")
  case True
  with assms have "compareVectorClocks (vv_clock x) (vv_clock v) = EQUAL \<or>
      compareVectorClocks (vv_clock x) (vv_clock v) = DOMINATES"
    by (auto simp: vc.cmp_EQUAL vc.cmp_DOMINATES)
  with True assms(1) show ?thesis by (auto simp: storeReplicatedWrite_def Let_def)
next
  case False
  with assms(1) show ?thesis by (auto simp: storeReplicatedWrite_def Let_def split: option.split)
qed

lemma stored_deliver_step:
  assumes "deliver_step E self t kh u w = (u', w')" and "wf_world T w" and "wf_clock (hint_clock (snd kh))"
    and "hint_key (snd kh) = k \<longrightarrow> hint_version (snd kh) = x \<or> vv_counters (hint_version (snd kh)) < vv_counters x"
    and "stored_at w k x a"
  shows "stored_at w' k x a"
proof -
  obtain r w1 where r: "rpc E t (ReplicateWrite (hint_request (snd kh))) w = (r, w1)" by fastforce
  have "stored_at w1 k x a"
    using r
  proof (cases rule: rpc_cases)
    case failed
    with assms(5) show ?thesis by (simp add: stored_at_def)
  next
    case (handled nd y nd')
    have nd': "nd' = nd \<or> nd' = snd (storeReplicatedWrite (hint_key (snd kh)) (hint_version (snd kh)) nd)"
      using handled(2) by (auto simp: ReplicateWrite_def hint_request_def hint_version_def Let_def
          split: option.splits bool.splits prod.splits)
    have "nd_kv nd' k = Some x" if "nd_kv nd k = Some x"
    proof -
      have "wf_clock (vv_clock x)"
        using wf_worldD [OF assms(2) handled(1)] that by (auto simp: wf_node_def wf_store_def)
      with nd' stored_write [OF that this, of "hint_version (snd kh)" "hint_key (snd kh)"] assms(3,4) that
      show ?thesis by auto
    qed
    with handled assms(5) show ?thesis by (cases "a = t") (auto simp: stored_at_def)
  qed
  moreover have "stored_at (update_node self f w1) k x a = stored_at w1 k x a" if "\<And>n. nd_kv (f n) = nd_kv n" for f
    using that by (cases "a = self") (auto simp: stored_at_def nodes_update)
  ultimately show ?thesis
    using assms(1) r by (auto simp: deliver_step_def split: option.splits if_splits)
qed

lemma stored_deliverHints:
  assumes "wf_world T w" and "newest w k x" and "stored_at w k x a"
  shows "stored_at (deliverHints E self t w) k x a"
proof (cases "nodes w self")
  case (Some nd)
  show ?thesis
  proof (cases "nd_hints nd t")
    case hints: (Some hs)
    have wfh: "wf_hints hs" using wf_worldD [OF assms(1) Some] hints by (auto simp: wf_node_def wf_hint_table_def)
    have hint: "wf_clock (hint_clock (snd kh)) \<and> hint_key (snd kh) = fst kh \<and> (hint_key (snd kh) = k \<longrightarrow>
        hint_version (snd kh) = x \<or> vv_counters (hint_version (snd kh)) < vv_counters x)" if kh: "kh \<in> set hs" for kh
    proof -
      have key: "hint_key (snd kh) = fst kh" "wf_clock (hint_clock (snd kh))" using wfh kh by (auto simp: wf_hints_def)
      have "hint_at t (fst kh) nd = Some (snd kh)" using wfh kh hints by (auto simp: hint_at_def wf_hints_def)
      from copy_in_hint [OF Some this] key assms(2) show ?thesis by (auto simp: newest_def)
    qed
    obtain w' where run: "run_once E (deliver_step E self t) hs () w = ((), w')"
      by (cases "run_once E (deliver_step E self t) hs () w") simp
    have "wf_world T w' \<and> stored_at w' k x a"
    proof (rule run_once_keeps [where Q = "\<lambda>y. wf_world T y \<and> stored_at y k x a", OF run])
      fix kh y u u' y'
      assume kh: "kh \<in> set hs" and y: "wf_world T y \<and> stored_at y k x a" and step: "deliver_step E self t kh u y = (u', y')"
      note h = hint [OF kh]
      have "wf_world T y'" using deliver_step_facts(1) [of E self t kh y u' y' T] step y h by simp
      moreover have "stored_at y' k x a" using stored_deliver_step [OF step] y h by blast
      ultimately show "wf_world T y' \<and> stored_at y' k x a" ..
    qed (use assms in blast)
    with Some hints run show ?thesis by (simp add: deliverHints_def)
  qed (use Some assms(3) in \<open>simp add: deliverHints_def\<close>)
qed (use assms(3) in \<open>simp add: deliverHints_def\<close>)

lemma newest_transfer:
  assumes "\<And>P. world_values P w \<Longrightarrow> world_values P w'" and "wf_world T w" and "wf_world T w'" and "newest w k x"
  shows "newest w' k x"
  using assms(1) assms(4) unfolding newest_values [OF assms(2), symmetric] newest_values [OF assms(3), symmetric] .

lemma stored_settle:
  "wf_world T w \<Longrightarrow> nodes w self \<noteq> None \<Longrightarrow> newest w k x \<Longrightarrow> stored_at w k x a \<Longrightarrow>
   stored_at (settle_peers E self ps ans w) k x a"
proof (induction ps arbitrary: w)
  case (Cons p ps)
  let ?m = "update_node self (markReachable p) w"
  let ?w1 = "if p \<in> set ans then deliverHints E self p ?m else w"
  note mr = markReachable_world [OF Cons.prems(1), of self p]
  obtain nd where nd: "nodes ?m self = Some nd" using Cons.prems(2) by (auto simp: nodes_update)
  note dh = deliverHints_safe(1,2) [OF mr(1) nd, where E = E and t = p]
  have "world_values P ?m" if "world_values P w" for P using that by (simp add: value_intros)
  then have newm: "newest ?m k x" by (rule newest_transfer [OF _ Cons.prems(1) mr(1) Cons.prems(3)])
  have "stored_at ?m k x a"
    using Cons.prems(4) by (cases "a = self") (auto simp: stored_at_def nodes_update)
  from stored_deliverHints [OF mr(1) newm this]
  have "stored_at ?w1 k x a" using Cons.prems(4) by simp
  moreover have "newest ?w1 k x"
    using newest_transfer [OF values_deliverHints mr(1) dh(1) newm] Cons.prems(3) by simp
  moreover have "wf_world T ?w1" using dh(1) Cons.prems(1) by simp
  moreover have "nodes ?w1 self \<noteq> None" using same_members_node [OF dh(2) nd] Cons.prems(2) by auto
  ultimately show ?case using Cons.IH by simp
qed simp

lemma stored_reachabilityRound:
  assumes "wf_world T w" and "newest w k x" and "stored_at w k x a"
  shows "stored_at (reachabilityRound E self w) k x a"
proof (cases "nodes w self")
  case (Some nd)
  obtain ans w1 where run: "run_once E (probe_step E) (unreachableSnapshot nd) [] w = (ans, w1)" by fastforce
  note pr = probes(1,2) [OF run]
  have "copies w1 k = copies w k" by (simp add: copies_def pr)
  then have "wf_world T w1" "nodes w1 self \<noteq> None" "newest w1 k x" "stored_at w1 k x a"
    using assms pr wf_same_nodes [OF pr] Some by (simp_all add: newest_def stored_at_def)
  from stored_settle [OF this] show ?thesis
    using Some run assms(3) by (simp add: reachabilityRound_def Let_def)
qed (use assms(3) in \<open>simp add: reachabilityRound_def\<close>)

subsection \<open>What a round leaves alone\<close>

definition marks_and_hints :: "node \<Rightarrow> (node_id \<rightharpoonup> (key \<times> HeldHint) list) \<times> node_id list" where
  "marks_and_hints n = (nd_hints n, nd_unreachable n)"

lemma others_deliver_step:
  assumes "deliver_step E self t kh u w = (u', w')" and "b \<noteq> self"
  shows "map_option marks_and_hints (nodes w' b) = map_option marks_and_hints (nodes w b)"
proof -
  obtain r w1 where r: "rpc E t (ReplicateWrite (hint_request (snd kh))) w = (r, w1)" by fastforce
  have "map_option marks_and_hints (nodes w1 b) = map_option marks_and_hints (nodes w b)"
    using r
  proof (cases rule: rpc_cases)
    case (handled nd y nd')
    have "nd' = nd \<or> nd' = snd (storeReplicatedWrite (hint_key (snd kh)) (hint_version (snd kh)) nd)"
      using handled(2) by (auto simp: ReplicateWrite_def hint_request_def hint_version_def Let_def
          split: option.splits bool.splits prod.splits)
    then have "marks_and_hints nd' = marks_and_hints nd"
      using storeReplicatedWrite_frame [of "hint_key (snd kh)" "hint_version (snd kh)" nd]
      by (cases "storeReplicatedWrite (hint_key (snd kh)) (hint_version (snd kh)) nd") (auto simp: marks_and_hints_def)
    with handled show ?thesis by (cases "b = t") auto
  qed simp
  with assms r show ?thesis
    by (auto simp: deliver_step_def nodes_update split: option.splits if_splits)
qed

lemma others_deliverHints:
  assumes "b \<noteq> self"
  shows "map_option marks_and_hints (nodes (deliverHints E self t w) b) = map_option marks_and_hints (nodes w b)"
proof (cases "nodes w self")
  case (Some nd)
  show ?thesis
  proof (cases "nd_hints nd t")
    case hints: (Some hs)
    obtain w' where run: "run_once E (deliver_step E self t) hs () w = ((), w')"
      by (cases "run_once E (deliver_step E self t) hs () w") simp
    have "map_option marks_and_hints (nodes w' b) = map_option marks_and_hints (nodes w b)"
      by (rule run_once_keeps [OF run]) (use others_deliver_step assms in \<open>auto dest: others_deliver_step\<close>)
    with Some hints run show ?thesis by (simp add: deliverHints_def)
  qed (use Some in \<open>simp add: deliverHints_def\<close>)
qed (simp add: deliverHints_def)

lemma others_settle:
  "b \<noteq> self \<Longrightarrow> map_option marks_and_hints (nodes (settle_peers E self ps ans w) b) =
     map_option marks_and_hints (nodes w b)"
  by (induction ps arbitrary: w) (simp_all add: others_deliverHints nodes_update)

lemma others_reachabilityRound:
  assumes "b \<noteq> self"
  shows "map_option marks_and_hints (nodes (reachabilityRound E self w) b) = map_option marks_and_hints (nodes w b)"
proof (cases "nodes w self")
  case (Some nd)
  obtain ans w1 where run: "run_once E (probe_step E) (unreachableSnapshot nd) [] w = (ans, w1)" by fastforce
  with Some others_settle [OF assms, of E "unreachableSnapshot nd" ans w1] probes(1) [OF run] show ?thesis
    by (simp add: reachabilityRound_def Let_def)
qed (simp add: reachabilityRound_def)

subsection \<open>The rounds of several servers\<close>

text \<open>The version is at its owner, or one of the servers holds it as a hint for the owner and marks the owner.\<close>

definition on_its_way :: "world \<Rightarrow> key \<Rightarrow> VersionedValue \<Rightarrow> node_id list \<Rightarrow> node_id \<Rightarrow> bool" where
  "on_its_way w k x as q \<longleftrightarrow> stored_at w k x q \<or>
     (\<exists>a \<in> set as. \<exists>nd h. nodes w a = Some nd \<and> hint_at q k nd = Some h \<and> hint_version h = x \<and>
        q \<in> set (nd_unreachable nd))"

definition marked_up :: "world \<Rightarrow> node_id list \<Rightarrow> bool" where
  "marked_up w as \<longleftrightarrow> (\<forall>a \<in> set as. \<forall>nd. nodes w a = Some nd \<longrightarrow> (\<forall>p \<in> set (nd_unreachable nd). up w p))"

lemma round_hands_on:
  assumes "wf_world T w" and "newest w k x" and "\<forall>t. fate_at F t = Delivered" and "marked_up w (a # as)"
  shows "wf_world T (reachabilityRound F a w) \<and> newest (reachabilityRound F a w) k x \<and>
    marked_up (reachabilityRound F a w) as \<and>
    (\<forall>q. on_its_way w k x (a # as) q \<longrightarrow> on_its_way (reachabilityRound F a w) k x as q)"
proof (cases "nodes w a")
  case None
  then have "reachabilityRound F a w = w" by (simp add: reachabilityRound_def)
  with assms None show ?thesis by (auto simp: marked_up_def on_its_way_def)
next
  case (Some nd)
  let ?w = "reachabilityRound F a w"
  have ups: "\<forall>p \<in> set (nd_unreachable nd). up w p" using assms(4) Some by (auto simp: marked_up_def)
  note safe = reachabilityRound_safe(1,2) [OF assms(1) Some, of F]
  have new: "newest ?w k x" by (rule newest_transfer [OF values_reachabilityRound assms(1) safe(1) assms(2)])
  obtain nd' where nd': "nodes ?w a = Some nd'" "nd_unreachable nd' = []"
    "\<And>p h. p \<in> set (nd_unreachable nd) \<Longrightarrow> hint_at p k nd = Some h \<Longrightarrow> keeps_at ?w k (hint_clock h) p"
    using reachabilityRound_delivered [OF assms(1) Some assms(3) ups] by blast
  have others: "\<exists>m. nodes w b = Some m \<and> nd_hints n = nd_hints m \<and> nd_unreachable n = nd_unreachable m"
    if "b \<noteq> a" "nodes ?w b = Some n" for b n
    using others_reachabilityRound [OF that(1), of F w] that(2)
    by (cases "nodes w b") (auto simp: marks_and_hints_def)
  have others': "\<exists>n. nodes ?w b = Some n \<and> nd_hints n = nd_hints m \<and> nd_unreachable n = nd_unreachable m"
    if "b \<noteq> a" "nodes w b = Some m" for b m
    using others_reachabilityRound [OF that(1), of F w] that(2)
    by (cases "nodes ?w b") (auto simp: marks_and_hints_def)
  have "\<forall>p \<in> set (nd_unreachable n). up ?w p" if n: "b \<in> set as" "nodes ?w b = Some n" for b n
  proof (cases "b = a")
    case True
    with n nd' show ?thesis by simp
  next
    case False
    from others [OF this n(2)] assms(4) n(1) up_same [OF safe(2)] show ?thesis
      unfolding marked_up_def by fastforce
  qed
  then have "marked_up ?w as" unfolding marked_up_def by blast
  moreover have "on_its_way ?w k x as q" if way: "on_its_way w k x (a # as) q" for q
  proof -
    from way consider (stored) "stored_at w k x q"
      | (here) h where "hint_at q k nd = Some h" "hint_version h = x" "q \<in> set (nd_unreachable nd)"
      | (there) b m h where "b \<in> set as" "b \<noteq> a" "nodes w b = Some m" "hint_at q k m = Some h" "hint_version h = x"
          "q \<in> set (nd_unreachable m)"
      unfolding on_its_way_def using Some by fastforce
    then show ?thesis
    proof cases
      case stored
      then show ?thesis
        using stored_reachabilityRound [OF assms(1,2)] unfolding on_its_way_def by blast
    next
      case here
      from nd'(3) [OF here(3,1)] have "keeps_at ?w k (vv_clock x) q" using here(2) by (auto simp flip: hint_version_simps(2))
      from newest_stored [OF new this] show ?thesis by (simp add: on_its_way_def)
    next
      case there
      from others' [OF there(2,3)] obtain n where n: "nodes ?w b = Some n" "nd_hints n = nd_hints m"
        "nd_unreachable n = nd_unreachable m" by blast
      then have "hint_at q k n = Some h" "q \<in> set (nd_unreachable n)" using there(4,6) by (simp_all add: hint_at_def)
      with n(1) there(1,5) show ?thesis unfolding on_its_way_def by blast
    qed
  qed
  ultimately show ?thesis using safe(1) new by blast
qed

lemma rounds_hand_over:
  "wf_world T w \<Longrightarrow> newest w k x \<Longrightarrow> \<forall>t. fate_at F t = Delivered \<Longrightarrow> marked_up w as \<Longrightarrow> on_its_way w k x as q \<Longrightarrow>
   stored_at (fold (reachabilityRound F) as w) k x q"
proof (induction as arbitrary: w)
  case Nil
  then show ?case by (simp add: on_its_way_def)
next
  case (Cons a as)
  from round_hands_on [OF Cons.prems(1-4)] Cons.prems(3,5) Cons.IH show ?case by simp
qed


subsection \<open>Property\<close>

text \<open>A write that supersedes every copy of its key is the newest version afterwards.\<close>

lemma newest_coordinatePut:
  assumes "coordinatePut E self k v ctx pref W w = (resp, w')" and "wf_world T w" and "wf_world T w'"
    and "\<forall>y \<in> copies w k. vv_counters y < counter_of (pr_context resp)"
  shows "newest w' k (vv v (pr_context resp))"
  unfolding newest_values [OF assms(3), symmetric]
proof (rule values_coordinatePut [OF assms(1)])
  have "newest w k (vv v (pr_context resp))" using assms(4) by (auto simp: newest_def)
  then show "world_values (\<lambda>l y. l = k \<longrightarrow> y = vv v (pr_context resp) \<or>
      vv_counters y < vv_counters (vv v (pr_context resp))) w"
    unfolding newest_values [OF assms(2)] .
qed simp

text \<open>The servers that hold hints for the key are among the given ones, and mark the owners of the hints.\<close>

definition holders_mark :: "world \<Rightarrow> key \<Rightarrow> node_id list \<Rightarrow> bool" where
  "holders_mark w k as \<longleftrightarrow> (\<forall>a nd t h. nodes w a = Some nd \<longrightarrow> hint_at t k nd = Some h \<longrightarrow>
     a \<in> set as \<and> t \<in> set (nd_unreachable nd))"

lemma newest_on_its_way:
  assumes "newest w k x" and "holders_mark w k as" and "kept_for w k (vv_clock x) q"
  shows "on_its_way w k x as q"
proof -
  consider (stored) "keeps_at w k (vv_clock x) q"
    | (hinted) a nd where "nodes w a = Some nd" "hint_keeps nd q k (vv_clock x)"
    using assms(3) by (auto simp: kept_for_def keeps_at_def)
  then show ?thesis
  proof cases
    case stored
    from newest_stored [OF assms(1) this] show ?thesis by (simp add: on_its_way_def)
  next
    case hinted
    from newest_hinted [OF assms(1) this] obtain h where h: "hint_at q k nd = Some h" "hint_version h = x" by blast
    with hinted(1) assms(2) have "a \<in> set as" "q \<in> set (nd_unreachable nd)" unfolding holders_mark_def by blast+
    with h hinted(1) show ?thesis unfolding on_its_way_def by blast
  qed
qed

text \<open>
C24. Acknowledged writes reach their owners: a natural owner of the key coordinates a write that
supersedes every copy of the key, under any failures of its calls.  Afterwards the servers that hold
hints for the key run one round of their reachability loop each, in any order, with other servers
possibly in between, all calls delivered and the peers they mark running again.  Then as many natural
owners as the write had acks hold exactly the written value under the clock of the response in their
own stores.  So the hints that counted as acks have become copies at the owners.
\<close>
theorem acked_write_reaches_owners:
  assumes "wf_world T w" and "nodes w self = Some nd" and "isSelfRemoved nd = Some False"
    and "wf_clock (pq_context req)"
    and "find (\<lambda>e. ple_node_id e = self) (preferenceListForKey nd (pq_key req) (nd_N nd)) = Some e"
    and "hint_for_node_id e = None" and "Put E self req w = (Some resp, w')"
    and "\<forall>y \<in> copies w (pq_key req). vv_counters y < counter_of (pr_context resp)"
    and "holders_mark w' (pq_key req) as" and "marked_up w' as" and "\<forall>t. fate_at F t = Delivered"
  shows "\<exists>Q \<subseteq> set (natural_owners (nd_ring nd) (key_hash (pq_key req)) (nd_N nd)).
    card Q = pr_acks resp \<and>
    (\<forall>q \<in> Q. stored_at (fold (reachabilityRound F) as w') (pq_key req) (vv (pq_value req) (pr_context resp)) q)"
proof -
  let ?x = "vv (pq_value req) (pr_context resp)"
  note c = Put_coordinates_obtain [OF assms(2,3,5,7)]
  have ctx: "wf_clock_opt (Some (pq_context req))" using assms(4) by simp
  have wf': "wf_world T w'" using wf_Put [OF assms(7,1,4)] by blast
  note new = newest_coordinatePut [OF c assms(1) wf' assms(8)]
  have "stored_at (fold (reachabilityRound F) as w') (pq_key req) ?x q"
    if "kept_for w' (pq_key req) (pr_context resp) q" for q
    using newest_on_its_way [OF new assms(9), of q] that
    by (intro rounds_hand_over [OF wf' new assms(11,10)]) simp
  with coordinatePut_kept [OF c assms(1,2) ctx assms(5,6)] show ?thesis by blast
qed

text \<open>In the witness \<open>B\<close> writes, its calls to \<open>A\<close> and \<open>C\<close> are lost, and \<open>D\<close> hands both hints over.\<close>

theorem acked_write_reaches_owners_witness:
  "\<exists>w'. Put reuse_env ''B'' (blind_put ''v'') reuse_start =
       (Some \<lparr>pr_success = True, pr_acks = 3, pr_context = clk [(''B'', 1)] 0 ''B''\<rparr>, w') \<and>
     stored_at (reachabilityRound calm ''D'' w') ''k'' (vv ''v'' (clk [(''B'', 1)] 0 ''B'')) ''A'' \<and>
     stored_at (reachabilityRound calm ''D'' w') ''k'' (vv ''v'' (clk [(''B'', 1)] 0 ''B'')) ''B'' \<and>
     stored_at (reachabilityRound calm ''D'' w') ''k'' (vv ''v'' (clk [(''B'', 1)] 0 ''B'')) ''C''"
proof -
  let ?B = "demo_node ''B'' [] Map.empty Map.empty"
  note put = reuse1 [of "''v''", folded reuse_start_quad]
  have B: "nodes reuse_start ''B'' = Some ?B" by (simp add: reuse_start_quad)
  have none: "copies reuse_start k = {}" for k
    by (auto simp: copies_def reuse_start_quad quad_def hint_at_def split: if_splits)
  have up: "isSelfRemoved ?B = Some False" by (simp add: demo_up)
  have wfc: "wf_clock (pq_context (blind_put ''v''))" by (simp add: blind_put_def wf_intros)
  have f: "find (\<lambda>e. ple_node_id e = ''B'') (preferenceListForKey ?B (pq_key (blind_put ''v'')) (nd_N ?B)) =
      Some (natural_entry ''B'')"
    by (simp add: blind_put_def demo_eval)
  have hm: "holders_mark (snd (Put reuse_env ''B'' (blind_put ''v'') reuse_start)) (pq_key (blind_put ''v'')) [''D'']"
    unfolding put snd_conv by (auto simp: holders_mark_def quad_def hint_at_def blind_put_def split: if_splits)
  have mu: "marked_up (snd (Put reuse_env ''B'' (blind_put ''v'') reuse_start)) [''D'']"
    unfolding put snd_conv by (auto simp: marked_up_def up_def demo_up)
  have three: "Q = {''A'', ''B'', ''C''}" if "Q \<subseteq> {''A'', ''B'', ''C''}" "card Q = 3" for Q :: "node_id set"
    using that by (intro card_subset_eq) simp_all
  let ?w = "reachabilityRound calm ''D'' (snd (Put reuse_env ''B'' (blind_put ''v'') reuse_start))"
  have "\<exists>Q \<subseteq> {''A'', ''B'', ''C''}. card Q = 3 \<and>
      (\<forall>q \<in> Q. stored_at ?w ''k'' (vv ''v'' (clk [(''B'', 1)] 0 ''B'')) q)"
    using acked_write_reaches_owners [OF wf_reuse_start B up wfc f _ put, of "[''D'']" calm] hm mu none
    unfolding put by (simp add: blind_put_def natural_owners_def demo_clockwise insert_commute)
  then have "\<forall>q \<in> {''A'', ''B'', ''C''}. stored_at ?w ''k'' (vv ''v'' (clk [(''B'', 1)] 0 ''B'')) q"
    using three by metis
  then show ?thesis unfolding put snd_conv by simp
qed

end
