(* ===== verification/Gossip_Spread.thy ===== *)
theory Gossip_Spread
  imports Gossip
begin

text \<open>
  Many gossip rounds (\<open>gossipRound\<close> of \<^verbatim>\<open>node_membership.cpp\<close>), of any servers in any
  order, with lost calls and lost replies: how far the membership tables have spread, and when all
  tables agree.
\<close>

subsection \<open>Who learns from whom\<close>

text \<open>The peer that a round calls, if it is running, and the fate of the call.\<close>

definition contact :: "env \<Rightarrow> node_id \<Rightarrow> world \<Rightarrow> (node_id \<times> fate) option" where
  "contact E self w =
     (case nodes w self of
        None \<Rightarrow> None
      | Some nd \<Rightarrow>
          (case selectGossipTarget self (nd_table nd) (choice_at E (tick w)) of
             None \<Rightarrow> None
           | Some peer \<Rightarrow> if nodes w peer = None then None else Some (peer, fate_at E (Suc (tick w)))))"

text \<open>
  \<open>I a\<close> are the servers whose first tables have reached \<open>a\<close>.  The request carries what the caller
  knows, the reply what the peer knows then.
\<close>

definition round_spread :: "env \<Rightarrow> node_id \<Rightarrow> world \<Rightarrow> (node_id \<Rightarrow> node_id set) \<Rightarrow> node_id \<Rightarrow> node_id set" where
  "round_spread E self w I =
     (case contact E self w of
        Some (peer, Delivered) \<Rightarrow> I(self := I self \<union> I peer, peer := I self \<union> I peer)
      | Some (peer, ReplyLost) \<Rightarrow> I(peer := I self \<union> I peer)
      | _ \<Rightarrow> I)"

fun gossip_rounds :: "env \<Rightarrow> node_id list \<Rightarrow> world \<Rightarrow> world" where
  "gossip_rounds E [] w = w"
| "gossip_rounds E (self # xs) w = gossip_rounds E xs (gossipRound E self w)"

fun informed :: "env \<Rightarrow> node_id list \<Rightarrow> world \<Rightarrow> (node_id \<Rightarrow> node_id set) \<Rightarrow> node_id \<Rightarrow> node_id set" where
  "informed E [] w I = I"
| "informed E (self # xs) w I = informed E xs (gossipRound E self w) (round_spread E self w I)"

text \<open>The pairs of servers with a delivered exchange in the given rounds.\<close>

fun met :: "env \<Rightarrow> node_id list \<Rightarrow> world \<Rightarrow> (node_id \<times> node_id) set" where
  "met E [] w = {}"
| "met E (self # xs) w =
     (case contact E self w of
        Some (peer, Delivered) \<Rightarrow> {(self, peer), (peer, self)}
      | _ \<Rightarrow> {}) \<union> met E xs (gossipRound E self w)"

subsection \<open>The newest entry\<close>

definition entry :: "world \<Rightarrow> node_id \<Rightarrow> node_id \<Rightarrow> MembershipEntry option" where
  "entry w a n = (case nodes w a of None \<Rightarrow> None | Some nd \<Rightarrow> map_of (nd_table nd) n)"

definition newest_of :: "world \<Rightarrow> node_id set \<Rightarrow> node_id \<Rightarrow> MembershipEntry option \<Rightarrow> bool" where
  "newest_of w S n x \<longleftrightarrow>
     (case x of
        None \<Rightarrow> (\<forall>s \<in> S. entry w s n = None)
      | Some e \<Rightarrow> (\<exists>s \<in> S. entry w s n = Some e) \<and>
          (\<forall>s \<in> S. \<forall>e'. entry w s n = Some e' \<longrightarrow> \<not> incoming_wins e' e))"

definition stamps_unique :: "world \<Rightarrow> bool" where
  "stamps_unique w \<longleftrightarrow> (\<forall>a b n x y. entry w a n = Some x \<longrightarrow> entry w b n = Some y \<longrightarrow>
     entry_stamp x = entry_stamp y \<longrightarrow> x = y)"

lemma newest_of_join:
  assumes "newest_of w S n x" and "newest_of w R n y"
  shows "newest_of w (S \<union> R) n (lww_join incoming_wins x y)"
proof (cases x; cases y)
  fix a b assume ab: "x = Some a" "y = Some b"
  have "incoming_wins b a \<Longrightarrow> \<not> incoming_wins e' a \<Longrightarrow> \<not> incoming_wins e' b"
    "\<not> incoming_wins b a \<Longrightarrow> \<not> incoming_wins e' b \<Longrightarrow> \<not> incoming_wins e' a" for e'
    by (auto simp only: mlww.beats_iff not_less intro: order_trans less_imp_le)
  with assms ab show ?thesis
    unfolding newest_of_def by (cases "incoming_wins b a") (simp_all add: ball_Un, blast+)
qed (use assms in \<open>auto simp: newest_of_def\<close>)

lemma newest_of_unique:
  assumes "newest_of w S n x" and "newest_of w S n y" and "stamps_unique w"
  shows "x = y"
proof (cases x; cases y)
  fix a b assume ab: "x = Some a" "y = Some b"
  with assms(1,2) obtain s t where st: "s \<in> S" "entry w s n = Some a" "t \<in> S" "entry w t n = Some b"
    by (auto simp: newest_of_def)
  with assms(1,2) ab have "\<not> incoming_wins a b" "\<not> incoming_wins b a"
    by (auto simp: newest_of_def)
  then have "entry_stamp a = entry_stamp b" by (simp add: mlww.beats_iff)
  with assms(3) st ab show ?thesis unfolding stamps_unique_def by blast
qed (use assms in \<open>auto simp: newest_of_def\<close>)

subsection \<open>One round\<close>

text \<open>The tables after a round, entry by entry.\<close>

definition spread_entry :: "env \<Rightarrow> node_id \<Rightarrow> world \<Rightarrow> node_id \<Rightarrow> node_id \<Rightarrow> MembershipEntry option" where
  "spread_entry E self w a n =
     (let x = entry w self n; join = lww_join incoming_wins
      in case contact E self w of
           Some (peer, Delivered) \<Rightarrow>
             if a = self then join x (join (entry w peer n) x)
             else if a = peer then join (entry w peer n) x else entry w a n
         | Some (peer, ReplyLost) \<Rightarrow> if a = peer then join (entry w peer n) x else entry w a n
         | _ \<Rightarrow> entry w a n)"

lemma entry_set_node: "entry (set_node p nd w) a n = (if a = p then map_of (nd_table nd) n else entry w a n)"
  by (simp add: entry_def)

lemma entry_advance [simp]: "entry (advance w) a n = entry w a n"
  by (simp add: entry_def)

lemma entry_mark [simp]: "entry (update_node self (markUnreachable p) w) a n = entry w a n"
  by (simp add: entry_def nodes_update markUnreachable_def split: option.split)

lemma entry_update:
  "entry (update_node a f w) b n =
     (if b = a then (case nodes w a of None \<Rightarrow> None | Some nd \<Rightarrow> map_of (nd_table (f nd)) n) else entry w b n)"
  by (auto simp: entry_def nodes_update split: option.split)

lemma SendGossip_lost:
  assumes "nodes w peer = None \<or> fate_at E (tick w) = RequestLost"
  shows "SendGossip E self peer tbl w = (None, update_node self (markUnreachable peer) (advance w))"
  using assms by (auto simp: SendGossip_def rpc_def Let_def split: option.split)

lemma SendGossip_reply_lost:
  assumes "nodes w peer = Some pd" and "fate_at E (tick w) = ReplyLost"
  shows "SendGossip E self peer tbl w =
    (None, update_node self (markUnreachable peer) (set_node peer (snd (applyGossip tbl pd)) (advance w)))"
  using assms by (simp add: SendGossip_def rpc_def GossipExchange_def split: prod.split)

lemma gossipRound_entries:
  assumes "wf_world T w" and "tokens_disjoint T"
  shows "entry (gossipRound E self w) a n = spread_entry E self w a n"
proof (cases "nodes w self")
  case None
  then show ?thesis by (simp add: gossipRound_def spread_entry_def contact_def)
next
  case nd: (Some nd)
  show ?thesis
  proof (cases "selectGossipTarget self (nd_table nd) (choice_at E (tick w))")
    case None
    with nd show ?thesis by (simp add: gossipRound_def spread_entry_def contact_def)
  next
    case sel: (Some peer)
    note round = gossipRound_def [of E self w] nd sel
    show ?thesis
    proof (cases "nodes w peer = None \<or> fate_at E (Suc (tick w)) = RequestLost")
      case True
      then have "SendGossip E self peer (nd_table nd) (advance w) =
          (None, update_node self (markUnreachable peer) (advance (advance w)))"
        by (intro SendGossip_lost) auto
      with True show ?thesis
        by (auto simp: round spread_entry_def contact_def nd sel split: fate.split)
    next
      case False
      then obtain pd where pd: "nodes w peer = Some pd" by auto
      let ?pd = "snd (applyGossip (nd_table nd) pd)"
      have t: "table_ok T (nd_table nd)" "wf_node T pd"
        using wf_worldD [OF assms(1)] nd pd by (auto simp: wf_node_def wf_member_def)
      then have d: "distinct_keys (nd_table nd)" "distinct_keys (nd_table ?pd)"
        using wf_applyGossip(1) [OF t(2) assms(2) t(1)]
        by (auto simp: table_ok_def wf_node_def wf_member_def)
      have x: "entry w self n = map_of (nd_table nd) n" "entry w peer n = map_of (nd_table pd) n"
        using nd pd by (auto simp: entry_def)
      have f: "fate_at E (Suc (tick w)) = Delivered \<or> fate_at E (Suc (tick w)) = ReplyLost"
        using False by (cases "fate_at E (Suc (tick w))") auto
      then show ?thesis
      proof
        assume del: "fate_at E (Suc (tick w)) = Delivered"
        then have send: "SendGossip E self peer (nd_table nd) (advance w) =
            (Some \<lparr>gr_responder = nd_id pd, gr_table = nd_table ?pd\<rparr>, set_node peer ?pd (advance (advance w)))"
          using pd by (simp add: SendGossip_delivered applyGossip_table)
        show ?thesis
          using d nd pd x
          by (auto simp: round spread_entry_def contact_def send del apply_response_def entry_update
              entry_set_node applyGossip_slot Let_def)
      next
        assume lost: "fate_at E (Suc (tick w)) = ReplyLost"
        show ?thesis
          using d nd pd x
          by (auto simp: round spread_entry_def contact_def lost SendGossip_reply_lost entry_set_node
              applyGossip_slot Let_def)
      qed
    qed
  qed
qed

lemma newest_of_spread:
  assumes "wf_world T w" and "tokens_disjoint T" and "\<And>a n. newest_of w0 (I a) n (entry w a n)"
  shows "newest_of w0 (round_spread E self w I a) n (entry (gossipRound E self w) a n)"
proof -
  have join: "newest_of w0 (I self \<union> I p) n (lww_join incoming_wins (entry w p n) (entry w self n))"
    "newest_of w0 (I self \<union> I p) n
      (lww_join incoming_wins (entry w self n) (lww_join incoming_wins (entry w p n) (entry w self n)))" for p
    using newest_of_join [OF assms(3) [of p n] assms(3) [of self n]]
      newest_of_join [OF assms(3) [of self n] newest_of_join [OF assms(3) [of p n] assms(3) [of self n]]]
    by (simp_all add: Un_ac)
  show ?thesis
    unfolding gossipRound_entries [OF assms(1,2)]
    using join assms(3)
    by (auto simp: spread_entry_def round_spread_def Let_def split: option.split fate.split)
qed

lemma running_update: "nodes (update_node a f w) b = None \<longleftrightarrow> nodes w b = None"
  by (simp add: update_node_def split: option.split)

lemma running_SendGossip: "SendGossip E self p t u = (r, v) \<Longrightarrow> nodes v a = None \<longleftrightarrow> nodes u a = None"
  by (auto simp: SendGossip_def rpc_def Let_def GossipExchange_def running_update
      split: option.splits prod.splits if_splits)

lemma running_gossipRound: "nodes (gossipRound E self w) a = None \<longleftrightarrow> nodes w a = None"
  by (simp add: gossipRound_def apply_response_def running_update running_SendGossip
      split: option.split prod.split)


subsection \<open>Many rounds\<close>

lemma wf_gossip_rounds:
  assumes "wf_world T w" and "tokens_disjoint T"
  shows "wf_world T (gossip_rounds E xs w)"
  using assms by (induction xs arbitrary: w) (auto intro: wf_gossipRound)

lemma running_gossip_rounds: "nodes (gossip_rounds E xs w) a = None \<longleftrightarrow> nodes w a = None"
  by (induction xs arbitrary: w) (simp_all add: running_gossipRound)

lemma gossip_rounds_append: "gossip_rounds E (xs @ ys) w = gossip_rounds E ys (gossip_rounds E xs w)"
  by (induction xs arbitrary: w) simp_all

lemma informed_append:
  "informed E (xs @ ys) w I = informed E ys (gossip_rounds E xs w) (informed E xs w I)"
  by (induction xs arbitrary: w I) simp_all

lemma rounds_newest:
  assumes "wf_world T w" and "tokens_disjoint T" and "\<And>a n. newest_of w0 (I a) n (entry w a n)"
  shows "newest_of w0 (informed E xs w I a) n (entry (gossip_rounds E xs w) a n)"
  using assms(1,3)
proof (induction xs arbitrary: w I)
  case (Cons self xs)
  show ?case
    using Cons.IH [OF wf_gossipRound [OF Cons.prems(1) assms(2)] newest_of_spread [OF Cons.prems(1) assms(2) Cons.prems(2)]]
    by simp
qed simp

lemma newest_of_self: "newest_of w {a} n (entry w a n)"
  by (simp add: newest_of_def mlww.not_beats_self split: option.split)

lemma round_spread_grows: "I a \<subseteq> round_spread E self w I a"
  by (auto simp: round_spread_def split: option.split fate.split)

lemma informed_grows: "I a \<subseteq> informed E xs w I a"
proof (induction xs arbitrary: w I)
  case (Cons self xs)
  show ?case using round_spread_grows [of I a E self w] Cons.IH [of "round_spread E self w I"] by force
qed simp

lemma met_informed: "(a, b) \<in> met E xs w \<Longrightarrow> I a \<subseteq> informed E xs w I b"
proof (induction xs arbitrary: w I)
  case (Cons self xs)
  show ?case
  proof (cases "(a, b) \<in> met E xs (gossipRound E self w)")
    case True
    then show ?thesis
      using Cons.IH [of "gossipRound E self w" "round_spread E self w I"] round_spread_grows [of I a E self w]
      by simp
  next
    case False
    with Cons.prems have "I a \<subseteq> round_spread E self w I b"
      by (auto simp: round_spread_def split: option.splits fate.splits prod.splits)
    then show ?thesis using informed_grows [of "round_spread E self w I" b E xs] by force
  qed
qed simp

text \<open>A server that has met all others informs every server that it meets afterwards.\<close>

lemma hub_informs:
  assumes "\<And>p. nodes w p \<noteq> None \<Longrightarrow> p \<noteq> hub \<Longrightarrow> (p, hub) \<in> met E xs w"
    and "\<And>p. nodes w p \<noteq> None \<Longrightarrow> p \<noteq> hub \<Longrightarrow> (hub, p) \<in> met E ys (gossip_rounds E xs w)"
    and "nodes w s \<noteq> None" and "nodes w a \<noteq> None"
  shows "s \<in> informed E (xs @ ys @ zs) w (\<lambda>n. {n}) a"
proof -
  let ?I = "informed E xs w (\<lambda>n. {n})"
  have hub: "s \<in> ?I hub"
    using met_informed [of s hub E xs w "\<lambda>n. {n}"] informed_grows [of "\<lambda>n. {n}" hub E xs w] assms(1,3)
    by (cases "s = hub") auto
  have "?I hub \<subseteq> informed E ys (gossip_rounds E xs w) ?I a"
    using met_informed [of hub a E ys] informed_grows [of ?I hub E ys] assms(2,4)
    by (cases "a = hub") auto
  with hub have "s \<in> informed E ys (gossip_rounds E xs w) ?I a" by blast
  then show ?thesis unfolding informed_append gossip_rounds_append
    using informed_grows by blast
qed

lemma newest_of_all:
  assumes "newest_of w S n x" and "\<And>s. nodes w s \<noteq> None \<Longrightarrow> s \<in> S"
  shows "newest_of w UNIV n x"
proof -
  have "s \<in> S" if "entry w s n = Some e" for s e
    using that assms(2) [of s] by (auto simp: entry_def split: option.splits)
  with assms(1) show ?thesis by (fastforce simp: newest_of_def split: option.splits)
qed


lemma entry_node: "nodes w a = Some nd \<Longrightarrow> map_of (nd_table nd) n = entry w a n"
  by (simp add: entry_def)

lemma removed_not_listed:
  assumes "wf_node T nd" and "\<And>e. map_of (nd_table nd) m = Some e \<Longrightarrow> status e = REMOVED"
  shows "m \<notin> set (ring_nodes (nd_ring nd)) \<and>
    (\<forall>k N. \<forall>p \<in> set (preferenceListForKey nd k N). ple_node_id p \<noteq> m \<and> hint_for_node_id p \<noteq> Some m)"
proof -
  have "m \<notin> set (ring_nodes (nd_ring nd))"
    using ring_ok_node [of "nd_table nd" "nd_ring nd" m] assms
    by (auto simp: wf_node_def wf_member_def owns_def)
  moreover have "n \<in> set (ring_nodes (nd_ring nd))" if "n \<in> set (natural_owners (nd_ring nd) h N)" for n h N
    using that by (auto simp: natural_owners_def set_clockwise dest: in_set_takeD)
  ultimately show ?thesis
    by (fastforce simp: preferenceListForKey_def dest: preference_in_ring preference_hint)
qed

subsection \<open>Properties\<close>

text \<open>
C16. How far gossip has carried the membership, under every failure: let any servers start gossip rounds in
any order, with any partners, and let calls and replies get lost.  Then the table of a server holds, for
every node, exactly the newest of the entries which the servers that have informed it (directly or
through others) had at first: it is one of theirs, none of theirs is newer, and there is none if none of
them had one.
\<close>
theorem gossip_spreads_newest:
  assumes "wf_world T w" and "tokens_disjoint T" and "nodes (gossip_rounds E xs w) a = Some nd"
  shows "newest_of w (informed E xs w (\<lambda>s. {s}) a) n (map_of (nd_table nd) n)"
  unfolding entry_node [OF assms(3)]
  by (rule rounds_newest [OF assms(1,2) newest_of_self])

text \<open>
C17. A removal takes effect wherever gossip has carried it: if a server lists a node as removed, and no
server lists the node as up with a newer stamp, then every server that it has informed by rounds of
gossip, directly or through others and whatever calls failed meanwhile, has the node off its ring, and
names it in no preference list, neither as a replica nor as the owner of a hint.
\<close>
theorem removal_spreads:
  assumes "wf_world T w" and "tokens_disjoint T"
    and "entry w s m = Some e" and "status e = REMOVED"
    and "\<forall>b x. entry w b m = Some x \<and> status x = UP \<longrightarrow> incoming_wins e x"
    and "s \<in> informed E xs w (\<lambda>b. {b}) a" and "nodes (gossip_rounds E xs w) a = Some nd"
  shows "m \<notin> set (ring_nodes (nd_ring nd)) \<and>
    (\<forall>k N. \<forall>p \<in> set (preferenceListForKey nd k N). ple_node_id p \<noteq> m \<and> hint_for_node_id p \<noteq> Some m)"
proof (rule removed_not_listed)
  show "wf_node T nd"
    using wf_worldD [OF wf_gossip_rounds [OF assms(1,2)] assms(7)] by simp
  fix x assume "map_of (nd_table nd) m = Some x"
  then have "newest_of w (informed E xs w (\<lambda>b. {b}) a) m (Some x)"
    using rounds_newest [OF assms(1,2) newest_of_self, of E xs a m] entry_node [OF assms(7), of m] by simp
  with assms(3,5,6) show "status x = REMOVED"
    unfolding newest_of_def by (cases "status x") auto
qed

text \<open>
C15. Gossip converges: once some server has had a delivered exchange with every other one and then again with
every other one (whoever started them, with any other rounds and failures in between and afterwards), all
servers have the same entries, for every node the newest that any server had at first, and the same ring;
two of them that distrust the same peers have the same preference lists.  (No two different entries for
a node may carry the same stamp.)
\<close>
theorem gossip_converges:
  assumes "wf_world T w" and "tokens_disjoint T" and "stamps_unique w"
    and "\<forall>p. nodes w p \<noteq> None \<and> p \<noteq> hub \<longrightarrow> (p, hub) \<in> met E xs w"
    and "\<forall>p. nodes w p \<noteq> None \<and> p \<noteq> hub \<longrightarrow> (hub, p) \<in> met E ys (gossip_rounds E xs w)"
    and "nodes (gossip_rounds E (xs @ ys @ zs) w) a = Some x"
    and "nodes (gossip_rounds E (xs @ ys @ zs) w) b = Some y"
  shows "(\<forall>n. newest_of w UNIV n (map_of (nd_table x) n)) \<and> map_of (nd_table x) = map_of (nd_table y) \<and>
    nd_ring x = nd_ring y \<and>
    (set (nd_unreachable x) = set (nd_unreachable y) \<longrightarrow>
      (\<forall>k N. preferenceListForKey x k N = preferenceListForKey y k N))"
proof -
  let ?E = "gossip_rounds E (xs @ ys @ zs) w"
  have newest: "newest_of w UNIV n (map_of (nd_table z) n)" if "nodes ?E c = Some z" for c z n
  proof (rule newest_of_all)
    show "newest_of w (informed E (xs @ ys @ zs) w (\<lambda>s. {s}) c) n (map_of (nd_table z) n)"
      unfolding entry_node [OF that] by (rule rounds_newest [OF assms(1,2) newest_of_self])
    have "nodes w c \<noteq> None" using that running_gossip_rounds [of E "xs @ ys @ zs" w c] by simp
    then show "s \<in> informed E (xs @ ys @ zs) w (\<lambda>s. {s}) c" if "nodes w s \<noteq> None" for s
      using that assms(4,5) by (intro hub_informs [where hub = hub]) auto
  qed
  have tables: "map_of (nd_table x) = map_of (nd_table y)"
    using newest_of_unique [OF newest [OF assms(6)] newest [OF assms(7)] assms(3)] by (rule ext)
  moreover have "nd_ring x = nd_ring y"
    using wf_worldD [OF wf_gossip_rounds [OF assms(1,2)]] assms(6,7) tables
    by (intro ring_ok_unique [of "nd_table x" _ "nd_table y"]) (auto simp: wf_node_def wf_member_def)
  ultimately show ?thesis
    using newest [OF assms(6)] by (simp add: preferenceListForKey_def unreachableSnapshot_def)
qed


text \<open>Three nodes of which \<open>A\<close> knows all and the others themselves; \<open>A\<close> calls the others in turn.\<close>

definition turns :: env where
  "turns = calm\<lparr>choice_at := (\<lambda>t. t div 2)\<rparr>"

definition star_world :: world where
  "star_world = \<lparr>nodes = [''A'' \<mapsto> bare_node ''A'' [''A'', ''B'', ''C''], ''B'' \<mapsto> bare_node ''B'' [''B''],
     ''C'' \<mapsto> bare_node ''C'' [''C'']], jobs = [], tick = 0\<rparr>"

lemmas star_eval = contact_def star_world_def bare_node_def bare_entry_def selectGossipTarget_def
  gossip_candidates_def turns_def gossipRound_def SendGossip_def rpc_def GossipExchange_def applyGossip_def
  apply_response_def update_node_def advance_def set_node_def incoming_wins_def put_tokens_def

lemma star_met:
  "met turns [''A'', ''A''] star_world = {(''A'', ''B''), (''B'', ''A''), (''A'', ''C''), (''C'', ''A'')}"
  by (simp add: star_eval insert_commute)

lemma mod_two: "Suc (Suc n) mod Suc (Suc 0) = n mod Suc (Suc 0)"
  by (metis mod2_Suc_Suc numeral_2_eq_2)

lemma star_met_again:
  "met turns [''A'', ''A''] (gossip_rounds turns [''A'', ''A''] star_world) =
     {(''A'', ''B''), (''B'', ''A''), (''A'', ''C''), (''C'', ''A'')}"
  by (simp add: star_eval mod_two insert_commute)

lemma wf_star_world: "wf_world (\<lambda>_. {}) star_world"
  using wf_bare_node [of "''A''" "[''A'', ''B'', ''C'']"] wf_bare_node [of "''B''" "[''B'']"]
    wf_bare_node [of "''C''" "[''C'']"]
  by (auto simp: wf_world_def star_world_def bare_node_def)

lemma bare_table: "map_of (nd_table (bare_node m ms)) n = (if n \<in> set ms then Some (bare_entry n) else None)"
  by (simp only: bare_node_def node.simps bare_lookup)

lemma star_entry:
  "entry star_world a n = (if a = ''A'' then if n \<in> {''A'', ''B'', ''C''} then Some (bare_entry n) else None
     else if a = ''B'' \<and> n = ''B'' \<or> a = ''C'' \<and> n = ''C'' then Some (bare_entry n) else None)"
  by (auto simp: entry_def star_world_def bare_table)

lemma star_stamps: "stamps_unique star_world"
proof -
  have "x = bare_entry n" if "entry star_world a n = Some x" for a n x
    using that unfolding star_entry by (metis option.distinct(1) option.inject)
  then show ?thesis unfolding stamps_unique_def by metis
qed

lemma star_running: "nodes star_world p \<noteq> None \<longleftrightarrow> p \<in> {''A'', ''B'', ''C''}"
  by (simp add: star_world_def)

theorem gossip_spreads_newest_witness:
  "\<exists>nd. nodes (gossip_rounds turns [''A'', ''A''] star_world) ''C'' = Some nd \<and>
     map_of (nd_table nd) ''B'' = Some (bare_entry ''B'')"
proof -
  have "nodes (gossip_rounds turns [''A'', ''A''] star_world) ''C'' \<noteq> None"
    unfolding running_gossip_rounds by (simp add: star_world_def)
  then obtain nd where nd: "nodes (gossip_rounds turns [''A'', ''A''] star_world) ''C'' = Some nd" by auto
  have "(''A'', ''C'') \<in> met turns [''A'', ''A''] star_world" unfolding star_met by simp
  from met_informed [OF this, of "\<lambda>s. {s}"]
  have "''A'' \<in> informed turns [''A'', ''A''] star_world (\<lambda>s. {s}) ''C''" by simp
  with gossip_spreads_newest [OF wf_star_world bare_disjoint nd, of "''B''"] nd show ?thesis
    by (auto simp: newest_of_def star_entry split: option.splits if_splits)
qed

theorem gossip_converges_witness:
  "\<exists>b c. nodes (gossip_rounds turns [''A'', ''A'', ''A'', ''A''] star_world) ''B'' = Some b \<and>
     nodes (gossip_rounds turns [''A'', ''A'', ''A'', ''A''] star_world) ''C'' = Some c \<and>
     map_of (nd_table b) = map_of (nd_table c)"
proof -
  let ?w = "gossip_rounds turns ([''A'', ''A''] @ [''A'', ''A''] @ []) star_world"
  have "nodes ?w ''B'' \<noteq> None" "nodes ?w ''C'' \<noteq> None"
    unfolding running_gossip_rounds by (simp_all add: star_world_def)
  then obtain b c where bc: "nodes ?w ''B'' = Some b" "nodes ?w ''C'' = Some c" by auto
  have "\<forall>p. nodes star_world p \<noteq> None \<and> p \<noteq> ''A'' \<longrightarrow> (p, ''A'') \<in> met turns [''A'', ''A''] star_world"
    "\<forall>p. nodes star_world p \<noteq> None \<and> p \<noteq> ''A'' \<longrightarrow>
       (''A'', p) \<in> met turns [''A'', ''A''] (gossip_rounds turns [''A'', ''A''] star_world)"
    unfolding star_running star_met star_met_again by blast+
  from gossip_converges [OF wf_star_world bare_disjoint star_stamps this bc] bc show ?thesis by simp
qed

text \<open>In the witness \<open>A\<close> has removed \<open>D\<close>, and then calls \<open>B\<close>, which does not know it yet.\<close>

definition removal_world :: world where
  "removal_world = demo_world (snd (RemoveNode ''D'' 5 (demo_node ''A'' [] Map.empty Map.empty)))
     (demo_node ''B'' [] Map.empty Map.empty) (demo_node ''C'' [] Map.empty Map.empty)"

lemma wf_removal_world: "wf_world demo_T removal_world"
proof -
  have wf: "wf_node demo_T (demo_node n [] Map.empty Map.empty)" if "n \<in> {''A'', ''B'', ''C''}" for n
    using that by (intro wf_demo_node) (auto simp: wf_store_def wf_hint_table_def)
  moreover have "nd_id (snd (RemoveNode ''D'' 5 (demo_node ''A'' [] Map.empty Map.empty))) = ''A''"
    by (simp add: RemoveNode_def split: option.split)
  ultimately show ?thesis
    unfolding removal_world_def by (intro wf_demo_world wf_RemoveNode tokens_disjoint_demo) auto
qed

definition removed_D :: MembershipEntry where
  "removed_D = \<lparr>me_writer_id = ''A'', address = ''D'', status = REMOVED, tokens = [], me_last_updated = 5\<rparr>"

lemma removal_entry:
  "entry removal_world a ''D'' = (if a = ''A'' then Some removed_D
     else if a \<in> {''B'', ''C''} then Some (demo_entry ''D'' 40) else None)"
  by (auto simp: entry_def removal_world_def RemoveNode_def demo_lookup demo_entry_def removed_D_def alist_simps)

theorem removal_spreads_witness:
  "\<exists>nd. nodes (gossip_rounds calm [''A''] removal_world) ''B'' = Some nd \<and>
     (\<forall>k N p. \<not> (p \<in> set (preferenceListForKey nd k N) \<and> ple_node_id p = ''D''))"
proof -
  have "nodes (gossip_rounds calm [''A''] removal_world) ''B'' \<noteq> None"
    unfolding running_gossip_rounds by (simp add: removal_world_def)
  then obtain nd where nd: "nodes (gossip_rounds calm [''A''] removal_world) ''B'' = Some nd" by auto
  have "(''A'', ''B'') \<in> met calm [''A''] removal_world"
    by (simp add: contact_def removal_world_def RemoveNode_def demo_lookup demo_entry_def
        selectGossipTarget_def gossip_candidates_def demo_table_def)
  from met_informed [OF this, of "\<lambda>s. {s}"]
  have "''A'' \<in> informed calm [''A''] removal_world (\<lambda>s. {s}) ''B''" by simp
  moreover have "entry removal_world ''A'' ''D'' = Some removed_D" by (simp add: removal_entry)
  moreover have "\<forall>b x. entry removal_world b ''D'' = Some x \<and> status x = UP \<longrightarrow> incoming_wins removed_D x"
    by (auto simp: removal_entry removed_D_def demo_entry_def incoming_wins_def split: if_splits)
  moreover have "status removed_D = REMOVED" by (simp add: removed_D_def)
  ultimately have "\<forall>k N. \<forall>p \<in> set (preferenceListForKey nd k N). ple_node_id p \<noteq> ''D''"
    using removal_spreads [OF wf_removal_world tokens_disjoint_demo _ _ _ _ nd, of "''A''" "''D''" removed_D]
    by blast
  with nd show ?thesis by blast
qed

end
