(* ===== verification/Register.thy ===== *)
theory Register
  imports Drift_Client
begin

text \<open>
  What a cluster is for its clients when nothing fails: a map from keys to values.  The specification
  is the plain map \<open>map_run\<close>; the theorem at the end shows that a healthy cluster of any size answers
  any sequence of puts and gets, of any number of clients (\<^verbatim>\<open>driftclient.hpp\<close>) and through any of
  its servers (\<^verbatim>\<open>node_kv.cpp\<close>), as the map does.
\<close>

subsection \<open>Healthy clusters\<close>

text \<open>
  All servers have the same ring and replication factor, there are at least as many nodes on the ring as
  replicas, all of them run, and no server is removed or distrusts another one.
\<close>

definition healthy :: "ring \<Rightarrow> int \<Rightarrow> world \<Rightarrow> bool" where
  "healthy r N w \<longleftrightarrow> N \<le> int (card (set (ring_nodes r))) \<and> (\<forall>n \<in> set (ring_nodes r). nodes w n \<noteq> None) \<and>
     (\<forall>a nd. nodes w a = Some nd \<longrightarrow>
        nd_ring nd = r \<and> nd_N nd = N \<and> nd_unreachable nd = [] \<and> isSelfRemoved nd = Some False)"

abbreviation owners :: "ring \<Rightarrow> int \<Rightarrow> key \<Rightarrow> node_id list" where
  "owners r N k \<equiv> natural_owners r (key_hash k) N"

text \<open>The owners of every key agree on its version; while a write runs, those in \<open>S\<close> have not got it yet.\<close>

definition holds :: "ring \<Rightarrow> int \<Rightarrow> (key \<rightharpoonup> VersionedValue) \<Rightarrow> world \<Rightarrow> bool" where
  "holds r N M w \<longleftrightarrow> (\<forall>a nd k. nodes w a = Some nd \<longrightarrow> a \<in> set (owners r N k) \<longrightarrow> nd_kv nd k = M k)"

definition writing :: "ring \<Rightarrow> int \<Rightarrow> (key \<rightharpoonup> VersionedValue) \<Rightarrow> key \<Rightarrow> VersionedValue \<Rightarrow> node_id set \<Rightarrow> world \<Rightarrow> bool" where
  "writing r N M k new S w \<longleftrightarrow> (\<forall>a nd l. nodes w a = Some nd \<longrightarrow> a \<in> set (owners r N l) \<longrightarrow>
     nd_kv nd l = (if l = k \<and> a \<notin> S then Some new else M l))"

definition small :: "nat \<Rightarrow> vector_clock \<Rightarrow> bool" where
  "small n c \<longleftrightarrow> (\<forall>a. unat (counter_of c a) \<le> n)"

lemma healthy_node:
  assumes "healthy r N w" and "nodes w a = Some nd"
  shows "nd_ring nd = r" and "nd_N nd = N" and "nd_unreachable nd = []" and "isSelfRemoved nd = Some False"
  using assms by (simp_all add: healthy_def)

lemma healthy_store:
  assumes "healthy r N w" and "nodes w p = Some nd" and "nodes x = nodes w"
  shows "healthy r N (set_node p (nd\<lparr>nd_kv := kv\<rparr>) x)"
  using assms by (auto simp: healthy_def isSelfRemoved_def)

lemma healthy_list:
  assumes "healthy r N w" and "nodes w a = Some nd"
  shows "preferenceListForKey nd k (nd_N nd) = map natural_entry (owners r N k)"
  using healthy_node [OF assms]
  by (simp add: preferenceListForKey_def unreachableSnapshot_def preferenceList_eq_spec preference_spec_def)

lemma healthy_owners:
  assumes "healthy r N w"
  shows "length (owners r N k) = nat N" and "p \<in> set (owners r N k) \<Longrightarrow> nodes w p \<noteq> None"
proof -
  have "length (clockwise r (key_hash k)) = card (set (ring_nodes r))"
    using distinct_card [of "clockwise r (key_hash k)"] by (simp add: set_clockwise)
  then show "length (owners r N k) = nat N" using assms by (auto simp: natural_owners_def healthy_def min_def)
  show "p \<in> set (owners r N k) \<Longrightarrow> nodes w p \<noteq> None"
    using assms by (auto simp: healthy_def natural_owners_def set_clockwise dest!: in_set_takeD)
qed

lemma healthy_quorum:
  assumes "healthy r N w" and "wf_world T w" and "nodes w a = Some nd"
  shows "1 \<le> N" and "1 \<le> nd_W nd" and "nd_W nd \<le> N" and "nd_R nd \<le> N" and "1 \<le> nd_R nd"
  using wf_worldD [OF assms(2,3)] healthy_node [OF assms(1,3)]
  by (auto simp: wf_node_def wf_member_def valid_quorum_def)

lemma small_Suc: "small n c \<Longrightarrow> small (Suc n) c"
  by (auto simp: small_def intro: le_SucI)

lemma small_empty: "small n empty_clock"
  by (simp add: small_def counter_of_empty)

text \<open>The clock of a write that builds on small clocks.\<close>

lemma next_clock:
  assumes "wf_clock_opt ctx" and "wf_clock_opt loc" and "small n (value_or_empty ctx)"
    and "small n (value_or_empty loc)" and "n < 2 ^ 64 - 1"
  shows "small (Suc n) (buildNewClock ctx loc a now)"
    and "counter_of (value_or_empty loc) < counter_of (buildNewClock ctx loc a now)"
    and "counters (buildNewClock ctx loc a now) \<noteq> []"
proof -
  have base: "unat (base_counter ctx loc b) \<le> n" for b
    using assms(3,4) by (simp add: base_counter_def small_def max_def)
  have "base_counter ctx loc a \<noteq> - 1"
  proof
    assume "base_counter ctx loc a = - 1"
    then show False using base [of a] assms(5) unat_max_counter by simp
  qed
  note above = buildNewClock_above [OF assms(1,2) this, of now]
  show "counter_of (value_or_empty loc) < counter_of (buildNewClock ctx loc a now)" by (rule above(2))
  show "small (Suc n) (buildNewClock ctx loc a now)"
    using base unat_Suc_upper [of "base_counter ctx loc a"]
    by (auto simp: small_def counter_buildNewClock [OF assms(1,2)] intro: le_SucI order_trans)
  show "counters (buildNewClock ctx loc a now) \<noteq> []"
  proof
    assume "counters (buildNewClock ctx loc a now) = []"
    then have "counter_of (buildNewClock ctx loc a now) = (\<lambda>_. 0)"
      by (simp add: counter_of_def count_in_def fun_eq_iff)
    with above(2) show False by (auto simp: less_fun_def le_fun_def)
  qed
qed


subsection \<open>A write to all owners\<close>

definition natural_task :: "node_id list \<Rightarrow> node_id \<Rightarrow> put_task" where
  "natural_task ids p = initial_task ids (natural_entry p)"

lemma natural_task_simps [simp]:
  "pt_target (natural_task ids p) = p" "pt_hint (natural_task ids p) = False"
  by (simp_all add: natural_task_def initial_task_def)

lemma task_step_healthy:
  assumes "task_step E self k v c (natural_task ids p) w = (cont, ack, w1)" and "wf_world T w"
    and "healthy r N w" and "writing r N M k (vv v c) S w" and "\<forall>t. fate_at E t = Delivered"
    and "p \<in> set (owners r N k)" and "p \<in> S" and "wf_clock c"
    and "\<And>x. M k = Some x \<Longrightarrow> vv_counters x < counter_of c"
  shows "cont = None" and "ack" and "wf_world T w1" and "healthy r N w1"
    and "writing r N M k (vv v c) (S - {p}) w1"
proof -
  obtain nd where nd: "nodes w p = Some nd" using healthy_owners(2) [OF assms(3,6)] by blast
  note h = healthy_node [OF assms(3) nd] and wf = wf_worldD [OF assms(2) nd]
  let ?nd = "nd\<lparr>nd_kv := (nd_kv nd)(k \<mapsto> vv v c)\<rparr>"
  have held: "nd_kv nd k = M k" using assms(4,6,7) nd by (simp add: writing_def)
  have "storeReplicatedWrite k (vv v c) nd = (STORED, ?nd)"
  proof (cases "M k")
    case None
    with held show ?thesis by (simp add: storeReplicatedWrite_def)
  next
    case (Some x)
    then have "wf_clock (vv_clock x)" using wf held by (auto simp: wf_node_def wf_store_def)
    then have "compareVectorClocks (vv_clock x) c = DOMINATED"
      using assms(8) assms(9) [OF Some] by (simp add: vc.cmp_DOMINATED)
    with held Some show ?thesis by (simp add: storeReplicatedWrite_def)
  qed
  then have step: "task_step E self k v c (natural_task ids p) w = (None, True, set_node p ?nd (advance w))"
    using nd h(4) assms(5)
    by (simp add: task_step_def rpc_def ReplicateWrite_def task_request_def)
  with assms(1) have r: "cont = None" "ack" "w1 = set_node p ?nd (advance w)" by auto
  then show "cont = None" "ack" by simp_all
  have "wf_node T ?nd" using wf assms(8) by (auto simp: wf_node_def wf_member_def wf_store_def)
  then show "wf_world T w1" using r(3) wf assms(2) by (simp add: wf_set_node wf_advance)
  show "healthy r N w1" unfolding r(3) using assms(3) nd by (rule healthy_store) simp
  show "writing r N M k (vv v c) (S - {p}) w1"
    unfolding writing_def
  proof (intro allI impI)
    fix a m l assume m: "nodes w1 a = Some m" and a: "a \<in> set (owners r N l)"
    show "nd_kv m l = (if l = k \<and> a \<notin> S - {p} then Some (vv v c) else M l)"
    proof (cases "a = p")
      case True
      then have "m = ?nd" using m r(3) by simp
      moreover have "nd_kv nd l = (if l = k \<and> p \<notin> S then Some (vv v c) else M l)"
        using assms(4) nd a unfolding writing_def True by blast
      ultimately show ?thesis using True by simp
    next
      case False
      then have "nodes w a = Some m" using m r(3) by simp
      then have "nd_kv m l = (if l = k \<and> a \<notin> S then Some (vv v c) else M l)"
        using assms(4) a unfolding writing_def by blast
      with False show ?thesis by simp
    qed
  qed
qed

lemma run_writes_healthy:
  assumes "run_writes E self k v c (map (natural_task ids) ps) acks w = (acks', w')" and "wf_world T w"
    and "healthy r N w" and "writing r N M k (vv v c) (set ps) w" and "\<forall>t. fate_at E t = Delivered"
    and "set ps \<subseteq> set (owners r N k)" and "distinct ps" and "wf_clock c"
    and "\<And>x. M k = Some x \<Longrightarrow> vv_counters x < counter_of c"
  shows "acks' = acks + length ps" and "wf_world T w'" and "healthy r N w'"
    and "writing r N M k (vv v c) {} w'"
proof -
  define P where "P A n x \<longleftrightarrow> (\<exists>S \<subseteq> set ps. A = image_mset (natural_task ids) (mset_set S) \<and>
      n + card S = acks + length ps \<and> wf_world T x \<and> healthy r N x \<and> writing r N M k (vv v c) S x)"
    for A n x
  have "P (mset (map (natural_task ids) ps)) acks w"
    unfolding P_def using assms(2-4,7)
    by (intro exI [of _ "set ps"]) (simp add: mset_set_set distinct_card)
  then have "P {#} acks' w'"
  proof (rule run_writes_invariant [where P = P, OF assms(1)])
    fix t A n x cont ack x1
    assume t: "t \<in># A" and P: "P A n x" and step: "task_step E self k v c t x = (cont, ack, x1)"
    obtain S where S: "S \<subseteq> set ps" "A = image_mset (natural_task ids) (mset_set S)"
      "n + card S = acks + length ps" "wf_world T x" "healthy r N x" "writing r N M k (vv v c) S x"
      using P by (auto simp: P_def)
    have fin: "finite S" using S(1) finite_subset by blast
    obtain p where p: "p \<in> S" "t = natural_task ids p" using t S(2) fin by auto
    have "p \<in> set (owners r N k)" using p(1) S(1) assms(6) by blast
    note new = task_step_healthy [OF step [unfolded p(2)] S(4-6) assms(5) this p(1) assms(8,9)]
    have "A - {#t#} = image_mset (natural_task ids) (mset_set (S - {p}))"
      using S(2) p fin by (simp add: mset_set_Diff image_mset_Diff)
    moreover have "card S = Suc (card (S - {p}))" using fin p(1) by (rule card.remove)
    ultimately show "P (A - {#t#} + (case cont of None \<Rightarrow> {#} | Some t' \<Rightarrow> {#t'#}))
        (if ack then n + 1 else n) x1"
      unfolding P_def using S(1,3) new by (intro exI [of _ "S - {p}"]) auto
  qed
  then obtain S where S: "S \<subseteq> set ps" "{#} = image_mset (natural_task ids) (mset_set S)"
    "acks' + card S = acks + length ps" "wf_world T w'" "healthy r N w'" "writing r N M k (vv v c) S w'"
    by (auto simp: P_def)
  have "finite S" using S(1) finite_subset by blast
  then have "S = {}" using S(2) by (metis image_mset_is_empty_iff mset_set_empty_iff)
  with S show "acks' = acks + length ps" "wf_world T w'" "healthy r N w'" "writing r N M k (vv v c) {} w'"
    by auto
qed


text \<open>The state between two operations: \<open>M\<close> is the version of every key.\<close>

definition quiet :: "(node_id \<Rightarrow> u64 set) \<Rightarrow> ring \<Rightarrow> int \<Rightarrow> (key \<rightharpoonup> VersionedValue) \<Rightarrow> nat \<Rightarrow> world \<Rightarrow> bool" where
  "quiet T r N M n w \<longleftrightarrow> wf_world T w \<and> healthy r N w \<and> holds r N M w \<and>
     (\<forall>k x. M k = Some x \<longrightarrow> wf_clock (vv_clock x) \<and> small n (vv_clock x))"

lemma quiet_cong: "nodes w' = nodes w \<Longrightarrow> jobs w' = jobs w \<Longrightarrow> quiet T r N M n w' = quiet T r N M n w"
  by (simp add: quiet_def healthy_def holds_def wf_world_def)

lemma quiet_advance: "quiet T r N M n w \<Longrightarrow> quiet T r N M n (advance w)"
  using quiet_cong [of "advance w" w T r N M n] by simp

definition written :: "(node_id \<Rightarrow> u64 set) \<Rightarrow> ring \<Rightarrow> int \<Rightarrow> (key \<rightharpoonup> VersionedValue) \<Rightarrow> nat \<Rightarrow> key \<Rightarrow> string
    \<Rightarrow> PutResponse \<Rightarrow> world \<Rightarrow> bool" where
  "written T r N M n k v resp w \<longleftrightarrow> pr_success resp \<and> pr_acks resp = nat N \<and>
     wf_clock (pr_context resp) \<and> small n (pr_context resp) \<and> counters (pr_context resp) \<noteq> [] \<and>
     quiet T r N (M(k \<mapsto> vv v (pr_context resp))) n w"

lemma local_write_healthy:
  assumes "local_write E self k v ctx (natural_entry self) w = (c, w1)" and "quiet T r N M n w"
    and "nodes w self = Some nd" and "self \<in> set (owners r N k)" and "wf_clock_opt ctx"
    and "small n (value_or_empty ctx)" and "n < 2 ^ 64 - 1"
  shows "wf_clock c" and "small (Suc n) c" and "counters c \<noteq> []" and "M k = Some x \<Longrightarrow> vv_counters x < counter_of c"
    and "healthy r N w1" and "writing r N M k (vv v c) (set (owners r N k) - {self}) w1"
proof -
  have q: "wf_world T w" "healthy r N w" "holds r N M w"
    "\<And>k x. M k = Some x \<Longrightarrow> wf_clock (vv_clock x) \<and> small n (vv_clock x)"
    using assms(2) by (auto simp: quiet_def)
  have id: "nd_id nd = self" and held: "nd_kv nd k = M k"
    using wf_worldD [OF q(1) assms(3)] q(3) assms(3,4) by (auto simp: holds_def)
  let ?loc = "map_option vv_clock (M k)"
  have loc: "wf_clock_opt ?loc" "small n (value_or_empty ?loc)"
    using q(4) by (cases "M k"; simp add: small_empty wf_clock_opt_simps value_or_empty_simps)+
  let ?nd = "nd\<lparr>nd_kv := (nd_kv nd)(k \<mapsto> vv v c)\<rparr>"
  have c: "c = buildNewClock ctx ?loc self (clock_at E (tick w))" and w1: "w1 = set_node self ?nd (advance w)"
    using assms(1,3) id held by (auto simp: local_write_def commitCoordinatedWrite_def Let_def)
  note new = next_clock [OF assms(5) loc(1) assms(6) loc(2) assms(7), of self "clock_at E (tick w)", folded c]
  show "wf_clock c" unfolding c using assms(5) loc(1) by (rule wf_buildNewClock)
  show "small (Suc n) c" "counters c \<noteq> []" by (rule new)+
  show "M k = Some x \<Longrightarrow> vv_counters x < counter_of c" using new(2) by (simp add: value_or_empty_simps)
  show "healthy r N w1" unfolding w1 using q(2) assms(3) by (rule healthy_store) simp
  show "writing r N M k (vv v c) (set (owners r N k) - {self}) w1"
    unfolding writing_def
  proof (intro allI impI)
    fix a m l assume m: "nodes w1 a = Some m" and a: "a \<in> set (owners r N l)"
    have keep: "nd_kv y l = M l" if "nodes w a = Some y" for y
      using q(3) a that unfolding holds_def by blast
    show "nd_kv m l = (if l = k \<and> a \<notin> set (owners r N k) - {self} then Some (vv v c) else M l)"
      using m w1 a keep assms(3) by (cases "a = self") auto
  qed
qed

lemma writing_done: "writing r N M k new {} w = holds r N (M(k \<mapsto> new)) w"
  by (simp add: writing_def holds_def fun_upd_def)

lemma find_owner: "self \<in> set ps \<Longrightarrow> find (\<lambda>e. ple_node_id e = self) (map natural_entry ps) = Some (natural_entry self)"
  by (induction ps) auto

lemma coordinatePut_healthy:
  assumes "coordinatePut E self k v ctx (map natural_entry (owners r N k)) (nd_W nd) w = (resp, w')"
    and "quiet T r N M n w" and "nodes w self = Some nd" and "self \<in> set (owners r N k)"
    and "\<forall>t. fate_at E t = Delivered" and "wf_clock_opt ctx" and "small n (value_or_empty ctx)"
    and "n < 2 ^ 64 - 1"
  shows "written T r N M (Suc n) k v resp w'"
proof -
  have q: "wf_world T w" "healthy r N w" using assms(2) by (auto simp: quiet_def)
  note quorum = healthy_quorum [OF q(2,1) assms(3)] and len = healthy_owners(1) [OF q(2), of k]
  from assms(1) find_owner [OF assms(4)] show ?thesis
  proof (cases rule: coordinatePut_cases)
    case refused
    have "nd_W nd mod 2 ^ 64 \<le> nd_W nd" using quorum(2) by (simp add: zmod_le_nonneg_dividend)
    moreover have "int (length (map natural_entry (owners r N k))) = N" using len quorum(1) by simp
    ultimately have False using refused(1) quorum(3) by linarith
    then show ?thesis ..
  next
    case (run c w1 acks)
    let ?ps = "filter (\<lambda>p. p \<noteq> self) (owners r N k)"
    note loc = local_write_healthy [OF run(2) assms(2-4,6-8)]
    have wf1: "wf_world T w1" using local_write_facts(1) [OF run(2) q(1) assms(6,3)] .
    have "map (initial_task ids) (filter (\<lambda>e. ple_node_id e \<noteq> self) (map natural_entry (owners r N k))) =
        map (natural_task ids) ?ps" for ids
      by (simp add: filter_map comp_def natural_task_def)
    note fan = run_writes_healthy [OF run(3) [unfolded this] wf1 loc(5) _ assms(5) _ _ loc(1)]
    have "set ?ps = set (owners r N k) - {self}" by auto
    then have fan: "acks = 1 + length ?ps" "wf_world T w'" "healthy r N w'" "writing r N M k (vv v c) {} w'"
      using fan [OF _ _ _ loc(4)] loc(6) by simp_all
    have "length ?ps = card (set (owners r N k) - {self})"
      using distinct_card [of ?ps] by (simp add: set_diff_eq)
    also have "\<dots> = length (owners r N k) - 1"
      using assms(4) by (simp add: distinct_card)
    finally have "acks = nat N" using fan(1) len quorum(1) by simp
    moreover have "quiet T r N (M(k \<mapsto> vv v c)) (Suc n) w'"
      using fan(2-4) loc(1,2) assms(2) by (auto simp: quiet_def writing_done intro: small_Suc)
    ultimately show ?thesis
      using run(4) loc(1-3) quorum by (simp add: written_def)
  qed
qed


text \<open>A put is written whichever server takes it: a server that is not an owner forwards it to one.\<close>

lemma Put_owner:
  assumes "quiet T r N M n w" and "nodes w self = Some nd" and "self \<in> set (owners r N (pq_key req))"
    and "\<forall>t. fate_at E t = Delivered" and "wf_clock (pq_context req)" and "small n (pq_context req)"
    and "n < 2 ^ 64 - 1"
  shows "\<exists>resp w'. Put E self req w = (Some resp, w') \<and>
    written T r N M (Suc n) (pq_key req) (pq_value req) resp w'"
proof -
  have h: "healthy r N w" using assms(1) by (simp add: quiet_def)
  note pref = healthy_list [OF h assms(2), of "pq_key req"]
  obtain resp w' where c: "coordinatePut E self (pq_key req) (pq_value req) (Some (pq_context req))
      (map natural_entry (owners r N (pq_key req))) (nd_W nd) w = (resp, w')"
    by fastforce
  have "Put E self req w = (Some resp, w')"
    using c find_owner [OF assms(3)] healthy_node(4) [OF h assms(2)]
    by (intro Put_coordinates [OF assms(2), where e = "natural_entry self"]) (simp_all add: pref)
  moreover have "written T r N M (Suc n) (pq_key req) (pq_value req) resp w'"
    by (rule coordinatePut_healthy [OF c assms(1-4)]) (use assms(5-7) in simp_all)
  ultimately show ?thesis by blast
qed

lemma Put_healthy:
  assumes "quiet T r N M n w" and "nodes w self = Some nd" and "pq_forwarded req = False"
    and "\<forall>t. fate_at E t = Delivered" and "wf_clock (pq_context req)" and "small n (pq_context req)"
    and "n < 2 ^ 64 - 1"
  shows "\<exists>resp w'. Put E self req w = (Some resp, w') \<and>
    written T r N M (Suc n) (pq_key req) (pq_value req) resp w'"
proof (cases "self \<in> set (owners r N (pq_key req))")
  case True
  then show ?thesis using assms by (intro Put_owner)
next
  case False
  have h: "healthy r N w" and wf: "wf_world T w" using assms(1) by (auto simp: quiet_def)
  let ?os = "owners r N (pq_key req)"
  have ne: "?os \<noteq> []" using healthy_owners(1) [OF h, of "pq_key req"] healthy_quorum(1) [OF h wf assms(2)] by force
  obtain p rest where rot: "rotate (choice_at E (tick w) mod length ?os) ?os = p # rest"
    using ne by (metis list.exhaust rotate_is_Nil_conv)
  have p: "p \<in> set ?os" using rot by (metis list.set_intros(1) set_rotate)
  then obtain pd where pd: "nodes w p = Some pd" using healthy_owners(2) [OF h] by blast
  have q: "quiet T r N M n (advance (advance w))" using assms(1) by (intro quiet_advance)
  have "nodes (advance (advance w)) p = Some pd" using pd by simp
  from Put_owner [OF q this, of "req\<lparr>pq_forwarded := True\<rparr>" E] p assms(4-7) obtain resp w' where
    put: "Put E p (req\<lparr>pq_forwarded := True\<rparr>) (advance (advance w)) = (Some resp, w')"
      "written T r N M (Suc n) (pq_key req) (pq_value req) resp w'" by auto
  have "forward_loop E self (p # rest) req (advance w) = (resp, w')"
    using put(1) assms(4) by simp
  moreover have "map ple_node_id (map natural_entry ?os) = ?os" by (simp add: comp_def)
  ultimately have "Put E self req w = (Some resp, w')"
    using False assms(2,3) healthy_node(4) [OF h assms(2)] rot
    by (simp add: Put.simps Let_def healthy_list [OF h assms(2)] comp_def image_image
        del: forward_loop.simps)
  with put(2) show ?thesis by blast
qed

subsection \<open>A read from all owners\<close>

definition says :: "(key \<rightharpoonup> VersionedValue) \<Rightarrow> key \<Rightarrow> ReplicaResult \<Rightarrow> bool" where
  "says M k x \<longleftrightarrow> (if rr_found x then Some \<lparr>vv_value = rr_value x, vv_clock = rr_clock x\<rparr> else None) = M k"

lemma says_simps:
  "M k = Some v \<Longrightarrow> says M k \<lparr>rr_peer_id = p, rr_found = True, rr_value = vv_value v, rr_clock = vv_clock v\<rparr>"
  "M k = None \<Longrightarrow> says M k \<lparr>rr_peer_id = p, rr_found = False, rr_value = x, rr_clock = c\<rparr>"
  by (simp_all add: says_def)

lemma says_local: "nd_kv nd k = M k \<Longrightarrow> says M k (local_result nd k)"
  by (cases "M k") (auto simp: says_simps local_result_def localGet_def)

lemma read_step_healthy:
  assumes "read_step E self k p results w = (results', w')" and "nodes w p = Some nd"
    and "isSelfRemoved nd = Some False" and "nd_kv nd k = M k" and "\<forall>t. fate_at E t = Delivered"
  shows "(\<exists>x. results' = results @ [x] \<and> says M k x) \<and> nodes w' = nodes w \<and> jobs w' = jobs w"
  using assms
  by (cases "M k") (auto simp: read_step_def rpc_def ReplicateRead_def localGet_def says_simps)

lemma run_reads_healthy:
  assumes "run_once E (read_step E self k) ps results w = (results', w')"
    and "\<forall>p \<in> set ps. \<exists>nd. nodes w p = Some nd \<and> isSelfRemoved nd = Some False \<and> nd_kv nd k = M k"
    and "\<forall>t. fate_at E t = Delivered" and "\<forall>x \<in> set results. says M k x"
  shows "length results' = length results + length ps \<and> (\<forall>x \<in> set results'. says M k x) \<and>
    nodes w' = nodes w \<and> jobs w' = jobs w"
proof -
  define P where "P A rs x \<longleftrightarrow> length rs + size A = length results + length ps \<and> (\<forall>y \<in> set rs. says M k y) \<and>
    nodes x = nodes w \<and> jobs x = jobs w" for A :: "node_id multiset" and rs and x :: world
  have "P (mset ps) results w" using assms(4) by (simp add: P_def)
  with assms(1) have "P {#} results' w'"
  proof (rule run_once_invariant [where P = P])
    fix p A rs x rs1 x1
    assume p: "p \<in># A" "set_mset A \<subseteq> set ps" and P: "P A rs x" and step: "read_step E self k p rs x = (rs1, x1)"
    have "p \<in> set ps" using p by blast
    then obtain nd where "nodes x p = Some nd" "isSelfRemoved nd = Some False" "nd_kv nd k = M k"
      using assms(2) P by (auto simp: P_def)
    note read = read_step_healthy [where M = M, OF step this assms(3)]
    have "size A = Suc (size (A - {#p#}))" using p(1) by (simp add: size_Suc_Diff1)
    with read P show "P (A - {#p#}) rs1 x1" by (auto simp: P_def)
  qed
  then show ?thesis by (simp add: P_def)
qed

text \<open>Answers that agree: their resolution is the common version, and nobody needs a repair.\<close>

lemma agreed_answers:
  assumes "\<forall>x \<in> set results. says M k x" and "results \<noteq> []" and "M k = Some v" and "wf_clock (vv_clock v)"
  shows "found_versions results \<noteq> []" and "filter (stale v) results = []"
    and "\<exists>res. resolveGetResult (found_versions results) = Some res \<and> winner res = v"
proof -
  have all: "rr_found x \<and> \<lparr>vv_value = rr_value x, vv_clock = rr_clock x\<rparr> = v" if "x \<in> set results" for x
    using that assms(1,3) by (auto simp: says_def split: if_splits)
  then have "found_versions results = map (\<lambda>_. v) results"
    by (simp add: found_versions_def cong: filter_cong map_cong)
  with assms(2) have vs: "set (found_versions results) = {v}" by (simp add: image_constant_conv)
  then show ne: "found_versions results \<noteq> []" by auto
  have wf: "wf_versions (found_versions results)" using vs assms(4) by (simp add: wf_versions_def)
  obtain res where res: "resolveGetResult (found_versions results) = Some res"
    using resolveGetResult_total [OF wf ne] by blast
  have "winner res \<in> set (found_versions results)"
    by (rule subsetD [OF frontier_subset [OF wf] resolveGetResult_winner [OF wf res]])
  with res show "\<exists>res. resolveGetResult (found_versions results) = Some res \<and> winner res = v" by (simp add: vs)
  show "filter (stale v) results = []"
    using all assms(4) by (fastforce simp: filter_empty_conv stale_def vc.cmp_refl)
qed

lemma length_own_and_peers:
  assumes "distinct xs"
  shows "length (if a \<in> set xs then [x] else []) + length (filter (\<lambda>p. p \<noteq> a) xs) = length xs"
  using assms by (induction xs) (auto simp: filter_id_conv)

lemma healthy_reads:
  assumes "quiet T r N M n w" and "nodes w self = Some nd" and "\<forall>t. fate_at E t = Delivered"
    and "run_once E (read_step E self k) (filter (\<lambda>p. p \<noteq> self) (owners r N k))
      (if self \<in> set (owners r N k) then [local_result nd k] else []) w = (results, w1)"
  shows "length results = nat N" and "\<forall>x \<in> set results. says M k x" and "quiet T r N M n w1"
proof -
  have q: "healthy r N w" "holds r N M w" using assms(1) by (auto simp: quiet_def)
  have "\<exists>pd. nodes w p = Some pd \<and> isSelfRemoved pd = Some False \<and> nd_kv pd k = M k"
    if "p \<in> set (owners r N k)" for p
    using that healthy_owners(2) [OF q(1) that] q by (fastforce simp: healthy_def holds_def)
  then have peers: "\<forall>p \<in> set (filter (\<lambda>p. p \<noteq> self) (owners r N k)).
      \<exists>pd. nodes w p = Some pd \<and> isSelfRemoved pd = Some False \<and> nd_kv pd k = M k" by simp
  have "\<forall>x \<in> set (if self \<in> set (owners r N k) then [local_result nd k] else []). says M k x"
    using q(2) assms(2) says_local [of nd k M] by (auto simp: holds_def)
  note col = run_reads_healthy [OF assms(4) peers assms(3) this]
  show "length results = nat N"
    using col length_own_and_peers [of "owners r N k" self "local_result nd k"] healthy_owners(1) [OF q(1)]
    by (metis distinct_naturals)
  show "\<forall>x \<in> set results. says M k x" using col by blast
  show "quiet T r N M n w1" using assms(1) quiet_cong [of w1 w T r N M n] col by blast
qed

lemma Get_healthy:
  assumes "quiet T r N M n w" and "nodes w self = Some nd" and "\<forall>t. fate_at E t = Delivered"
  shows "\<exists>resp w'. Get E self k w = (Some resp, w') \<and> quiet T r N M n w' \<and> ge_responses resp = nat N \<and>
    (if ge_found resp then Some (vv (ge_value resp) (ge_context resp)) else None) = M k \<and>
    (\<not> ge_found resp \<longrightarrow> ge_value resp = [])"
proof -
  have q: "wf_world T w" "healthy r N w" "\<And>k x. M k = Some x \<Longrightarrow> wf_clock (vv_clock x)"
    using assms(1) by (auto simp: quiet_def)
  note h = healthy_node [OF q(2) assms(2)] and quorum = healthy_quorum [OF q(2,1) assms(2)]
    and pref = healthy_list [OF q(2) assms(2), of k]
  let ?os = "owners r N k"
  obtain results w1 where run: "run_once E (read_step E self k) (filter (\<lambda>p. p \<noteq> self) ?os)
      (if self \<in> set ?os then [local_result nd k] else []) w = (results, w1)"
    by fastforce
  note read = healthy_reads [OF assms run]
  have "\<not> int (length ?os) < nd_R nd" "\<not> int (length results) < nd_R nd"
    using healthy_owners(1) [OF q(2), of k] read(1) quorum by simp_all
  then have get: "Get E self k w =
      (if found_versions results = [] then (Some (get_refused\<lparr>ge_responses := length results\<rparr>), w1)
       else (case resolveGetResult (found_versions results) of
               None \<Rightarrow> (None, w1)
             | Some res \<Rightarrow>
                 (Some \<lparr>ge_found = True, ge_value = vv_value (winner res), ge_responses = length results,
                    ge_context = vv_clock (winner res)\<rparr>, start_repair self k (winner res) results w1)))"
    using run by (simp add: Get_def assms(2) h(4) pref comp_def image_image cong: if_cong)
  show ?thesis
  proof (cases "M k")
    case None
    then have "found_versions results = []"
      using read(2) by (auto simp: found_versions_def says_def filter_empty_conv)
    with None read(1,3) show ?thesis by (simp add: get get_refused_def)
  next
    case (Some v)
    have "results \<noteq> []" using read(1) quorum(1) by auto
    note agreed = agreed_answers [OF read(2) this Some q(3) [OF Some]]
    then have "start_repair self k v results w1 = w1" by (simp add: start_repair_def)
    with agreed have "Get E self k w = (Some \<lparr>ge_found = True, ge_value = vv_value v,
        ge_responses = length results, ge_context = vv_clock v\<rparr>, w1)"
      by (auto simp: get)
    with Some read(1,3) show ?thesis by simp
  qed
qed

subsection \<open>Clients\<close>

text \<open>A client whose seeds include a node of the ring, and whose cached clocks are small.\<close>

definition ready :: "ring \<Rightarrow> nat \<Rightarrow> DriftClient \<Rightarrow> bool" where
  "ready r n c \<longleftrightarrow> wf_client c \<and> (\<exists>a \<in> set (dc_seeds c). a \<in> set (ring_nodes r)) \<and>
     (\<forall>k ctx. dc_context c k = Some ctx \<longrightarrow> small n ctx)"

lemma ready_Suc: "ready r n c \<Longrightarrow> ready r (Suc n) c"
  by (auto simp: ready_def intro: small_Suc)

lemma ready_calls: "ready r n c \<Longrightarrow> ready r n (c\<lparr>dc_calls := m\<rparr>)"
  by (simp add: ready_def wf_client_def)

lemma ready_remember:
  "ready r n c \<Longrightarrow> wf_clock ctx \<Longrightarrow> small n ctx \<Longrightarrow> ready r n (c\<lparr>dc_context := (dc_context c)(k \<mapsto> ctx)\<rparr>)"
  by (simp add: ready_def wf_client_def)

text \<open>With delivered calls the first seed that runs answers, and the ones before it change nothing.\<close>

lemma attempts_answered:
  assumes "\<forall>t. fate_at E t = Delivered" and "\<exists>a \<in> set addrs. nodes w a \<noteq> None" and "P w"
    and "\<And>x. P x \<Longrightarrow> P (advance x)" and "\<And>a x. nodes x a = None \<Longrightarrow> call a x = (None, x)"
    and "\<And>a x. P x \<Longrightarrow> nodes x a \<noteq> None \<Longrightarrow> \<exists>resp x'. call a x = (Some resp, x') \<and> Q resp x'"
  shows "\<exists>resp w'. attempt_seeds (dial E call) addrs w = (Some resp, w') \<and> Q resp w'"
  using assms(2,3)
proof (induction addrs arbitrary: w)
  case (Cons a addrs)
  show ?case
  proof (cases "nodes w a")
    case None
    then have "dial E call a w = (None, advance w)" using assms(1,5) by (simp add: dial_def)
    moreover have "\<exists>b \<in> set addrs. nodes (advance w) b \<noteq> None" using Cons.prems(1) None by auto
    ultimately show ?thesis using Cons.IH [of "advance w"] assms(4) [OF Cons.prems(2)] by simp
  next
    case (Some nd)
    then obtain resp x' where "call a (advance w) = (Some resp, x')" "Q resp x'"
      using assms(6) [OF assms(4) [OF Cons.prems(2)], of a] by auto
    then show ?thesis using assms(1) by (simp add: dial_def)
  qed
qed simp

lemma ready_order:
  assumes "ready r n c" and "quiet T r N M l w"
  shows "\<exists>a \<in> set (attempt_order start (dc_seeds c)). nodes w a \<noteq> None"
proof -
  have "set (attempt_order start (dc_seeds c)) = set (dc_seeds c)"
    using attempt_order_perm mset_eq_setD by blast
  moreover have "\<exists>a \<in> set (dc_seeds c). nodes w a \<noteq> None"
    using assms unfolding ready_def quiet_def healthy_def by blast
  ultimately show ?thesis by simp
qed

lemma client_put_healthy:
  assumes "quiet T r N M n w" and "ready r n c" and "\<forall>t. fate_at E t = Delivered" and "n < 2 ^ 64 - 1"
  shows "\<exists>res c' w' x. client_put E k v c w = (res, c', w') \<and> pu_success res \<and> pu_acks res = nat N \<and>
    vv_value x = v \<and> quiet T r N (M(k \<mapsto> x)) (Suc n) w' \<and> ready r (Suc n) c'"
proof -
  let ?req = "client_request c k v" and ?c = "c\<lparr>dc_calls := dc_calls c + 1\<rparr>"
  let ?order = "attempt_order (fst (nextStart c)) (dc_seeds c)"
  have req: "pq_key ?req = k" "pq_value ?req = v" "pq_forwarded ?req = False" "wf_clock (pq_context ?req)"
    "small n (pq_context ?req)"
    using assms(2) wf_client_request [of c k v]
    by (auto simp: client_request_def ready_def small_empty split: option.split)
  have "\<exists>resp w'. attempt_seeds (dial E (\<lambda>addr. Put E addr ?req)) ?order w = (Some resp, w') \<and>
      written T r N M (Suc n) k v resp w'"
  proof (rule attempts_answered [where P = "quiet T r N M n", OF assms(3) ready_order [OF assms(2,1)] assms(1) quiet_advance])
    fix a x assume "quiet T r N M n x" "nodes x a \<noteq> None"
    then show "\<exists>resp x'. Put E a ?req x = (Some resp, x') \<and> written T r N M (Suc n) k v resp x'"
      using Put_healthy [of T r N M n x a _ ?req E] req assms(3,4) by auto
  next
    fix a and x :: world assume "nodes x a = None"
    then show "Put E a ?req x = (None, x)" by (subst Put.simps) simp
  qed
  then obtain resp w' where put: "attempt_seeds (dial E (\<lambda>addr. Put E addr ?req)) ?order w = (Some resp, w')"
    and w: "written T r N M (Suc n) k v resp w'" by blast
  have "ready r (Suc n) (?c\<lparr>dc_context := (dc_context ?c)(k \<mapsto> pr_context resp)\<rparr>)"
    using w assms(2) unfolding written_def by (intro ready_remember ready_Suc ready_calls) simp_all
  then have "ready r (Suc n) (remember_put k resp ?c)"
    using w unfolding written_def remember_put_def by simp
  moreover have "client_put E k v c w =
      (\<lparr>pu_success = pr_success resp, pu_acks = pr_acks resp, pu_context = pr_context resp\<rparr>, remember_put k resp ?c, w')"
    using put by (simp add: client_put_def nextStart_def)
  ultimately show ?thesis
    using w unfolding written_def
    by (intro exI [of _ "\<lparr>pu_success = pr_success resp, pu_acks = pr_acks resp, pu_context = pr_context resp\<rparr>"]
        exI [of _ "remember_put k resp ?c"] exI [of _ w'] exI [of _ "vv v (pr_context resp)"]) simp
qed

lemma client_get_healthy:
  assumes "quiet T r N M n w" and "ready r n c" and "\<forall>t. fate_at E t = Delivered"
  shows "\<exists>res c' w'. client_get E k c w = (res, c', w') \<and> gt_responses res = nat N \<and>
    (case M k of None \<Rightarrow> \<not> gt_found res \<and> gt_value res = [] | Some x \<Rightarrow> gt_found res \<and> gt_value res = vv_value x) \<and>
    quiet T r N M n w' \<and> ready r n c'"
proof -
  let ?c = "c\<lparr>dc_calls := dc_calls c + 1\<rparr>"
  let ?order = "attempt_order (fst (nextStart c)) (dc_seeds c)"
  let ?good = "\<lambda>resp w'. quiet T r N M n w' \<and> ge_responses resp = nat N \<and>
    (if ge_found resp then Some (vv (ge_value resp) (ge_context resp)) else None) = M k \<and>
    (\<not> ge_found resp \<longrightarrow> ge_value resp = [])"
  have "\<exists>resp w'. attempt_seeds (dial E (\<lambda>addr. Get E addr k)) ?order w = (Some resp, w') \<and> ?good resp w'"
  proof (rule attempts_answered [where P = "quiet T r N M n", OF assms(3) ready_order [OF assms(2,1)] assms(1) quiet_advance])
    fix a x assume "quiet T r N M n x" "nodes x a \<noteq> None"
    then show "\<exists>resp x'. Get E a k x = (Some resp, x') \<and> ?good resp x'"
      using Get_healthy [of T r N M n x a _ E k] assms(3) by blast
  next
    fix a and x :: world assume "nodes x a = None"
    then show "Get E a k x = (None, x)" by (simp add: Get_def)
  qed
  then obtain resp w' where get: "attempt_seeds (dial E (\<lambda>addr. Get E addr k)) ?order w = (Some resp, w')"
    and g: "?good resp w'" by blast
  have eq: "client_get E k c w = (\<lparr>gt_found = ge_found resp, gt_value = ge_value resp,
      gt_responses = ge_responses resp, gt_context = ge_context resp\<rparr>, remember_get k resp ?c, w')"
    using get by (simp add: client_get_def nextStart_def)
  show ?thesis
  proof (cases "M k")
    case None
    then have "\<not> ge_found resp" using g by (auto split: if_splits)
    with g None assms(2) show ?thesis by (simp add: eq remember_get_def ready_calls)
  next
    case (Some x)
    then have f: "ge_found resp" "x = vv (ge_value resp) (ge_context resp)" using g by (auto split: if_splits)
    have "wf_clock (vv_clock x) \<and> small n (vv_clock x)" using assms(1) Some unfolding quiet_def by blast
    then have "wf_clock (ge_context resp) \<and> small n (ge_context resp)" by (simp add: f(2))
    then have "ready r n (?c\<lparr>dc_context := (dc_context ?c)(k \<mapsto> ge_context resp)\<rparr>)"
      using assms(2) by (intro ready_remember ready_calls) simp_all
    with g Some f show ?thesis by (simp add: eq remember_get_def)
  qed
qed

subsection \<open>The specification: a map\<close>

datatype client_call = PutCall key string | GetCall key

datatype client_reply = PutReply bool nat | GetReply bool string nat

text \<open>Calls of several clients, one after the other, against the cluster and against a map.\<close>

fun client_run :: "env \<Rightarrow> (nat \<times> client_call) list \<Rightarrow> (nat \<Rightarrow> DriftClient) \<Rightarrow> world \<Rightarrow> client_reply list" where
  "client_run E [] cs w = []"
| "client_run E ((i, PutCall k v) # ops) cs w =
     (case client_put E k v (cs i) w of (res, c, w') \<Rightarrow>
        PutReply (pu_success res) (pu_acks res) # client_run E ops (cs(i := c)) w')"
| "client_run E ((i, GetCall k) # ops) cs w =
     (case client_get E k (cs i) w of (res, c, w') \<Rightarrow>
        GetReply (gt_found res) (gt_value res) (gt_responses res) # client_run E ops (cs(i := c)) w')"

fun map_run :: "nat \<Rightarrow> client_call list \<Rightarrow> (key \<rightharpoonup> string) \<Rightarrow> client_reply list" where
  "map_run n [] m = []"
| "map_run n (PutCall k v # ops) m = PutReply True n # map_run n ops (m(k \<mapsto> v))"
| "map_run n (GetCall k # ops) m =
     (case m k of None \<Rightarrow> GetReply False [] n | Some v \<Rightarrow> GetReply True v n) # map_run n ops m"

subsection \<open>Properties\<close>

text \<open>
C2. A healthy cluster is a map.  If all servers of the ring run, agree on the ring and on the versions of
their keys, and all calls are delivered, then any sequence of puts and gets by any number of clients,
each through whichever server its rotation selects, dead seeds skipped, forwarded or not, with every
order of the fan-out threads, gets exactly the answers that a plain map from keys to values gives:
every put succeeds with \<open>N\<close> acknowledgements, and every get has \<open>N\<close> responses and returns
the value of the last put of its key by any client.  (The counters of the clocks must stay below their
maximum for the length of the run.)
\<close>
theorem healthy_cluster_is_map:
  assumes "quiet T r N M n w" and "\<forall>t. fate_at E t = Delivered" and "\<forall>i. ready r n (cs i)"
    and "n + length ops < 2 ^ 64"
  shows "client_run E ops cs w = map_run (nat N) (map snd ops) (\<lambda>k. map_option vv_value (M k))"
  using assms(1,3,4)
proof (induction ops arbitrary: M n w cs)
  case (Cons p ops)
  obtain i call where p: "p = (i, call)" by (cases p)
  have n: "n < 2 ^ 64 - 1" "Suc n + length ops < 2 ^ 64" "n + length ops < 2 ^ 64" using Cons.prems(3) by auto
  have rd: "ready r n (cs i)" using Cons.prems(2) by blast
  show ?case
  proof (cases call)
    case (PutCall k v)
    obtain res c w' x where put: "client_put E k v (cs i) w = (res, c, w')" "pu_success res" "pu_acks res = nat N"
      "vv_value x = v" "quiet T r N (M(k \<mapsto> x)) (Suc n) w'" "ready r (Suc n) c"
      using client_put_healthy [OF Cons.prems(1) rd assms(2) n(1), of k v] by blast
    have "\<forall>j. ready r (Suc n) ((cs(i := c)) j)" using put(6) Cons.prems(2) ready_Suc by simp
    from Cons.IH [OF put(5) this n(2)] put(4)
    have "client_run E ops (cs(i := c)) w' =
        map_run (nat N) (map snd ops) ((\<lambda>l. map_option vv_value (M l))(k \<mapsto> v))"
      by (simp add: fun_upd_def if_distrib cong: if_cong)
    with p PutCall put(1-3) show ?thesis by simp
  next
    case (GetCall k)
    obtain res c w' where get: "client_get E k (cs i) w = (res, c, w')" "gt_responses res = nat N"
      "case M k of None \<Rightarrow> \<not> gt_found res \<and> gt_value res = [] | Some x \<Rightarrow> gt_found res \<and> gt_value res = vv_value x"
      "quiet T r N M n w'" "ready r n c"
      using client_get_healthy [OF Cons.prems(1) rd assms(2), of k] by blast
    have "\<forall>j. ready r n ((cs(i := c)) j)" using get(5) Cons.prems(2) by simp
    from Cons.IH [OF get(4) this n(3)] p GetCall get(1-3) show ?thesis
      by (simp add: fun_upd_def split: option.splits)
  qed
qed simp

definition demo_cluster :: world where
  "demo_cluster = demo_world4 (demo_node ''A'' [] Map.empty Map.empty) (demo_node ''B'' [] Map.empty Map.empty)
     (demo_node ''C'' [] Map.empty Map.empty) (demo_node ''D'' [] Map.empty Map.empty)"

lemma quiet_demo: "quiet demo_T demo_ring 3 Map.empty 0 demo_cluster"
proof -
  have "wf_node demo_T (demo_node n [] Map.empty Map.empty)" if "n \<in> {''A'', ''B'', ''C'', ''D''}" for n
    using that by (intro wf_demo_node) (simp_all add: wf_store_def wf_hint_table_def)
  then have "wf_world demo_T demo_cluster" unfolding demo_cluster_def by (intro wf_demo_world4) auto
  moreover have "healthy demo_ring 3 demo_cluster"
    by (auto simp: healthy_def demo_cluster_def demo_up ring_nodes_def demo_ring_def split: if_splits)
  ultimately show ?thesis by (auto simp: quiet_def holds_def demo_cluster_def split: if_splits)
qed

theorem healthy_cluster_is_map_witness:
  "client_run calm [(0, PutCall ''k'' ''x''), (1, GetCall ''k''), (1, PutCall ''k'' ''y''), (0, GetCall ''k''),
      (0, GetCall ''l'')]
     (\<lambda>i. \<lparr>dc_seeds = [''Z'', ''D''], dc_calls = 0, dc_context = Map.empty\<rparr>) demo_cluster =
   [PutReply True 3, GetReply True ''x'' 3, PutReply True 3, GetReply True ''y'' 3, GetReply False [] 3]"
proof -
  have "\<forall>i. ready demo_ring 0 \<lparr>dc_seeds = [''Z'', ''D''], dc_calls = 0, dc_context = Map.empty\<rparr>"
    by (simp add: ready_def wf_client_def ring_nodes_def demo_ring_def)
  from healthy_cluster_is_map [OF quiet_demo _ this, of calm
      "[(0, PutCall ''k'' ''x''), (1, GetCall ''k''), (1, PutCall ''k'' ''y''), (0, GetCall ''k''), (0, GetCall ''l'')]"]
  show ?thesis by (simp del: client_run.simps)
qed

end
