(* ===== verification/Ring_Changes.thy ===== *)
theory Ring_Changes
  imports Scenario
begin

text \<open>
  What a change of the membership does to the placement of keys, the promise of consistent hashing:
  servers that agree on which nodes are up have the same ring, and a node that leaves or joins moves only
  the keys whose owners it was or becomes, one place each.
\<close>

subsection \<open>The clockwise order\<close>

definition without :: "node_id set \<Rightarrow> ring \<Rightarrow> ring" where
  "without D r = filter (\<lambda>p. snd p \<notin> D) r"

text \<open>Taking nodes off the ring leaves the clockwise order of the others as it is.\<close>

lemma clockwise_without:
  assumes "ascending r"
  shows "clockwise (without D r) h = filter (\<lambda>n. n \<notin> D) (clockwise r h)"
proof -
  have "ascending (without D r)" unfolding without_def by (rule ascending_filter [OF assms])
  then show ?thesis
    using assms unfolding clockwise_def
    by (simp add: upper_bound_filter without_def filter_map comp_def conj_commute
        flip: nub_filter)
qed

subsection \<open>Rings that differ in the tokens of some nodes\<close>

definition differ_in :: "node_id set \<Rightarrow> ring \<Rightarrow> ring \<Rightarrow> bool" where
  "differ_in D r r' \<longleftrightarrow> ascending r \<and> ascending r' \<and> without D r = without D r'"

lemma differ_in_clockwise:
  "differ_in D r r' \<Longrightarrow>
   filter (\<lambda>n. n \<notin> D) (clockwise r h) = filter (\<lambda>n. n \<notin> D) (clockwise r' h)"
  unfolding differ_in_def by (metis clockwise_without)

text \<open>Prefixes that avoid the filtered elements are determined by the filtered list.\<close>

lemma take_filter_prefix: "(\<And>x. x \<in> set (take m xs) \<Longrightarrow> P x) \<Longrightarrow> take m (filter P xs) = take m xs"
proof (induction m arbitrary: xs)
  case (Suc m)
  then show ?case by (cases xs) auto
qed simp

lemma take_filter_eq:
  assumes "filter P xs = filter P ys"
    and "\<And>x. x \<in> set (take m xs) \<Longrightarrow> P x" and "\<And>x. x \<in> set (take m ys) \<Longrightarrow> P x"
  shows "take m xs = take m ys"
  by (metis assms take_filter_prefix)

lemma filter_drop_eq:
  assumes "filter P xs = filter P ys" and "take m xs = take m ys"
  shows "filter P (drop m xs) = filter P (drop m ys)"
proof -
  have "filter P (take m zs) @ filter P (drop m zs) = filter P zs" for zs
    by (simp flip: filter_append)
  with assms show ?thesis by (metis same_append_eq)
qed

lemma filter_swap: "filter P (filter Q xs) = filter Q (filter P xs)"
  by (simp add: conj_commute)

text \<open>
  The nodes that a key depends on: its natural owners and the nodes of its preference list.
\<close>

definition key_nodes :: "ring \<Rightarrow> u64 \<Rightarrow> int \<Rightarrow> (node_id \<Rightarrow> bool) \<Rightarrow> node_id set" where
  "key_nodes r h N p =
     set (natural_owners r h N) \<union> set (map ple_node_id (preferenceList r h N p))"

lemma zip_take_length: "zip (take (length ys) xs) ys = zip xs ys"
  by (metis take_all_iff order_refl take_zip length_zip min.cobounded2)

lemma preferenceList_unaffected:
  assumes d: "differ_in D r r'" and r: "key_nodes r h N p \<inter> D = {}" and r': "key_nodes r' h N p \<inter> D = {}"
  shows "natural_owners r h N = natural_owners r' h N \<and> preferenceList r h N p = preferenceList r' h N p"
proof -
  note c = differ_in_clockwise [OF d, of h]
  have nat: "natural_owners r h N = natural_owners r' h N"
    using r r' unfolding natural_owners_def key_nodes_def
    by (intro take_filter_eq [OF c]) blast+
  define k where "k = length (filter (\<lambda>c. \<not> p c) (natural_owners r h N))"
  define tail where "tail = (\<lambda>r. filter p (drop (nat N) (clockwise r h)))"
  have "take k (tail r) = take k (tail r')"
  proof (rule take_filter_eq [where P = "\<lambda>n. n \<notin> D"])
    show "filter (\<lambda>n. n \<notin> D) (tail r) = filter (\<lambda>n. n \<notin> D) (tail r')"
      using filter_drop_eq [OF c nat [unfolded natural_owners_def]]
      unfolding tail_def by (metis filter_swap)
  next
    fix n assume "n \<in> set (take k (tail r))"
    with r show "n \<notin> D" by (auto simp: key_nodes_def preference_ids tail_def k_def)
  next
    fix n assume "n \<in> set (take k (tail r'))"
    with r' show "n \<notin> D" by (auto simp: key_nodes_def preference_ids tail_def k_def nat)
  qed
  then have "zip (tail r) (filter (\<lambda>c. \<not> p c) (natural_owners r h N)) =
      zip (tail r') (filter (\<lambda>c. \<not> p c) (natural_owners r h N))"
    unfolding k_def by (metis zip_take_length)
  with nat show ?thesis
    by (simp add: preferenceList_eq_spec preference_spec_def tail_def)
qed

subsection \<open>Tables that differ in some nodes\<close>

definition up_nodes :: "MembershipTable \<Rightarrow> node_id set" where
  "up_nodes tbl = {n. \<exists>e. map_of tbl n = Some e \<and> status e = UP}"

definition changed_nodes :: "node \<Rightarrow> node \<Rightarrow> node_id set" where
  "changed_nodes nd nd' = {n. n \<in> up_nodes (nd_table nd) \<longleftrightarrow> n \<notin> up_nodes (nd_table nd')}"

lemma owns_up: "table_ok T tbl \<Longrightarrow> owns tbl t n \<longleftrightarrow> n \<in> up_nodes tbl \<and> t \<in> T n"
  by (force simp: owns_def up_nodes_def table_ok_def entry_ok_def)

lemma rings_differ_in_changed:
  assumes "wf_node T nd" and "wf_node T nd'"
  shows "differ_in (changed_nodes nd nd') (nd_ring nd) (nd_ring nd')"
proof -
  let ?D = "changed_nodes nd nd'"
  have ok: "table_ok T (nd_table nd)" "table_ok T (nd_table nd')"
    "ring_ok (nd_table nd) (nd_ring nd)" "ring_ok (nd_table nd') (nd_ring nd')"
    using assms by (auto simp: wf_node_def wf_member_def)
  then have asc: "ascending (nd_ring nd)" "ascending (nd_ring nd')"
    by (auto simp: ring_ok_def)
  have mem: "(t, n) \<in> set r \<longleftrightarrow> n \<in> up_nodes tbl \<and> t \<in> T n"
    if "ring_ok tbl r" "table_ok T tbl" for t n r tbl
  proof -
    have "(t, n) \<in> set r \<longleftrightarrow> map_of r t = Some n"
      using that(1) unfolding ring_ok_def
      by (metis Some_eq_map_of_iff ascending_distinct_keys)
    with that show ?thesis by (auto simp: ring_ok_def owns_up)
  qed
  have "set (without ?D (nd_ring nd)) = set (without ?D (nd_ring nd'))"
    by (auto simp: without_def changed_nodes_def mem [OF ok(3,1)] mem [OF ok(4,2)])
  moreover have w: "ascending (without ?D (nd_ring nd))" "ascending (without ?D (nd_ring nd'))"
    using asc unfolding without_def by (auto intro: ascending_filter)
  ultimately have "map_of (without ?D (nd_ring nd)) = map_of (without ?D (nd_ring nd'))"
    by (simp add: map_of_inject_set ascending_distinct_keys)
  with asc w show ?thesis by (simp add: differ_in_def ascending_eqI)
qed

text \<open>One node off the ring.\<close>

lemma take_without_one:
  assumes "distinct xs"
  shows "take m (filter (\<lambda>x. x \<noteq> n) xs) =
    (if n \<in> set (take m xs) then removeAll n (take m xs) @ take 1 (drop m xs) else take m xs)"
  using assms
proof (induction xs arbitrary: m)
  case (Cons x xs)
  then show ?case
  proof (cases m)
    case (Suc l)
    have "filter (\<lambda>y. y \<noteq> n) xs = xs" "removeAll n (take l xs) = take l xs" if "x = n"
      using Cons.prems that by (auto simp: filter_id_conv dest: in_set_takeD intro!: removeAll_id)
    moreover have "take (Suc l) xs = take l xs @ take 1 (drop l xs)"
      by (metis Suc_eq_plus1 take_add)
    ultimately show ?thesis using Cons Suc by auto
  qed simp
qed simp

definition owners_without :: "node_id \<Rightarrow> ring \<Rightarrow> u64 \<Rightarrow> int \<Rightarrow> node_id list" where
  "owners_without n r h N =
     (if n \<in> set (natural_owners r h N)
      then removeAll n (natural_owners r h N) @ take 1 (drop (nat N) (clockwise r h))
      else natural_owners r h N)"

lemma natural_owners_without:
  assumes "differ_in {n} r r'" and "n \<notin> set (ring_nodes r')"
  shows "natural_owners r' h N = owners_without n r h N"
proof -
  have "filter (\<lambda>m. m \<noteq> n) (clockwise r' h) = clockwise r' h"
    using assms(2) by (auto simp: filter_id_conv set_clockwise)
  with differ_in_clockwise [OF assms(1), of h]
  have "clockwise r' h = filter (\<lambda>m. m \<noteq> n) (clockwise r h)" by simp
  then show ?thesis
    by (simp add: natural_owners_def owners_without_def take_without_one)
qed

lemma differ_in_mono: "differ_in D r r' \<Longrightarrow> D \<subseteq> E \<Longrightarrow> differ_in E r r'"
proof -
  assume d: "differ_in D r r'" and "D \<subseteq> E"
  then have "without E r = without E (without D r)" for r
    unfolding without_def by (auto intro: filter_cong)
  with d show ?thesis unfolding differ_in_def by metis
qed

lemma differ_in_sym: "differ_in D r r' \<Longrightarrow> differ_in D r' r"
  by (simp add: differ_in_def)

lemma up_nodes_ring: "wf_node T nd \<Longrightarrow> n \<notin> up_nodes (nd_table nd) \<Longrightarrow> n \<notin> set (ring_nodes (nd_ring nd))"
  using ring_ok_node [of "nd_table nd" "nd_ring nd" n]
  by (auto simp: wf_node_def wf_member_def owns_def up_nodes_def)

lemma wf_after_change:
  assumes "wf_node T nd" and "tokens_disjoint T" and "table_ok T incoming"
    and "nd' = snd (applyGossip incoming nd) \<or> nd' = snd (RemoveNode m now nd)"
  shows "wf_node T nd'"
  using assms(4) wf_applyGossip(1) [OF assms(1-3)] wf_RemoveNode [OF assms(1,2)] by auto

lemma unreachable_after_change:
  "nd' = snd (applyGossip incoming nd) \<or> nd' = snd (RemoveNode m now nd) \<Longrightarrow>
   nd_unreachable nd' = nd_unreachable nd"
  by (auto simp: applyGossip_def RemoveNode_def split: prod.splits option.splits)

text \<open>Servers that agree on the nodes that are up have the same ring.\<close>

lemma same_up_nodes_same_ring:
  assumes "wf_node T nd" and "wf_node T nd'" and "up_nodes (nd_table nd) = up_nodes (nd_table nd')"
  shows "nd_ring nd = nd_ring nd'"
  using rings_differ_in_changed [OF assms(1,2)] assms(3)
  by (simp add: changed_nodes_def differ_in_def without_def)

subsection \<open>Properties\<close>

lemma demo_remove:
  assumes "n = ''B'' \<or> n = ''D''"
  shows "nd_ring (snd (RemoveNode n 5 (demo_node ''A'' [] Map.empty Map.empty))) = filter (\<lambda>p. snd p \<noteq> n) demo_ring"
    and "up_nodes demo_table = {''A'', ''B'', ''C'', ''D''}"
    and "up_nodes (nd_table (snd (RemoveNode n 5 (demo_node ''A'' [] Map.empty Map.empty)))) = {''A'', ''B'', ''C'', ''D''} - {n}"
  using assms
  by (auto simp: RemoveNode_def demo_lookup demo_entry_def erase_tokens_def map_erase_def demo_ring_def
      up_nodes_def alist_simps split: if_splits)

lemma demo_change:
  "n = ''B'' \<or> n = ''D'' \<Longrightarrow>
   changed_nodes (demo_node ''A'' [] Map.empty Map.empty) (snd (RemoveNode n 5 (demo_node ''A'' [] Map.empty Map.empty))) = {n}"
  unfolding changed_nodes_def by (auto simp: demo_remove)

lemma demo_owners:
  "natural_owners demo_ring (key_hash ''k'') 3 = [''A'', ''B'', ''C'']"
  "key_nodes demo_ring (key_hash ''k'') 3 (\<lambda>c. True) = {''A'', ''B'', ''C''}"
  by (auto simp: natural_owners_def key_nodes_def demo_clockwise preference_ids)

lemma wf_demo: "wf_node demo_T (demo_node ''A'' [] Map.empty Map.empty)"
  by (rule wf_demo_node) (simp_all add: wf_store_def wf_hint_table_def)

text \<open>
C13. Consistent hashing moves few keys: whatever table a server merges, and whichever node it removes,
a key keeps its natural owners and its whole preference list, stand-ins included, unless one of the
nodes that came up or were removed by the operation is among the key's owners and listed nodes, before
or after.
\<close>
theorem membership_change_moves_few_keys:
  assumes "wf_node T nd" and "tokens_disjoint T" and "table_ok T incoming"
    and "nd' = snd (applyGossip incoming nd) \<or> nd' = snd (RemoveNode m now nd)"
    and "key_nodes (nd_ring nd) (key_hash k) N (\<lambda>c. c \<notin> set (nd_unreachable nd)) \<inter> changed_nodes nd nd' = {}"
    and "key_nodes (nd_ring nd') (key_hash k) N (\<lambda>c. c \<notin> set (nd_unreachable nd)) \<inter> changed_nodes nd nd' = {}"
  shows "natural_owners (nd_ring nd') (key_hash k) N = natural_owners (nd_ring nd) (key_hash k) N \<and>
    preferenceListForKey nd' k N = preferenceListForKey nd k N"
proof -
  note wf = wf_after_change [OF assms(1-4)] and u = unreachable_after_change [OF assms(4)]
  from preferenceList_unaffected [OF rings_differ_in_changed [OF assms(1) wf] assms(5,6)]
  show ?thesis by (simp add: preferenceListForKey_def unreachableSnapshot_def u)
qed

theorem membership_change_moves_few_keys_witness:
  "preferenceListForKey (snd (RemoveNode ''D'' 5 (demo_node ''A'' [] Map.empty Map.empty))) ''k'' 3 =
   map natural_entry [''A'', ''B'', ''C'']"
proof -
  let ?nd = "demo_node ''A'' [] Map.empty Map.empty"
  let ?nd' = "snd (RemoveNode ''D'' 5 ?nd)"
  have "clockwise (nd_ring ?nd') (key_hash ''k'') = [''A'', ''B'', ''C'']"
    using clockwise_without [of demo_ring "{''D''}" "key_hash ''k''"] ring_ok_demo
    by (simp add: demo_remove demo_clockwise without_def ring_ok_def)
  then have "key_nodes (nd_ring ?nd') (key_hash ''k'') 3 (\<lambda>c. True) = {''A'', ''B'', ''C''}"
    by (auto simp: natural_owners_def key_nodes_def preference_ids)
  then show ?thesis
    using membership_change_moves_few_keys [OF wf_demo tokens_disjoint_demo table_ok_demo, of ?nd' "''D''" 5 "''k''" 3]
    by (simp add: demo_change demo_owners demo_eval)
qed

text \<open>
C14. One node's change moves one place per key.  When a merge or a removal changes the status of the
node \<open>n\<close> only: if \<open>n\<close> is gone afterwards, its place among a key's natural owners goes to the
next distinct node clockwise, the other owners keep their order, and the keys it did not own keep exactly
their owners; if \<open>n\<close> is new, the old owners are what the same hand-over makes of the new ones, so
that \<open>n\<close> displaces at most the last owner of a key.
\<close>
theorem one_change_moves_one_place:
  assumes "wf_node T nd" and "tokens_disjoint T" and "table_ok T incoming"
    and "nd' = snd (applyGossip incoming nd) \<or> nd' = snd (RemoveNode m now nd)"
    and "changed_nodes nd nd' \<subseteq> {n}"
  shows "(n \<notin> up_nodes (nd_table nd') \<longrightarrow>
      natural_owners (nd_ring nd') h N = owners_without n (nd_ring nd) h N) \<and>
    (n \<notin> up_nodes (nd_table nd) \<longrightarrow>
      natural_owners (nd_ring nd) h N = owners_without n (nd_ring nd') h N)"
proof -
  have wf: "wf_node T nd'" by (rule wf_after_change [OF assms(1-4)])
  have "differ_in {n} (nd_ring nd) (nd_ring nd')"
    by (rule differ_in_mono [OF rings_differ_in_changed [OF assms(1) wf] assms(5)])
  with natural_owners_without [of n] up_nodes_ring [OF assms(1)] up_nodes_ring [OF wf] show ?thesis
    by (simp add: differ_in_sym)
qed

theorem one_change_moves_one_place_witness:
  "natural_owners (nd_ring (snd (RemoveNode ''B'' 5 (demo_node ''A'' [] Map.empty Map.empty)))) (key_hash ''k'') 3 =
   [''A'', ''C'', ''D'']"
  using one_change_moves_one_place [OF wf_demo tokens_disjoint_demo table_ok_demo,
      of "snd (RemoveNode ''B'' 5 (demo_node ''A'' [] Map.empty Map.empty))" "''B''" 5 "''B''" "key_hash ''k''" 3]
  by (simp add: demo_change demo_remove owners_without_def demo_owners demo_clockwise)

end
