(* ===== verification/Unit_Tests.thy ===== *)
theory Unit_Tests
  imports Ring Vector_Clock
begin

text \<open>
  The repository's unit tests, evaluated on the model: every group of assertions of
  \<^verbatim>\<open>test_vector_clocks.cpp\<close> and \<^verbatim>\<open>test_ring.cpp\<close> is a lemma here, named after the test
  function.  \<open>resolveGetResult\<close> returns the winner together with the number of concurrent versions;
  the tests, which are older, take the winner for its result.
\<close>

subsection \<open>Vector clocks\<close>

abbreviation counts :: "(node_id \<times> u64) list \<Rightarrow> vector_clock" where
  "counts cs \<equiv> clk cs 0 []"

lemma testCompareVectorClocks:
  "compareVectorClocks (counts [(''A'', 2), (''B'', 5)]) (counts [(''A'', 2), (''B'', 5)]) = EQUAL"
  "compareVectorClocks (counts [(''A'', 3), (''B'', 5)]) (counts [(''A'', 2), (''B'', 5)]) = DOMINATES"
  "compareVectorClocks (counts [(''A'', 2), (''B'', 5)]) (counts [(''A'', 3), (''B'', 5)]) = DOMINATED"
  "compareVectorClocks (counts [(''A'', 3), (''B'', 1)]) (counts [(''A'', 1), (''B'', 3)]) = CONCURRENT"
  "compareVectorClocks (counts [(''A'', 1), (''B'', 3)]) (counts [(''A'', 3), (''B'', 1)]) = CONCURRENT"
  "compareVectorClocks (counts [(''A'', 1)]) (counts [(''A'', 1), (''C'', 4)]) = DOMINATED"
  "compareVectorClocks (counts [(''A'', 1), (''C'', 4)]) (counts [(''A'', 1)]) = DOMINATES"
  "compareVectorClocks (counts [(''A'', 1), (''C'', 0)]) (counts [(''A'', 1), (''C'', 4)]) = DOMINATED"
  by (simp_all add: compareVectorClocks_def)

lemma testMergeClocks:
  "map_of (counters (mergeClocks (counts [(''A'', 2)]) (counts [(''B'', 5)]))) = [''A'' \<mapsto> 2, ''B'' \<mapsto> 5]"
  "map_of (counters (mergeClocks (counts [(''A'', 7), (''B'', 1)]) (counts [(''A'', 3), (''B'', 9)]))) =
     [''A'' \<mapsto> 7, ''B'' \<mapsto> 9]"
  "map_of (counters (mergeClocks (counts [(''A'', 0)]) (counts [(''B'', 4)]))) = [''A'' \<mapsto> 0, ''B'' \<mapsto> 4]"
  "vc_last_updated (mergeClocks (clk [(''A'', 1)] 123 []) (clk [] 456 [])) = 0"
  by (simp_all add: mergeClocks_def empty_clock_def fun_eq_iff)

lemma testBuildClock:
  "map_of (counters (buildNewClock (Some (counts [(''A'', 3)])) (Some (counts [(''A'', 1)])) ''A'' now)) = [''A'' \<mapsto> 4]"
  "map_of (counters (buildNewClock (Some (counts [(''A'', 3)])) (Some (counts [(''A'', 1), (''B'', 3)])) ''A'' now)) =
     [''A'' \<mapsto> 4, ''B'' \<mapsto> 3]"
  "map_of (counters (buildNewClock (Some (counts [(''A'', 4), (''B'', 2)])) (Some (counts [(''A'', 4), (''B'', 2)])) ''B'' now)) =
     [''A'' \<mapsto> 4, ''B'' \<mapsto> 3]"
  by (simp_all add: buildNewClock_def mergeClocks_def empty_clock_def counter_of_def count_in_def fun_eq_iff)

lemma testComputeFrontier:
  "map vv_value (computeFrontier [vv ''only'' (counts [(''A'', 1)])]) = [''only'']"
  "map vv_value (computeFrontier [vv ''stale'' (counts [(''A'', 1)]), vv ''fresh'' (counts [(''A'', 2)])]) = [''fresh'']"
  "length (computeFrontier [vv ''a'' (clk [(''A'', 1)] 10 []), vv ''b'' (clk [(''B'', 1)] 20 []),
     vv ''c'' (clk [(''C'', 1)] 30 [])]) = 3"
  "length (computeFrontier [vv ''r1'' (counts [(''A'', 5)]), vv ''r2'' (counts [(''A'', 5)])]) = 1"
  "length (computeFrontier [vv ''behind'' (counts [(''A'', 1)]), vv ''c1'' (counts [(''A'', 2), (''B'', 1)]),
     vv ''c2'' (counts [(''A'', 2), (''C'', 1)])]) = 2"
  by (simp_all add: computeFrontier_def compareVectorClocks_def)

lemma testResolveLWW:
  "resolveLWW [vv ''test'' (clk [(''A'', 3)] 1 ''A''), vv ''test'' (clk [(''A'', 3)] 1 ''B'')] =
     Some (vv ''test'' (clk [(''A'', 3)] 1 ''B''))"
  "resolveLWW [vv ''test'' (clk [(''B'', 3)] 1 ''B''), vv ''excluded'' (clk [(''B'', 3)] 1 ''B'')] =
     Some (vv ''test'' (clk [(''B'', 3)] 1 ''B''))"
  "resolveLWW [vv ''lose'' (clk [(''B'', 3)] 1 ''A''), vv ''win'' (clk [(''B'', 3)] 5 ''B'')] =
     Some (vv ''win'' (clk [(''B'', 3)] 5 ''B''))"
  by simp_all

lemma testResolveGetResult:
  "map_option (\<lambda>r. vv_value (winner r)) (resolveGetResult [vv ''single'' (counts [(''A'', 1)])]) = Some ''single''"
  "map_option (\<lambda>r. vv_value (winner r)) (resolveGetResult [vv ''old'' (counts [(''A'', 1)]),
     vv ''current'' (counts [(''A'', 3)])]) = Some ''current''"
  "map_option (\<lambda>r. vv_value (winner r)) (resolveGetResult [vv ''x'' (clk [(''X'', 1)] 100 ''X''),
     vv ''y'' (clk [(''Y'', 1)] 200 ''Y'')]) = Some ''y''"
  by (simp_all add: resolveGetResult_def computeFrontier_def compareVectorClocks_def Let_def)

subsection \<open>The ring\<close>

text \<open>The two tokens of the peer are different in the tests; which they are does not matter.\<close>

lemma testRingAndPrefList:
  assumes "t0 \<noteq> t1"
  shows "mergeInto [] [(''B'', mentry ''B'' UP [t0, t1] 1000 ''B'')] [] =
      ([(''B'', mentry ''B'' UP [t0, t1] 1000 ''B'')], map_put t1 ''B'' [(t0, ''B'')])"
    and "preferenceList (map_put t1 ''B'' [(t0, ''B'')]) t0 1 (\<lambda>_. True) = [natural_entry ''B'']"
  using assms
  by (auto simp: put_tokens_def preferenceList_eq_spec preference_spec_def natural_owners_def clockwise_def
      upper_bound_def nub_def)

lemma testKillAndReboot:
  assumes "t0 \<noteq> t1"
  defines "up \<equiv> [(''B'', mentry ''B'' UP [t0, t1] 1000 ''B'')]"
    and "gone \<equiv> [(''B'', mentry ''B'' REMOVED [] 2000 ''B'')]"
    and "back \<equiv> [(''B'', mentry ''A'' UP [t0, t1] 3000 ''B'')]"
    and "two \<equiv> map_put t1 ''B'' [(t0, ''B'')]"
  shows "mergeInto [] up [] = (up, two)" and "mergeInto up gone two = (gone, [])"
    and "mergeInto gone back [] = (back, two)"
  using assms(1)
  by (auto simp: up_def gone_def back_def two_def put_tokens_def erase_tokens_def map_erase_def incoming_wins_def)

lemmas ring_eval = preferenceList_eq_spec preference_spec_def natural_owners_def clockwise_def upper_bound_def nub_def

lemma testReachabilityPredicate:
  "map ple_node_id (preferenceList [(10, ''A''), (20, ''B''), (30, ''A''), (40, ''C''), (50, ''B''), (60, ''C'')] 5 2
     (\<lambda>n. n \<noteq> ''B'')) = [''A'', ''C'']"
  "map ple_node_id (preferenceList [(10, ''A''), (20, ''B''), (30, ''A''), (40, ''C''), (50, ''B''), (60, ''C'')] 5 2
     (\<lambda>n. n = ''A'')) = [''A'']"
  by (simp_all add: ring_eval)

lemma testHintPairing:
  "preferenceList [(10, ''A''), (20, ''B''), (30, ''C''), (40, ''D''), (50, ''E'')] 0 3 (\<lambda>n. n \<noteq> ''A'' \<and> n \<noteq> ''C'') =
     [natural_entry ''B'', hint_entry (''D'', ''A''), hint_entry (''E'', ''C'')]"
  by (simp add: ring_eval)

lemma testVnodeDuplicateDoesNotStealHintSlot:
  "preferenceList [(10, ''A''), (15, ''A''), (20, ''B''), (30, ''X''), (40, ''D''), (50, ''E'')] 0 3
     (\<lambda>n. n \<noteq> ''A'' \<and> n \<noteq> ''X'') =
     [natural_entry ''B'', hint_entry (''D'', ''A''), hint_entry (''E'', ''X'')]"
  by (simp add: ring_eval)

lemma testRingExhaustionDegradesToShortList:
  "preferenceList [(10, ''A''), (20, ''B''), (30, ''C'')] 0 3 (\<lambda>n. n \<noteq> ''A'') =
     [natural_entry ''B'', natural_entry ''C'']"
  by (simp add: ring_eval)

end
