(* ===== verification/Vnode_Experiment.thy ===== *)
theory Vnode_Experiment
  imports Text_Format Complex_Main
begin

text \<open>
  The experiment of \<^verbatim>\<open>src/src/vnode_experiment.cpp\<close>: how evenly the ring spreads keys over
  nodes for several numbers of virtual nodes.  The source indexes \<open>counts\<close> with an entry of the
  preference list, which no longer has the type of a key; the model reads \<open>owner[0].node_id\<close>, what the
  line meant when the list was one of names.  An empty list (\<open>owner[0]\<close> out of range) is \<open>None\<close>.
  All floating-point numbers up to the square root are integers below \<open>2^53\<close>, so the real numbers of
  the model are the values of the doubles; the rounding of the root and the layout of the printed table are
  left out.
\<close>

definition kNumNodes :: nat where "kNumNodes = 5"
definition kNumKeys :: nat where "kNumKeys = 100000"
definition vnode_counts :: "nat list" where "vnode_counts = [1, 4, 16, 64, 256]"

definition node_ids :: "node_id list" where
  "node_ids = map (\<lambda>i. ''node'' @ to_string i) [0..<kNumNodes]"

definition experiment_ring :: "nat \<Rightarrow> ring" where
  "experiment_ring V =
     fold (\<lambda>n. fold (\<lambda>i. map_put (mix64 (fnv1a64 (vnode_name n i))) n) [0..<V]) node_ids []"

text \<open>\<open>counts[k]\<close> inserts a zero for an unknown key.\<close>

definition count_at :: "(node_id \<times> int) list \<Rightarrow> node_id \<Rightarrow> int" where
  "count_at counts n = (case map_of counts n of None \<Rightarrow> 0 | Some c \<Rightarrow> c)"

fun count_keys :: "ring \<Rightarrow> nat list \<Rightarrow> (node_id \<times> int) list \<Rightarrow> (node_id \<times> int) list option" where
  "count_keys ring [] counts = Some counts"
| "count_keys ring (k # ks) counts =
     (case preferenceList ring (key_hash (''key'' @ to_string k)) 1 (\<lambda>_. True) of
        [] \<Rightarrow> None
      | owner # _ \<Rightarrow>
          count_keys ring ks
            (AList.update (ple_node_id owner) (count_at counts (ple_node_id owner) + 1) counts))"

record experiment_row =
  row_V :: nat
  row_mean :: real
  row_stddev :: real
  row_min :: int
  row_max :: int

definition key_mean :: real where
  "key_mean = real kNumKeys / real kNumNodes"

definition spread_row :: "nat \<Rightarrow> (node_id \<times> int) list \<Rightarrow> experiment_row" where
  "spread_row V counts =
     (let (sum_sq_dev, min_count, max_count) =
        fold (\<lambda>(n, count) (s, lo, hi).
            let dev = real_of_int count - key_mean in (s + dev * dev, min lo count, max hi count))
          counts (0, int kNumKeys, 0)
      in \<lparr>row_V = V, row_mean = key_mean, row_stddev = sqrt (sum_sq_dev / real kNumNodes),
          row_min = min_count, row_max = max_count\<rparr>)"

definition experiment_main :: "experiment_row list option" where
  "experiment_main =
     those (map (\<lambda>V. map_option (spread_row V)
       (count_keys (experiment_ring V) [0..<kNumKeys] (map (\<lambda>n. (n, 0)) node_ids))) vnode_counts)"

subsection \<open>Every key is counted once, at its owner\<close>

definition key_owner :: "ring \<Rightarrow> nat \<Rightarrow> node_id" where
  "key_owner ring k = hd (clockwise ring (key_hash (''key'' @ to_string k)))"

lemma preference_first:
  assumes "ring \<noteq> []"
  shows "preferenceList ring h 1 (\<lambda>_. True) = [natural_entry (hd (clockwise ring h))]"
proof -
  have "clockwise ring h \<noteq> []"
    using assms set_clockwise [of ring h] by (auto simp: ring_nodes_def simp flip: set_empty)
  then show ?thesis
    by (cases "clockwise ring h") (simp_all add: preferenceList_eq_spec preference_spec_def natural_owners_def)
qed

lemma key_owner_in_ring: "ring \<noteq> [] \<Longrightarrow> key_owner ring k \<in> set (ring_nodes ring)"
proof -
  assume "ring \<noteq> []"
  then have "clockwise ring h \<noteq> []" for h
    using set_clockwise [of ring h] by (auto simp: ring_nodes_def simp flip: set_empty)
  then show ?thesis unfolding key_owner_def by (metis list.set_sel(1) set_clockwise)
qed

lemma count_keys_counts:
  "ring \<noteq> [] \<Longrightarrow> \<exists>c. count_keys ring ks counts = Some c \<and>
     (\<forall>n. count_at c n = count_at counts n + int (length (filter (\<lambda>k. key_owner ring k = n) ks))) \<and>
     (distinct_keys counts \<longrightarrow> distinct_keys c) \<and>
     (set (ring_nodes ring) \<subseteq> fst ` set counts \<longrightarrow> fst ` set c = fst ` set counts)"
proof (induction ks arbitrary: counts)
  case (Cons k ks)
  let ?n = "key_owner ring k"
  let ?counts = "AList.update ?n (count_at counts ?n + 1) counts"
  obtain c where c: "count_keys ring ks ?counts = Some c"
    "\<And>n. count_at c n = count_at ?counts n + int (length (filter (\<lambda>k. key_owner ring k = n) ks))"
    "distinct_keys ?counts \<longrightarrow> distinct_keys c"
    "set (ring_nodes ring) \<subseteq> fst ` set ?counts \<longrightarrow> fst ` set c = fst ` set ?counts"
    using Cons.IH [OF Cons.prems, of ?counts] by blast
  have "count_keys ring (k # ks) counts = Some c"
    using c(1) Cons.prems by (simp add: preference_first key_owner_def)
  moreover have "count_at ?counts n = (if n = ?n then count_at counts n + 1 else count_at counts n)" for n
    by (simp add: count_at_def alist_simps)
  moreover have "set (ring_nodes ring) \<subseteq> fst ` set counts \<Longrightarrow> insert ?n (fst ` set counts) = fst ` set counts"
    using key_owner_in_ring [OF Cons.prems, of k] by blast
  ultimately show ?case
    using c(2-4) by (intro exI [of _ c]) (auto simp: wf_intros keys_update)
qed simp

lemma experiment_ring_nonempty:
  assumes "0 < V"
  shows "experiment_ring V \<noteq> []"
proof -
  have put: "map_put k n m \<noteq> []" for k :: u64 and n :: node_id and m
    by (metis all_not_in_conv empty_set image_empty insert_not_empty set_map_put)
  have inner: "fold (\<lambda>i. map_put (f i) n) is m \<noteq> []" if "m \<noteq> [] \<or> is \<noteq> []"
    for f :: "nat \<Rightarrow> u64" and n :: node_id and "is" m
    using that by (induction "is" arbitrary: m) (auto simp: put)
  have "fold (\<lambda>n. fold (\<lambda>i. map_put (f n i) n) [0..<V]) ns m \<noteq> []" if "m \<noteq> [] \<or> ns \<noteq> []"
    for f :: "node_id \<Rightarrow> nat \<Rightarrow> u64" and ns m
    using that
  proof (induction ns arbitrary: m)
    case (Cons n ns)
    have "fold (\<lambda>i. map_put (f n i) n) [0..<V] m \<noteq> []" using assms by (intro inner) simp
    with Cons.IH show ?case by simp
  qed simp
  from this [of "[]" node_ids "\<lambda>n i. mix64 (fnv1a64 (vnode_name n i))"] show ?thesis
    by (simp add: experiment_ring_def node_ids_def kNumNodes_def)
qed

text \<open>The nodes on the ring are those of the experiment.\<close>

lemma ring_nodes_put: "set (map snd (map_put k n m)) \<subseteq> insert n (set (map snd m))"
  by (induction k n m rule: map_put.induct) auto

lemma experiment_ring_nodes: "set (ring_nodes (experiment_ring V)) \<subseteq> set node_ids"
proof -
  have inner: "set (map snd (fold (\<lambda>i. map_put (f i) n) is m)) \<subseteq> insert n (set (map snd m))"
    for f :: "nat \<Rightarrow> u64" and n :: node_id and "is" m
  proof (induction "is" arbitrary: m)
    case (Cons i "is")
    have "set (map snd (fold (\<lambda>i. map_put (f i) n) is (map_put (f i) n m))) \<subseteq>
        insert n (set (map snd (map_put (f i) n m)))" by (rule Cons.IH)
    also have "\<dots> \<subseteq> insert n (set (map snd m))" using ring_nodes_put [of "f i" n m] by blast
    finally show ?case by simp
  qed auto
  have "set (map snd (fold (\<lambda>n. fold (\<lambda>i. map_put (f n i) n) [0..<V]) ns m)) \<subseteq> set ns \<union> set (map snd m)"
    for f :: "node_id \<Rightarrow> nat \<Rightarrow> u64" and ns m
  proof (induction ns arbitrary: m)
    case (Cons n ns)
    let ?m = "fold (\<lambda>i. map_put (f n i) n) [0..<V] m"
    have "set (map snd (fold (\<lambda>n. fold (\<lambda>i. map_put (f n i) n) [0..<V]) ns ?m)) \<subseteq> set ns \<union> set (map snd ?m)"
      by (rule Cons.IH)
    also have "\<dots> \<subseteq> set (n # ns) \<union> set (map snd m)" using inner [of "f n" n "[0..<V]" m] by auto
    finally show ?case by simp
  qed auto
  from this [of "\<lambda>n i. mix64 (fnv1a64 (vnode_name n i))" node_ids "[]"] show ?thesis
    by (simp add: ring_nodes_def experiment_ring_def)
qed

definition keys_owned :: "nat \<Rightarrow> node_id \<Rightarrow> nat" where
  "keys_owned V n = length (filter (\<lambda>k. key_owner (experiment_ring V) k = n) [0..<kNumKeys])"

lemma spread_fold:
  fixes counts :: "(node_id \<times> int) list"
  shows "fold (\<lambda>(n, count) (s, lo, hi).
      let dev = real_of_int count - key_mean in (s + dev * dev, min lo count, max hi count)) counts (s, lo, hi) =
    (s + (\<Sum>c\<leftarrow>counts. (real_of_int (snd c) - key_mean)\<^sup>2),
     Min (insert lo (snd ` set counts)), Max (insert hi (snd ` set counts)))"
proof (induction counts arbitrary: s lo hi)
  case (Cons p counts)
  have "Min (insert (min lo x) S) = Min (insert lo (insert x S))"
    "Max (insert (max hi x) S) = Max (insert hi (insert x S))" if "finite S" for x and S :: "int set"
    using that by (cases "S = {}"; simp add: min.assoc max.assoc)+
  with Cons show ?case by (cases p) (simp add: Let_def power2_eq_square add.assoc)
qed simp

lemma counts_by_node:
  fixes c :: "(node_id \<times> int) list"
  assumes "distinct_keys c" and "fst ` set c = S" and "\<And>n. count_at c n = g n"
  shows "(\<Sum>p\<leftarrow>c. f (snd p)) = (\<Sum>n\<in>S. f (g n))" and "snd ` set c = g ` S"
proof -
  have g: "snd p = g (fst p)" if "p \<in> set c" for p
    using assms(1) that assms(3) [of "fst p"] by (cases p) (simp add: count_at_def)
  have inj: "inj_on fst (set c)" and d: "distinct c" using assms(1) by (auto simp: distinct_map)
  have "(\<Sum>p\<leftarrow>c. f (snd p)) = (\<Sum>p\<in>set c. f (snd p))"
    using d by (simp add: sum_list_distinct_conv_sum_set)
  also have "\<dots> = (\<Sum>p\<in>set c. f (g (fst p)))" by (simp add: g)
  also have "\<dots> = (\<Sum>n\<in>S. f (g n))" unfolding assms(2) [symmetric] by (simp add: sum.reindex [OF inj])
  finally show "(\<Sum>p\<leftarrow>c. f (snd p)) = (\<Sum>n\<in>S. f (g n))" .
  show "snd ` set c = g ` S" unfolding assms(2) [symmetric] image_image by (simp add: g)
qed

subsection \<open>What the experiment prints\<close>

definition measured_row :: "nat \<Rightarrow> experiment_row" where
  "measured_row V =
     \<lparr>row_V = V, row_mean = 20000,
      row_stddev = sqrt ((\<Sum>n\<in>set node_ids. (real (keys_owned V n) - 20000)\<^sup>2) / 5),
      row_min = int (Min (keys_owned V ` set node_ids)), row_max = int (Max (keys_owned V ` set node_ids))\<rparr>"

lemma keys_owned_le: "keys_owned V n \<le> kNumKeys"
  unfolding keys_owned_def by (rule order_trans [OF length_filter_le]) simp

lemma node_ids_finite: "set node_ids \<noteq> {}"
  by (simp add: node_ids_def kNumNodes_def)

lemma count_keys_measured:
  assumes "0 < V"
  shows "map_option (spread_row V) (count_keys (experiment_ring V) [0..<kNumKeys] (map (\<lambda>n. (n, 0)) node_ids)) =
    Some (measured_row V)"
proof -
  let ?z = "map (\<lambda>n. (n, 0 :: int)) node_ids"
  have "count_at (map (\<lambda>n. (n, 0)) ns) n = 0" for ns n
    by (induction ns) (auto simp: count_at_def)
  moreover have "distinct node_ids" by (simp add: node_ids_def distinct_map inj_on_def)
  ultimately have z: "distinct_keys ?z" "fst ` set ?z = set node_ids" "count_at ?z n = 0" for n
    by (simp_all add: comp_def image_image)
  obtain c where c: "count_keys (experiment_ring V) [0..<kNumKeys] ?z = Some c"
    "\<And>n. count_at c n = int (keys_owned V n)" "distinct_keys c" "fst ` set c = set node_ids"
    using count_keys_counts [OF experiment_ring_nonempty [OF assms], of "[0..<kNumKeys]" ?z]
      z experiment_ring_nodes [of V] unfolding keys_owned_def by auto
  note s = counts_by_node [OF c(3,4,2)]
  have fin: "finite (keys_owned V ` set node_ids)" "keys_owned V ` set node_ids \<noteq> {}"
    using node_ids_finite by auto
  have img: "(\<lambda>n. int (keys_owned V n)) ` set node_ids = int ` keys_owned V ` set node_ids"
    by (simp add: image_image)
  have "Min (insert (int kNumKeys) (int ` keys_owned V ` set node_ids)) = int (Min (keys_owned V ` set node_ids))"
  proof -
    have "Min (keys_owned V ` set node_ids) \<in> keys_owned V ` set node_ids" by (rule Min_in [OF fin])
    then have "Min (keys_owned V ` set node_ids) \<le> kNumKeys" using keys_owned_le by auto
    moreover have "Min (int ` keys_owned V ` set node_ids) = int (Min (keys_owned V ` set node_ids))"
      by (rule mono_Min_commute [symmetric]) (use fin in \<open>auto simp: mono_def\<close>)
    ultimately show ?thesis using fin by (subst Min_insert) auto
  qed
  moreover have "Max (insert 0 (int ` keys_owned V ` set node_ids)) = int (Max (keys_owned V ` set node_ids))"
    using fin by (subst Max_insert) (auto simp: mono_Max_commute [symmetric] mono_def)
  moreover have "key_mean = 20000" by (simp add: key_mean_def kNumKeys_def kNumNodes_def)
  ultimately show ?thesis
    using s(1) [of "\<lambda>x. (real_of_int x - 20000)\<^sup>2"] s(2)
    by (simp add: c(1) spread_row_def spread_fold measured_row_def img kNumNodes_def)
qed

text \<open>
The experiment runs to its end and prints, for every number of virtual nodes, the spread of the numbers of
keys that the nodes own first: every key is counted exactly once, at the first node clockwise from it, and
the printed minimum, maximum and deviation are those of these counts.
\<close>
theorem experiment_measures_spread:
  "experiment_main = Some (map measured_row vnode_counts) \<and>
   (\<Sum>n\<in>set node_ids. keys_owned 256 n) = kNumKeys"
proof
  have "map (\<lambda>V. map_option (spread_row V)
      (count_keys (experiment_ring V) [0..<kNumKeys] (map (\<lambda>n. (n, 0)) node_ids))) vnode_counts =
    map (\<lambda>V. Some (measured_row V)) vnode_counts"
    by (rule map_cong [OF refl], rule count_keys_measured) (auto simp: vnode_counts_def)
  moreover have "those (map (\<lambda>V. Some (f V)) xs) = Some (map f xs)" for f :: "nat \<Rightarrow> experiment_row" and xs
    by (induction xs) simp_all
  ultimately show "experiment_main = Some (map measured_row vnode_counts)"
    unfolding experiment_main_def by metis
next
  have "length ks = (\<Sum>n\<in>S. length (filter (\<lambda>k. f k = n) ks))"
    if "finite S" "\<And>k. f k \<in> S" for f :: "nat \<Rightarrow> node_id" and S and ks
  proof (induction ks)
    case (Cons k ks)
    have "(\<Sum>n\<in>S. length (filter (\<lambda>k. f k = n) (k # ks))) =
        (\<Sum>n\<in>S. length (filter (\<lambda>k. f k = n) ks) + (if n = f k then 1 else 0))"
      by (rule sum.cong) auto
    with Cons that show ?case by (simp add: sum.distrib)
  qed simp
  from this [of "set node_ids" "key_owner (experiment_ring 256)" "[0..<kNumKeys]"]
  show "(\<Sum>n\<in>set node_ids. keys_owned 256 n) = kNumKeys"
    using key_owner_in_ring [OF experiment_ring_nonempty, of 256] experiment_ring_nodes [of 256]
    unfolding keys_owned_def by fastforce
qed

end
