(* ===== verification/Spec2Isabelle.thy ===== *)
theory Spec2Isabelle
  imports Background Crash_Tolerance Event_Log Eventual_Owners Gossip_Spread Register Ring_Changes Unit_Tests Vnode_Experiment
begin

text \<open>
  Driftstore is a replicated key-value store in C++.  Symmetric server processes keep keys in memory,
  place them on a consistent-hashing ring, replicate every write to \<open>N\<close> nodes of the key's preference
  list, wait for \<open>W\<close> acknowledgements of a write and \<open>R\<close> answers of a read, version values with
  vector clocks, stand in for unreachable owners with hints, repair stale replicas after reads, and
  spread membership by gossip.  This development models the files under \<^verbatim>\<open>src/src\<close> and proves
  what makes them correct.

  The parts, from the data up, and the theories that hold them:

  \<^item> Vector clocks (\<^verbatim>\<open>vector_clock.hpp\<close>): theory \<open>Vector_Clock\<close>.  A clock's counters are the
    proto map, a list of pairs with distinct keys in iteration order (unspecified in C++; every order is
    covered), its counters 64-bit words.  The comparison with its two passes decides the pointwise order;
    merge is its join; a new clock dominates its sources until a counter wraps; the frontier and the
    resolution of a read answer are the maximal versions and the last writer among them.
  \<^item> The ring (\<^verbatim>\<open>ring.hpp\<close>): theories \<open>Hashing\<close> and \<open>Ring\<close>.  The ring is the ordered map
    from tokens to nodes (theory \<open>Ordered_Map\<close>); \<open>mergeInto\<close> is an entry-wise last-writer-wins
    join (theory \<open>LWW\<close>) and keeps ring and table in agreement; the clockwise walk of
    \<open>preferenceList\<close> refines an abstract description by natural owners and stand-ins.
  \<^item> The state of a server (\<^verbatim>\<open>node_service.hpp\<close>, \<open>class NodeServiceImpl\<close>): theory
    \<open>Node_State\<close>, with the constructor, the quorum check of \<open>main\<close>, and the marks of
    unreachable peers.  \<open>wf_node\<close> is the representation invariant.
  \<^item> Replica storage (\<^verbatim>\<open>node_kv.cpp\<close>, handlers \<open>ReplicateWrite\<close> and \<open>ReplicateRead\<close> and the
    stores below them): theory \<open>Replica\<close>.  Both the key's slot and a hint's slot meet the contract
    \<open>causal_slot\<close> (theory \<open>Causal_Slot\<close>): what is held never gets causally older.
  \<^item> Membership (\<^verbatim>\<open>node_membership.cpp\<close>, \<^verbatim>\<open>node_status.cpp\<close>): theory \<open>Membership\<close>.
    Theory \<open>Ring_Changes\<close> has the promise of consistent hashing, what a merge or a removal does to
    the placement of keys.
  \<^item> Several servers and their calls: theory \<open>Cluster\<close>.
  \<^item> Coordination of writes (\<^verbatim>\<open>node_kv.cpp\<close>, \<open>Put\<close>, \<open>forwardPut\<close>, \<open>coordinatePut\<close>):
    theory \<open>Coordinator\<close>; its properties are in \<open>Write_Path\<close> and \<open>Put_Invariants\<close>.
  \<^item> Coordination of reads and read repair (\<open>Get\<close>, \<open>repairReplicas\<close>): theory \<open>Read_Path\<close>;
    theory \<open>Consistency\<close> composes a write with a later read, theory \<open>Crash_Tolerance\<close> puts
    crashes between them.
  \<^item> Hinted handoff (\<^verbatim>\<open>node_reachability.cpp\<close>): theory \<open>Handoff\<close>.
  \<^item> Which value survives: the theories above follow a version by its clock.  Theory
    \<open>Value_Safety\<close> follows the value as well: \<open>copies\<close> is what the cluster holds for a key, and a
    clock that no other copy carries (\<open>unique_clock\<close>) determines its value; what the acknowledgements of
    a write, a delivery of hints, a reachability round and a read repair keep is stated there.  Theory
    \<open>Eventual_Owners\<close> takes a write on to the rounds that hand its hints to their owners.  Theory
    \<open>Clock_Reuse\<close> has two runs, one with a restart, in which two values get equal clocks.
  \<^item> Gossip and bootstrap: theory \<open>Gossip\<close>.  Theory \<open>Gossip_Spread\<close> follows the tables
    through any number of rounds with failures: who has been informed by whom (\<open>informed\<close>), what a table
    holds then, how far a removal has got, and when all tables agree.
  \<^item> That every operation keeps a well-formed cluster, and that no handler throws in one: theory
    \<open>Cluster_Steps\<close>.
  \<^item> Texts (\<^verbatim>\<open>clockToString\<close>, \<^verbatim>\<open>parseClockArg\<close>, \<^verbatim>\<open>splitSeeds\<close> and the number
    conversions of the standard library): theory \<open>Text_Format\<close>.
  \<^item> Logging (\<^verbatim>\<open>logging.hpp\<close>): theory \<open>Timestamps\<close> has the clock and the time stamps, theory
    \<open>Logging\<close> the events and the line, whose parts are printed up to their first NUL.  Theory \<open>Event_Log\<close> has what the program logs: beside
    every handler, thread and program \<open>f\<close> that logs stands a function \<open>f_log\<close>, the lines that the
    same run of \<open>f\<close> writes, on all servers, in their order, each with its node, event and details.  Its
    lemmas show that the log of a write, of a read and of a handoff tells their outcome.
  \<^item> The server process (\<^verbatim>\<open>node_main.cpp\<close>, \<open>main\<close>): theory \<open>Node_Main\<close>.
  \<^item> The client library (\<^verbatim>\<open>driftclient.hpp\<close>): theory \<open>Drift_Client\<close>, with the interface
    \<open>failover\<close> between the loop over the seeds and the operations that it calls.  Theory
    \<open>Register\<close> specifies the whole store as a map and shows that a healthy cluster implements it for any
    sequence of calls of any clients.
  \<^item> The command-line programs (\<^verbatim>\<open>client.cpp\<close>, \<^verbatim>\<open>driftclient.cpp\<close>): theory
    \<open>Client_Tools\<close>; the experiment on the number of virtual nodes
    (\<^verbatim>\<open>vnode_experiment.cpp\<close>): theory \<open>Vnode_Experiment\<close>, with its mean and deviation
    as real numbers.
  \<^item> The whole system: theory \<open>Value_Origin\<close> shows that no operation invents a version, and theory
    \<open>Cluster_System\<close> has the step relation of servers, programs and background rounds, its reachable
    states, their invariant, and what it means for preference lists, handlers and reads.
  \<^item> Concurrency: theory \<open>Interleaving\<close> takes the locked sections of \<^verbatim>\<open>node_kv.cpp\<close>,
    \<^verbatim>\<open>node_membership.cpp\<close> and \<^verbatim>\<open>node_reachability.cpp\<close> as the steps of a
    cluster with messages in flight, in every order, for the handlers, threads and writes of all clients at
    once, and shows what every interleaving keeps: well-formed servers, the origin of every version, the
    meaning of the counters, and that no section goes back in causal time.  Theory \<open>Section_Refinement\<close> shows that every reachable state
    of \<open>Cluster_System\<close> (without \<open>--replicate-write\<close>) is one of these interleavings, through the
    interface \<open>simulated_call\<close> between a client and its calls.
  \<^item> The background threads of a server (\<open>start\<close>, \<open>gossipLoop\<close>, \<open>reachabilityLoop\<close>): theory
    \<open>Background\<close>, one turn of a thread at a time under every schedule.
  \<^item> \<open>Scenario\<close> holds the small cluster on which the witnesses evaluate the model.

  The network, the clock, the random generator and the thread scheduler are not code of the repository.
  They are an environment (\<open>env\<close> in theory \<open>Cluster\<close>): at every point in time it gives the fate of
  a call (delivered, request lost, reply lost after the handler ran), a clock reading and a choice.  The
  theorems hold for all environments unless they say otherwise.  The threads of one fan-out interleave
  call by call in every order; a locked section is one step.

  Loops: the walk of the ring is bounded by the ring's size, a fan-out thread excludes a further node of
  the ring in every turn (this is the termination measure of \<open>run_writes\<close>), forwarding happens at
  most once, the bootstrap makes three passes.  All of these are total functions without fuel.  The two background
  loops never end; a run of theirs is any finite schedule of turns.

  Integers: counters, tokens and hashes are 64-bit words and wrap; time stamps are only stored and
  compared and are integers; the quorum numbers are the integers that \<open>stoi\<close> yields (the sum of two
  of them is assumed not to overflow, as it cannot below \<open>2^30\<close> replicas).

  Two grains: in \<open>Cluster_System\<close> the operations of different clients follow one another whole (the
  threads within one interleave, and a repair thread runs at any later point), and the guarantees of whole
  operations are stated there; in \<open>Interleaving\<close> everything interleaves, and the guarantees are those
  of sections and of states.

  Not modelled: the length of pauses and deadlines (a deadline is a fate of its call); the wire encoding and
  gRPC itself; a clock set before 1970; messages on the standard error stream; the layout and the rounding of
  the table that \<^verbatim>\<open>vnode_experiment.cpp\<close> prints; the test drivers
  (\<^verbatim>\<open>test_ring.cpp\<close>, \<^verbatim>\<open>test_vector_clocks.cpp\<close>), whose assertions theory
  \<open>Unit_Tests\<close> evaluates on the model.
\<close>

end
